(* ===== verification/Prelude.thy ===== *)
theory Prelude
  imports Main "HOL-Library.Word" "HOL-Library.AList" "HOL-Library.Multiset"
begin

text \<open>
  What every component of the development shares: names for the machine types, the C++
  exceptions the code can see, the byte order of the length prefix, the reachable states of a
  step relation and the contract of an inductive invariant, and generic facts on lists, maps
  and characters.
\<close>

section \<open>Machine types\<close>

text \<open>
  \<open>int\<close> and \<open>uint32_t\<close> are 32-bit words (\<open>int\<close> read with \<open>sint\<close>), \<open>size_t\<close> and
  \<open>uint64_t\<close> are 64-bit words. Lengths of containers are \<open>nat\<close>. A \<open>std::string\<close> is a list
  of characters, and an Isabelle \<open>char\<close> is a byte.
\<close>

type_synonym u32 = "32 word"
type_synonym u64 = "64 word"
type_synonym cint = "32 word"
type_synonym bytes = string

text \<open>
  What a call may throw, by the \<open>catch\<close> clauses that tell them apart: \<open>mysqlx::Error\<close> and
  the other descendants of \<open>std::exception\<close>, and anything else.
\<close>

datatype exn = MysqlxError | StdException | OtherException

section \<open>Characters and the big-endian length\<close>

definition be32_bytes :: "u32 \<Rightarrow> bytes" where
  "be32_bytes n =
     [char_of (unat n div 2 ^ 24), char_of (unat n div 2 ^ 16),
      char_of (unat n div 2 ^ 8), char_of (unat n)]"

definition be32_value :: "bytes \<Rightarrow> u32" where
  "be32_value bs = word_of_nat (foldl (\<lambda>acc c. acc * 256 + of_char c) 0 bs)"

lemma length_be32_bytes [simp]: "length (be32_bytes n) = 4"
  by (simp add: be32_bytes_def)

lemma div_step_256: "(n::nat) div (256 * k) * 256 + n div k mod 256 = n div k"
proof -
  have "n div (256 * k) = n div k div 256"
    by (simp add: div_mult2_eq mult.commute)
  then show ?thesis by simp
qed

lemma be32_split:
  "(((n::nat) div 2 ^ 24 * 256 + n div 2 ^ 16 mod 256) * 256 + n div 2 ^ 8 mod 256) * 256
           + n mod 256 = n"
proof -
  have "n div 2 ^ 24 * 256 + n div 2 ^ 16 mod 256 = n div 2 ^ 16"
    using div_step_256 [of n "2 ^ 16"] by simp
  moreover have "n div 2 ^ 16 * 256 + n div 2 ^ 8 mod 256 = n div 2 ^ 8"
    using div_step_256 [of n "2 ^ 8"] by simp
  moreover have "n div 2 ^ 8 * 256 + n mod 256 = n"
    using div_step_256 [of n 1] by simp
  ultimately show ?thesis by presburger
qed

lemma be32_value_bytes [simp]: "be32_value (be32_bytes n) = n"
proof -
  from be32_split have
    "((unat n div 2 ^ 24 * 256 + unat n div 2 ^ 16 mod 256) * 256
        + unat n div 2 ^ 8 mod 256) * 256 + unat n mod 256 = unat n" .
  moreover have "unat n div 2 ^ 24 mod 256 = unat n div 2 ^ 24"
    using unsigned_less [of n, where ?'a = nat] by simp
  ultimately have "foldl (\<lambda>acc c. acc * 256 + of_char c) 0 (be32_bytes n) = unat n"
    by (simp add: be32_bytes_def)
  then show ?thesis by (simp add: be32_value_def)
qed

section \<open>Reachable states and inductive invariants\<close>

inductive reach :: "('s \<Rightarrow> bool) \<Rightarrow> ('s \<Rightarrow> 's \<Rightarrow> bool) \<Rightarrow> 's \<Rightarrow> bool"
  for init :: "'s \<Rightarrow> bool" and step :: "'s \<Rightarrow> 's \<Rightarrow> bool" where
  reach_init: "init s \<Longrightarrow> reach init step s"
| reach_step: "reach init step s \<Longrightarrow> step s t \<Longrightarrow> reach init step t"

text \<open>
  The contract between a transition system and its invariant: it holds at the start and every
  step keeps it. Each state machine of the development interprets it on its own step relation.
\<close>

locale inductive_invariant =
  fixes init :: "'s \<Rightarrow> bool"
    and step :: "'s \<Rightarrow> 's \<Rightarrow> bool"
    and Inv :: "'s \<Rightarrow> bool"
  assumes inv_init: "init s \<Longrightarrow> Inv s"
    and inv_step: "Inv s \<Longrightarrow> step s t \<Longrightarrow> Inv t"
begin

lemma inv_reach: "reach init step s \<Longrightarrow> Inv s"
  by (induction rule: reach.induct) (auto intro: inv_init inv_step)

lemma inv_steps: "step\<^sup>*\<^sup>* s t \<Longrightarrow> Inv s \<Longrightarrow> Inv t"
  by (induction rule: rtranclp_induct) (auto intro: inv_step)

end

text \<open>
  The contract of work that ends: in the states of an invariant every step keeps the invariant and
  makes a natural number smaller.
\<close>

locale measured_steps =
  fixes step :: "'s \<Rightarrow> 's \<Rightarrow> bool"
    and Inv :: "'s \<Rightarrow> bool"
    and work :: "'s \<Rightarrow> nat"
  assumes step_inv: "Inv s \<Longrightarrow> step s t \<Longrightarrow> Inv t"
    and step_work: "Inv s \<Longrightarrow> step s t \<Longrightarrow> work t < work s"
begin

lemma steps_inv: "step\<^sup>*\<^sup>* s t \<Longrightarrow> Inv s \<Longrightarrow> Inv t"
  by (induction rule: rtranclp_induct) (auto intro: step_inv)

lemma steps_bound: "(step ^^ n) s t \<Longrightarrow> Inv s \<Longrightarrow> Inv t \<and> n + work t \<le> work s"
proof (induction n arbitrary: t)
  case 0
  then show ?case by simp
next
  case (Suc n)
  then obtain u where "(step ^^ n) s u" "step u t" by auto
  with Suc show ?case using step_inv [of u t] step_work [of u t] by fastforce
qed

lemma steps_end: "Inv s \<Longrightarrow> \<exists>t. step\<^sup>*\<^sup>* s t \<and> (\<nexists>u. step t u)"
proof (induction "work s" arbitrary: s rule: less_induct)
  case less
  show ?case
  proof (cases "\<exists>u. step s u")
    case True
    then obtain u where "step s u" ..
    with less show ?thesis by (meson step_inv step_work converse_rtranclp_into_rtranclp)
  qed blast
qed

end

section \<open>Generic facts\<close>

lemma map_of_delete_self [simp]: "map_of (AList.delete k xs) k = None"
  by (simp add: delete_conv')

lemma update_fresh: "k \<notin> fst ` set xs \<Longrightarrow> AList.update k v xs = xs @ [(k, v)]"
  by (induction xs) auto

lemma set_delete_subset: "set (AList.delete k xs) \<subseteq> set xs"
  by (auto simp: AList.delete_eq)

lemma unat_scast_small:
  fixes w :: u32
  assumes "unat w < 2 ^ 31"
  shows "unat (scast w :: u64) = unat w"
proof -
  have u: "uint w = int (unat w)" by simp
  have "int (unat w) < int (2 ^ 31)" using assms by (simp only: of_nat_less_iff)
  then have lt: "uint w < 2 ^ 31" unfolding u by simp
  have "sint w = signed_take_bit 31 (uint w)" by (simp add: sint_uint)
  also have "\<dots> = uint w"
    by (rule signed_take_bit_int_eq_self) (use lt uint_ge_0 [of w] in linarith)+
  finally have "(scast w :: u64) = word_of_int (int (unat w))" by (simp only: scast_eq u)
  then have "(scast w :: u64) = word_of_nat (unat w)" by simp
  moreover have "unat w < 2 ^ LENGTH(64)" using assms by simp
  ultimately show ?thesis
    by (simp only: unsigned_of_nat take_bit_nat_eq_self of_nat_id)
qed

lemma unat_ucast_small:
  fixes w :: u64
  shows "unat w < 2 ^ 31 \<Longrightarrow> unat (ucast w :: u32) = unat w"
  by (simp add: unsigned_ucast_eq take_bit_nat_eq_self)

end
