(* ===== verification/Message_Buffer.thy ===== *)
theory Message_Buffer
  imports Prelude
begin

text \<open>
  The receive buffer of a session (\<open>MessageBufferManager\<close>): bytes are appended as they come
  from the socket, messages are cut out of the front by their four-byte big-endian length. The
  theory models the three operations and the drain loop of the read handler, gives the stream
  grammar they implement, and proves that what is delivered does not depend on how the network
  cuts the stream, that framed messages come back unchanged, and that the buffer stays bounded.
\<close>

section \<open>State and operations\<close>

record msgbuf =
  mb_buffer :: bytes
  mb_invalid :: bool

definition empty_msgbuf :: msgbuf where
  "empty_msgbuf = \<lparr>mb_buffer = [], mb_invalid = False\<rparr>"

definition MAX_PACKET_SIZE :: u32 where
  "MAX_PACKET_SIZE = 4096"

definition mb_append :: "bytes \<Rightarrow> msgbuf \<Rightarrow> msgbuf" where
  "mb_append d mb = mb\<lparr>mb_buffer := mb_buffer mb @ d\<rparr>"

definition extract_message :: "msgbuf \<Rightarrow> bytes option \<times> msgbuf" where
  "extract_message mb0 =
     (let mb = mb0\<lparr>mb_invalid := False\<rparr>; b = mb_buffer mb in
      if length b < 4 then (None, mb)
      else let len = be32_value (take 4 b) in
        if len = 0 \<or> MAX_PACKET_SIZE < len
        then (None, mb\<lparr>mb_buffer := [], mb_invalid := True\<rparr>)
        else if length b < unat (4 + len) then (None, mb)
        else (Some (take (unat len) (drop 4 b)), mb\<lparr>mb_buffer := drop (unat (4 + len)) b\<rparr>))"

definition mb_clear :: "msgbuf \<Rightarrow> msgbuf" where
  "mb_clear mb = mb\<lparr>mb_buffer := []\<rparr>"

definition was_last_clear_by_invalid_length :: "msgbuf \<Rightarrow> bool" where
  "was_last_clear_by_invalid_length mb = mb_invalid mb"

text \<open>The length check keeps the unsigned addition \<open>4 + len\<close> from wrapping.\<close>

lemma MAX_PACKET_SIZE_unat [simp]: "unat MAX_PACKET_SIZE = 4096"
  by (simp add: MAX_PACKET_SIZE_def)

lemma unat_four_plus:
  assumes "\<not> MAX_PACKET_SIZE < len"
  shows "unat (4 + len) = 4 + unat len" and "unat len \<le> 4096"
proof -
  from assms show le: "unat len \<le> 4096"
    by (simp add: word_less_nat_alt)
  then show "unat (4 + len) = 4 + unat len"
    by (simp add: unat_word_ariths)
qed

lemma extract_message_shorter:
  "extract_message mb = (Some m, mb') \<Longrightarrow> length (mb_buffer mb') < length (mb_buffer mb)"
  by (auto simp: extract_message_def Let_def unat_four_plus split: if_splits)

section \<open>The drain loop\<close>

text \<open>
  The read handler calls \<open>extract_message\<close> until it returns no message; here without the
  handler call, which does not touch the buffer.
\<close>

function extract_all :: "msgbuf \<Rightarrow> bytes list \<times> msgbuf" where
  "extract_all mb =
     (case extract_message mb of
        (None, mb') \<Rightarrow> ([], mb')
      | (Some m, mb') \<Rightarrow> (case extract_all mb' of (ms, mb'') \<Rightarrow> (m # ms, mb'')))"
  by pat_completeness auto
termination
  by (relation "measure (\<lambda>mb. length (mb_buffer mb))")
    (auto dest: extract_message_shorter [OF sym])

declare extract_all.simps [simp del]

definition feed :: "msgbuf \<Rightarrow> bytes \<Rightarrow> bytes list \<times> msgbuf" where
  "feed mb d = extract_all (mb_append d mb)"

section \<open>The stream grammar\<close>

text \<open>
  \<open>parse_stream b\<close>: the messages at the front of \<open>b\<close> and the unfinished rest, or no rest
  when a length outside \<open>1..4096\<close> is met.
\<close>

function parse_stream :: "bytes \<Rightarrow> bytes list \<times> bytes option" where
  "parse_stream b =
     (if length b < 4 then ([], Some b)
      else let n = unat (be32_value (take 4 b)) in
        if n < 1 \<or> 4096 < n then ([], None)
        else if length b < 4 + n then ([], Some b)
        else case parse_stream (drop (4 + n) b) of
               (ms, e) \<Rightarrow> (take n (drop 4 b) # ms, e))"
  by pat_completeness auto
termination
  by (relation "measure length") auto

declare parse_stream.simps [simp del]

lemma parse_stream_append:
  "parse_stream (b @ c) =
     (case parse_stream b of
        (ms, None) \<Rightarrow> (ms, None)
      | (ms, Some r) \<Rightarrow> (case parse_stream (r @ c) of (ms', e) \<Rightarrow> (ms @ ms', e)))"
proof (induction b rule: parse_stream.induct)
  case (1 b)
  let ?n = "unat (be32_value (take 4 b))"
  consider "length b < 4" | "4 \<le> length b" "?n < 1 \<or> 4096 < ?n"
    | "4 \<le> length b" "1 \<le> ?n" "?n \<le> 4096" "length b < 4 + ?n"
    | "4 \<le> length b" "1 \<le> ?n" "?n \<le> 4096" "4 + ?n \<le> length b"
    by linarith
  then show ?case
  proof cases
    case 4
    then have "parse_stream (drop (4 + ?n) b @ c) =
        (case parse_stream (drop (4 + ?n) b) of
           (ms, None) \<Rightarrow> (ms, None)
         | (ms, Some r) \<Rightarrow> (case parse_stream (r @ c) of (ms', e) \<Rightarrow> (ms @ ms', e)))"
      using "1.IH" by (simp add: Let_def)
    with 4 show ?thesis
      by (simp add: parse_stream.simps [of b] parse_stream.simps [of "b @ c"] Let_def
          split: prod.splits option.splits)
  qed (auto simp: parse_stream.simps [of b] parse_stream.simps [of "b @ c"] Let_def
         split: prod.splits)
qed

lemma parse_stream_rest: "parse_stream b = (ms, Some r) \<Longrightarrow> parse_stream r = ([], Some r)"
proof (induction b arbitrary: ms rule: parse_stream.induct)
  case (1 b)
  show ?case
  proof (cases "r = b")
    case True
    then show ?thesis using "1.prems"
      using parse_stream_append [of b "[]"] by (auto split: prod.splits option.splits)
  next
    case False
    then show ?thesis using 1
      by (auto simp: parse_stream.simps [of b] Let_def split: if_splits prod.splits)
  qed
qed

section \<open>The buffer implements the grammar\<close>

lemma extract_all_parse:
  "extract_all mb =
     (case parse_stream (mb_buffer mb) of
        (ms, Some r) \<Rightarrow> (ms, mb\<lparr>mb_buffer := r, mb_invalid := False\<rparr>)
      | (ms, None) \<Rightarrow> (ms, mb\<lparr>mb_buffer := [], mb_invalid := True\<rparr>))"
proof (induction mb rule: extract_all.induct)
  case (1 mb)
  let ?b = "mb_buffer mb"
  let ?len = "be32_value (take 4 ?b)"
  consider "length ?b < 4" | "4 \<le> length ?b" "?len = 0 \<or> MAX_PACKET_SIZE < ?len"
    | "4 \<le> length ?b" "?len \<noteq> 0" "\<not> MAX_PACKET_SIZE < ?len" "length ?b < unat (4 + ?len)"
    | "4 \<le> length ?b" "?len \<noteq> 0" "\<not> MAX_PACKET_SIZE < ?len" "unat (4 + ?len) \<le> length ?b"
    by linarith
  then show ?case
  proof cases
    case 1
    then show ?thesis
      by (simp add: extract_all.simps [of mb] parse_stream.simps [of ?b] extract_message_def)
  next
    case 2
    then have "unat ?len < 1 \<or> 4096 < unat ?len"
      by (auto simp: word_less_nat_alt unat_eq_zero)
    with 2 show ?thesis
      by (simp add: extract_all.simps [of mb] parse_stream.simps [of ?b] extract_message_def Let_def)
  next
    case 3
    with unat_four_plus [OF 3(3)] have "\<not> (unat ?len < 1 \<or> 4096 < unat ?len)"
      by (auto simp: unat_eq_zero)
    with 3 unat_four_plus [OF 3(3)] show ?thesis
      by (simp add: extract_all.simps [of mb] parse_stream.simps [of ?b] extract_message_def Let_def)
  next
    case 4
    note n = unat_four_plus [OF 4(3)]
    have e: "extract_message mb = (Some (take (unat ?len) (drop 4 ?b)),
        mb\<lparr>mb_buffer := drop (4 + unat ?len) ?b, mb_invalid := False\<rparr>)"
      using 4 n by (simp add: extract_message_def Let_def)
    have p: "parse_stream ?b = (case parse_stream (drop (4 + unat ?len) ?b) of
        (ms, e) \<Rightarrow> (take (unat ?len) (drop 4 ?b) # ms, e))"
      using 4 n by (simp add: parse_stream.simps [of ?b] Let_def unat_eq_zero not_less_eq_eq Suc_le_eq
          unat_gt_0)
    show ?thesis
      using "1.IH" [OF e [symmetric] refl] by (simp add: extract_all.simps [of mb] e p
          split: prod.splits option.splits)
  qed
qed

text \<open>
  What a stream decoder promises its client, whatever its state: feeding a chunk parses what
  was pending followed by the chunk. The read handler stops at the first invalid length.
\<close>

fun run_feed :: "('s \<Rightarrow> bytes \<Rightarrow> 'm list \<times> 's) \<Rightarrow> ('s \<Rightarrow> bool) \<Rightarrow> 's \<Rightarrow> bytes list
    \<Rightarrow> 'm list \<times> 's" where
  "run_feed fd dead s [] = ([], s)"
| "run_feed fd dead s (c # cs) =
     (if dead s then ([], s)
      else case fd s c of (ms, s1) \<Rightarrow>
        (case run_feed fd dead s1 cs of (ms', s2) \<Rightarrow> (ms @ ms', s2)))"

locale stream_decoder =
  fixes parse :: "bytes \<Rightarrow> 'm list \<times> bytes option"
    and fd :: "'s \<Rightarrow> bytes \<Rightarrow> 'm list \<times> 's"
    and dead :: "'s \<Rightarrow> bool"
    and pending :: "'s \<Rightarrow> bytes"
  assumes parse_append: "parse (b @ c) =
     (case parse b of
        (ms, None) \<Rightarrow> (ms, None)
      | (ms, Some r) \<Rightarrow> (case parse (r @ c) of (ms', e) \<Rightarrow> (ms @ ms', e)))"
    and parse_rest: "parse b = (ms, Some r) \<Longrightarrow> parse r = ([], Some r)"
    and feed_msgs: "fst (fd s c) = fst (parse (pending s @ c))"
    and feed_dead: "dead (snd (fd s c)) \<longleftrightarrow> snd (parse (pending s @ c)) = None"
    and feed_pending: "snd (parse (pending s @ c)) = Some r \<Longrightarrow> pending (snd (fd s c)) = r"
begin

lemma run_feed_dead: "dead s \<Longrightarrow> run_feed fd dead s cs = ([], s)"
  by (cases cs) simp_all

lemma run_feed_parse:
  assumes "\<not> dead s" and "parse (pending s) = ([], Some (pending s))"
  shows "fst (run_feed fd dead s cs) = fst (parse (pending s @ concat cs))
    \<and> (dead (snd (run_feed fd dead s cs)) \<longleftrightarrow> snd (parse (pending s @ concat cs)) = None)
    \<and> (\<forall>r. snd (parse (pending s @ concat cs)) = Some r \<longrightarrow>
         pending (snd (run_feed fd dead s cs)) = r)"
  using assms
proof (induction cs arbitrary: s)
  case Nil
  then show ?case by simp
next
  case (Cons c cs)
  obtain ms s1 where f: "fd s c = (ms, s1)" by (cases "fd s c")
  obtain e where p: "parse (pending s @ c) = (ms, e)"
    using feed_msgs [of s c] f by (cases "parse (pending s @ c)") simp
  show ?case
  proof (cases e)
    case None
    then have "dead s1" using feed_dead [of s c] f p by simp
    then show ?thesis using Cons.prems f p None parse_append [of "pending s @ c" "concat cs"]
      by (simp add: run_feed_dead)
  next
    case (Some r)
    then have s1: "\<not> dead s1" "pending s1 = r"
      using feed_dead [of s c] feed_pending [of s c r] f p by simp_all
    then have "parse (pending s1) = ([], Some (pending s1))"
      using parse_rest p Some by simp
    note IH = Cons.IH [OF s1(1) this]
    obtain ms' e' where p': "parse (r @ concat cs) = (ms', e')"
      by (cases "parse (r @ concat cs)")
    obtain ms'' s2 where run: "run_feed fd dead s1 cs = (ms'', s2)"
      by (cases "run_feed fd dead s1 cs")
    have "parse (pending s @ concat (c # cs)) = (ms @ ms', e')"
      using p p' Some parse_append [of "pending s @ c" "concat cs"] by simp
    moreover have "run_feed fd dead s (c # cs) = (ms @ ms'', s2)"
      using Cons.prems(1) f run by simp
    moreover have "ms'' = ms'" and "dead s2 \<longleftrightarrow> e' = None" and "e' = Some q \<Longrightarrow> pending s2 = q" for q
      using IH s1(2) p' run by simp_all
    ultimately show ?thesis by simp
  qed
qed

end

interpretation recv: stream_decoder parse_stream feed mb_invalid mb_buffer
proof unfold_locales
  fix b c :: bytes and mb :: msgbuf and ms r
  show "parse_stream (b @ c) =
     (case parse_stream b of
        (ms, None) \<Rightarrow> (ms, None)
      | (ms, Some r) \<Rightarrow> (case parse_stream (r @ c) of (ms', e) \<Rightarrow> (ms @ ms', e)))"
    by (rule parse_stream_append)
  show "parse_stream b = (ms, Some r) \<Longrightarrow> parse_stream r = ([], Some r)"
    by (rule parse_stream_rest)
  show "fst (feed mb c) = fst (parse_stream (mb_buffer mb @ c))"
    "mb_invalid (snd (feed mb c)) \<longleftrightarrow> snd (parse_stream (mb_buffer mb @ c)) = None"
    "snd (parse_stream (mb_buffer mb @ c)) = Some r \<Longrightarrow> mb_buffer (snd (feed mb c)) = r"
    by (auto simp: feed_def mb_append_def extract_all_parse split: prod.splits option.splits)
qed

section \<open>Framing, as the writer does it\<close>

text \<open>
  \<open>do_write_queue\<close> puts the low 32 bits of the message's length, big-endian, before the
  message.
\<close>

definition frame_message :: "bytes \<Rightarrow> bytes" where
  "frame_message m = be32_bytes (word_of_nat (length m)) @ m"

lemma length_frame [simp]: "length (frame_message m) = 4 + length m"
  by (simp add: frame_message_def)

lemma parse_stream_frame:
  assumes "1 \<le> length m" "length m \<le> 4096"
  shows "parse_stream (frame_message m @ b) = (case parse_stream b of (ms, e) \<Rightarrow> (m # ms, e))"
proof -
  define x where "x = frame_message m @ b"
  have nonempty: "m \<noteq> []" using assms(1) by auto
  have "take 4 x = be32_bytes (word_of_nat (length m))" "length x = 4 + length m + length b"
    "drop 4 x = m @ b" "drop (4 + length m) x = b"
    by (simp_all add: x_def frame_message_def)
  moreover have "unat (word_of_nat (length m) :: u32) = length m"
    using assms by (simp add: unat_of_nat take_bit_nat_eq_self)
  ultimately have "parse_stream x = (case parse_stream b of (ms, e) \<Rightarrow> (m # ms, e))"
    using assms nonempty by (simp add: parse_stream.simps [of x] Let_def)
  then show ?thesis by (simp only: x_def)
qed

lemma parse_stream_frames:
  "\<forall>m \<in> set ms. 1 \<le> length m \<and> length m \<le> 4096 \<Longrightarrow>
     parse_stream (concat (map frame_message ms)) = (ms, Some [])"
  by (induction ms) (simp_all add: parse_stream_frame parse_stream.simps [of "[]"])

lemma parse_stream_bounds:
  "parse_stream b = (ms, e) \<Longrightarrow>
     (\<forall>m \<in> set ms. 1 \<le> length m \<and> length m \<le> 4096) \<and> (\<forall>r. e = Some r \<longrightarrow> length r < 4 + 4096)"
proof (induction b arbitrary: ms rule: parse_stream.induct)
  case (1 b)
  let ?n = "unat (be32_value (take 4 b))"
  consider "length b < 4" | "4 \<le> length b" "?n < 1 \<or> 4096 < ?n"
    | "4 \<le> length b" "1 \<le> ?n" "?n \<le> 4096" "length b < 4 + ?n"
    | "4 \<le> length b" "1 \<le> ?n" "?n \<le> 4096" "4 + ?n \<le> length b"
    by linarith
  then show ?case
  proof cases
    case 4
    obtain ms' where d: "parse_stream (drop (4 + ?n) b) = (ms', e)" and ms: "ms = take ?n (drop 4 b) # ms'"
      using 4 "1.prems" by (auto simp: parse_stream.simps [of b] Let_def split: prod.splits)
    show ?thesis using "1.IH" [OF _ refl _ _ d] 4 ms by auto
  qed (use "1.prems" in \<open>auto simp: parse_stream.simps [of b] Let_def\<close>)
qed

section \<open>Properties\<close>

text \<open>
  C10. However the network cuts a byte stream into reads, the read handler delivers the messages
  the stream grammar finds in the whole stream, and it reports an invalid length exactly when
  the grammar meets one.
\<close>

theorem delivery_independent_of_chunking:
  "fst (run_feed feed mb_invalid empty_msgbuf cs) = fst (parse_stream (concat cs))
   \<and> (was_last_clear_by_invalid_length (snd (run_feed feed mb_invalid empty_msgbuf cs))
        \<longleftrightarrow> snd (parse_stream (concat cs)) = None)"
  using recv.run_feed_parse [of empty_msgbuf cs]
  by (simp add: empty_msgbuf_def was_last_clear_by_invalid_length_def parse_stream.simps [of "[]"])

text \<open>
  C11. Messages of 1 to 4096 bytes, framed as the writer frames them and cut into reads in any
  way, are delivered unchanged, in order, none lost and none invented; nothing stays buffered
  and no invalid length is reported.
\<close>

theorem frames_roundtrip:
  assumes "\<forall>m \<in> set ms. 1 \<le> length m \<and> length m \<le> 4096"
    and "concat cs = concat (map frame_message ms)"
  shows "run_feed feed mb_invalid empty_msgbuf cs = (ms, empty_msgbuf)"
proof -
  have "fst (run_feed feed mb_invalid empty_msgbuf cs) = ms
    \<and> \<not> mb_invalid (snd (run_feed feed mb_invalid empty_msgbuf cs))
    \<and> mb_buffer (snd (run_feed feed mb_invalid empty_msgbuf cs)) = []"
    using recv.run_feed_parse [of empty_msgbuf cs] parse_stream_frames [OF assms(1)] assms(2)
    by (simp add: empty_msgbuf_def parse_stream.simps [of "[]"])
  then show ?thesis
    by (cases "run_feed feed mb_invalid empty_msgbuf cs") (simp add: empty_msgbuf_def)
qed

theorem frames_roundtrip_witness:
  "run_feed feed mb_invalid empty_msgbuf
     [take 3 (frame_message ''hi'' @ frame_message ''you''),
      drop 3 (frame_message ''hi'' @ frame_message ''you'')] = ([''hi'', ''you''], empty_msgbuf)"
  by (rule frames_roundtrip) (simp_all add: frame_message_def be32_bytes_def)

text \<open>
  C31. After a read is processed, fewer than 4100 bytes stay buffered whatever was received, and
  every message handed to the dispatcher has between 1 and 4096 bytes: a peer cannot make the
  server hold an unbounded message.
\<close>

theorem buffered_bytes_bounded:
  "length (mb_buffer (snd (feed mb d))) < 4100
   \<and> (\<forall>m \<in> set (fst (feed mb d)). 1 \<le> length m \<and> length m \<le> 4096)"
  using parse_stream_bounds [of "mb_buffer (mb_append d mb)"]
  by (auto simp: feed_def extract_all_parse split: prod.splits option.splits)

theorem buffered_bytes_bounded_witness:
  "length (mb_buffer (snd (feed empty_msgbuf (frame_message ''hi'' @ be32_bytes 9 @ ''part'')))) < 4100"
  using buffered_bytes_bounded [of empty_msgbuf "frame_message ''hi'' @ be32_bytes 9 @ ''part''"] by blast

text \<open>
  A length prefix of 0 or above 4096 drops the whole buffer and raises the flag that makes
  the read handler close the session; a valid length never does.
\<close>

theorem invalid_length_drops_buffer:
  assumes "4 \<le> length (mb_buffer mb)"
  shows "extract_message mb = (None, \<lparr>mb_buffer = [], mb_invalid = True\<rparr>)
    \<longleftrightarrow> unat (be32_value (take 4 (mb_buffer mb))) \<notin> {1..4096}"
  using assms by (cases mb)
    (auto simp: extract_message_def Let_def word_less_nat_alt unat_eq_zero not_less
      Suc_le_eq unat_gt_0)

theorem invalid_length_drops_buffer_witness:
  "extract_message \<lparr>mb_buffer = be32_bytes 5000 @ ''abc'', mb_invalid = False\<rparr>
     = (None, \<lparr>mb_buffer = [], mb_invalid = True\<rparr>)"
  using invalid_length_drops_buffer [of "\<lparr>mb_buffer = be32_bytes 5000 @ ''abc'', mb_invalid = False\<rparr>"]
  by simp

end
