(* ===== verification/Session_Core.thy ===== *)
theory Session_Core
  imports Message_Buffer
begin

text \<open>
  One session (\<open>Session\<close>): its record, its constructor and accessors, the write queue with its
  overflow rule, the task queue, the login timer. The operations here touch the session only;
  those that also reach the session manager are in the theory World. Asynchronous calls are
  modelled by what they leave outstanding on the socket, and their callbacks by operations that
  take the outcome.
\<close>

section \<open>Configuration\<close>

text \<open>
  The numeric entries of \<open>config.json\<close>. \<open>config.value(k, d)\<close> is the entry or the default, an
  \<open>int\<close>; \<open>static_cast<size_t>\<close> sign-extends it to 64 bits.
\<close>

type_synonym config = "string \<Rightarrow> cint option"

definition config_value :: "config \<Rightarrow> string \<Rightarrow> cint \<Rightarrow> cint" where
  "config_value cfg k d = (case cfg k of None \<Rightarrow> d | Some v \<Rightarrow> v)"

definition size_cast :: "cint \<Rightarrow> u64" where
  "size_cast i = scast i"

definition max_task_queue :: "config \<Rightarrow> nat" where
  "max_task_queue cfg = unat (size_cast (config_value cfg ''max_task_queue'' 1000))"

definition max_write_queue_size :: "config \<Rightarrow> nat" where
  "max_write_queue_size cfg = unat (size_cast (config_value cfg ''max_write_queue_size'' 100))"

definition write_queue_overflow_limit :: "config \<Rightarrow> u64" where
  "write_queue_overflow_limit cfg = size_cast (config_value cfg ''write_queue_overflow_limit'' 10)"

definition login_timeout_seconds :: "config \<Rightarrow> int" where
  "login_timeout_seconds cfg = sint (config_value cfg ''login_timeout_seconds'' 90)"

definition config_json :: config where
  "config_json = map_of
     [(''tcp_port'', 12345), (''udp_port'', 54321), (''session_pool_size'', 1),
      (''max_session_pool_size'', 10000), (''max_udp_queue_size'', 10000),
      (''zone_max_sessions'', 500), (''udp_shard_count'', 16), (''session_max_close_retries'', 3),
      (''session_retry_delay_ms'', 100), (''max_task_queue'', 1000),
      (''login_timeout_seconds'', 90), (''max_write_queue_size'', 100),
      (''write_queue_warn_threshold'', 80), (''write_queue_overflow_limit'', 10),
      (''udp_expire_timeout_seconds'', 300), (''user_limit_per_sec'', 10),
      (''total_limit_per_sec'', 1000), (''max_zone_count'', 10), (''max_zone_session_count'', 500)]"

lemma config_json_limits:
  "max_task_queue config_json = 1000" "max_write_queue_size config_json = 100"
  "write_queue_overflow_limit config_json = 10" "login_timeout_seconds config_json = 90"
  by (simp_all add: max_task_queue_def max_write_queue_size_def write_queue_overflow_limit_def
      login_timeout_seconds_def config_value_def config_json_def size_cast_def)

section \<open>State\<close>

datatype session_state = Handshaking | Handshaked | LoginWait | Ready | Closed

text \<open>The enumeration is ordered by its underlying value, as C++ orders it.\<close>

primrec state_rank :: "session_state \<Rightarrow> nat" where
  "state_rank Handshaking = 0"
| "state_rank Handshaked = 1"
| "state_rank LoginWait = 2"
| "state_rank Ready = 3"
| "state_rank Closed = 4"

lemma state_rank_inject: "state_rank a = state_rank b \<longleftrightarrow> a = b"
  by (cases a; cases b) simp_all

instantiation session_state :: linorder
begin

definition less_eq_session_state :: "session_state \<Rightarrow> session_state \<Rightarrow> bool" where
  "less_eq_session_state a b \<longleftrightarrow> state_rank a \<le> state_rank b"

definition less_session_state :: "session_state \<Rightarrow> session_state \<Rightarrow> bool" where
  "less_session_state a b \<longleftrightarrow> state_rank a < state_rank b"

instance
  by standard (auto simp: less_eq_session_state_def less_session_state_def state_rank_inject)

end

lemma le_Closed [simp]: "(s :: session_state) \<le> Closed"
  by (cases s) (simp_all add: less_eq_session_state_def)

text \<open>
  A socket: whether it is open here, the address at the other end of its connection, whether that
  end is still there, whether closing it reports an error, the reads and writes that are outstanding,
  each write with the generation its callback captured, and the frames whose write succeeded.
\<close>

record socket =
  sk_open :: bool
  sk_peer :: "string \<times> 16 word"
  sk_connected :: bool
  sk_close_fails :: bool
  sk_reads :: nat
  sk_writes :: "(u64 \<times> bytes) list"
  sk_sent :: "bytes list"

text \<open>The only closure the program posts as a task starts the next read.\<close>

datatype task = ReadSome

text \<open>Closures dispatched to the strand from another thread and not run yet.\<close>

datatype strand_job = JobTask task | JobWrite bytes

text \<open>
  \<open>ub\<close> records that the code has popped an empty \<open>std::queue\<close>, which is undefined; once it is
  set the other fields mean nothing.
\<close>

record session =
  overflow_count :: u64
  sock :: socket
  message :: string
  session_id :: cint
  nickname :: string
  line_buffer :: string
  read_pending :: bool
  task_queue :: "task list"
  task_running :: bool
  msg_buf :: msgbuf
  write_queue :: "bytes list"
  write_in_progress :: bool
  closed :: bool
  login_timer :: "int option"
  nickname_registered :: bool
  last_alive_time :: int
  sstate :: session_state
  zone_id :: cint
  generation :: u64
  active :: bool
  released :: bool
  strand_jobs :: "strand_job list"
  ub :: bool

definition session_ctor :: "socket \<Rightarrow> cint \<Rightarrow> int \<Rightarrow> session" where
  "session_ctor sk sid now =
     \<lparr>overflow_count = 0, sock = sk, message = [], session_id = sid, nickname = [],
      line_buffer = [], read_pending = False, task_queue = [], task_running = False,
      msg_buf = empty_msgbuf, write_queue = [], write_in_progress = False, closed = False,
      login_timer = None, nickname_registered = False, last_alive_time = now,
      sstate = Handshaking, zone_id = 0, generation = 0, active = False, released = False,
      strand_jobs = [], ub = False\<rparr>"

primrec state_to_string :: "session_state \<Rightarrow> string" where
  "state_to_string Handshaking = ''Handshaking''"
| "state_to_string Handshaked = ''Handshaked''"
| "state_to_string LoginWait = ''LoginWait''"
| "state_to_string Ready = ''Ready''"
| "state_to_string Closed = ''Closed''"

definition try_acquire_read :: "session \<Rightarrow> bool \<times> session" where
  "try_acquire_read s = (\<not> read_pending s, s\<lparr>read_pending := True\<rparr>)"

definition release_read :: "session \<Rightarrow> session" where
  "release_read s = s\<lparr>read_pending := False\<rparr>"

definition update_alive_time :: "int \<Rightarrow> session \<Rightarrow> session" where
  "update_alive_time now s = s\<lparr>last_alive_time := now\<rparr>"

text \<open>\<open>remote_endpoint()\<close> throws (\<open>None\<close>) on a closed socket and when the peer is gone.\<close>

definition remote_endpoint :: "socket \<Rightarrow> (string \<times> 16 word) option" where
  "remote_endpoint sk = (if sk_open sk \<and> sk_connected sk then Some (sk_peer sk) else None)"

definition get_client_ip :: "session \<Rightarrow> string" where
  "get_client_ip s = (case remote_endpoint (sock s) of Some (ip, port) \<Rightarrow> ip | None \<Rightarrow> ''unknown'')"

definition get_client_port :: "session \<Rightarrow> 16 word" where
  "get_client_port s = (case remote_endpoint (sock s) of Some (ip, port) \<Rightarrow> port | None \<Rightarrow> 0)"

end
