(* ===== verification/Session_Write.thy ===== *)
theory Session_Write
  imports Session_Core
begin

text \<open>
  The write side of a session: \<open>enqueue_write\<close> with its overflow rule, \<open>do_write_queue\<close>,
  \<open>post_write\<close> and the completion of a write, and the part of \<open>close_session\<close> that touches the
  session. At most one write is outstanding, nothing is popped from an empty queue, and while the
  queue does not overflow the peer receives what was posted, in order. An overflow drops the
  message whose write is in progress, and its completion then drops an unsent one.
\<close>

section \<open>Operations\<close>

definition write_queue_pop :: "session \<Rightarrow> session" where
  "write_queue_pop s =
     (case write_queue s of [] \<Rightarrow> s\<lparr>ub := True\<rparr> | _ # q \<Rightarrow> s\<lparr>write_queue := q\<rparr>)"

definition enqueue_write :: "config \<Rightarrow> bytes \<Rightarrow> session \<Rightarrow> session" where
  "enqueue_write cfg m s =
     (if max_write_queue_size cfg \<le> length (write_queue s)
      then let s1 = write_queue_pop s; s2 = s1\<lparr>overflow_count := overflow_count s1 + 1\<rparr> in
        if write_queue_overflow_limit cfg \<le> overflow_count s2
        then s2\<lparr>closed := True\<rparr>
        else s2\<lparr>write_queue := write_queue s2 @ [m]\<rparr>
      else s\<lparr>overflow_count := 0, write_queue := write_queue s @ [m]\<rparr>)"

definition do_write_queue :: "session \<Rightarrow> session" where
  "do_write_queue s =
     (if sstate s = Closed then s
      else case write_queue s of
        [] \<Rightarrow> s\<lparr>write_in_progress := False\<rparr>
      | m # _ \<Rightarrow> s\<lparr>sock := (sock s)\<lparr>sk_writes :=
                     sk_writes (sock s) @ [(generation s, frame_message m)]\<rparr>\<rparr>)"

text \<open>The closure that \<open>post_write\<close> dispatches to the strand.\<close>

definition post_write_job :: "config \<Rightarrow> bytes \<Rightarrow> session \<Rightarrow> session" where
  "post_write_job cfg m s =
     (let idle = (write_queue s = []); s1 = enqueue_write cfg m s in
      if idle then do_write_queue (s1\<lparr>write_in_progress := True\<rparr>) else s1)"

text \<open>
  The callback of the oldest outstanding write. The second component says that it calls
  \<open>close_session\<close>; \<open>err\<close> is the error code's truth value.
\<close>

definition write_callback :: "bool \<Rightarrow> session \<Rightarrow> session \<times> bool" where
  "write_callback err s =
     (case sk_writes (sock s) of
        [] \<Rightarrow> (s, False)
      | (my_generation, f) # rest \<Rightarrow>
          (let s1 = s\<lparr>sock := (sock s)\<lparr>sk_writes := rest,
                 sk_sent := sk_sent (sock s) @ (if err then [] else [f])\<rparr>\<rparr> in
           if my_generation \<noteq> generation s1 then (s1, False)
           else if err then (s1, True)
           else (do_write_queue (write_queue_pop s1), False)))"

text \<open>What \<open>close_session\<close> does to the session itself, once it has won the \<open>closed_\<close> flag.\<close>

definition close_fields :: "session \<Rightarrow> session" where
  "close_fields s = s\<lparr>closed := True, sstate := Closed, sock := (sock s)\<lparr>sk_open := False\<rparr>\<rparr>"

definition on_nickname_registered :: "session \<Rightarrow> session" where
  "on_nickname_registered s = s\<lparr>nickname_registered := True, sstate := Ready, login_timer := None\<rparr>"

section \<open>The invariant of the write side\<close>

text \<open>
  One write outstanding at most, only for a non-empty queue; while the session is open, a
  non-empty queue has its write outstanding.
\<close>

definition write_inv :: "config \<Rightarrow> session \<Rightarrow> bool" where
  "write_inv cfg s \<longleftrightarrow>
     \<not> ub s
     \<and> length (sk_writes (sock s)) \<le> 1
     \<and> (sk_writes (sock s) \<noteq> [] \<longrightarrow> write_queue s \<noteq> [])
     \<and> (\<forall>w \<in> set (sk_writes (sock s)). fst w = generation s)
     \<and> length (write_queue s) \<le> max_write_queue_size cfg
     \<and> (sstate s = Closed \<longrightarrow> closed s)
     \<and> (\<not> closed s \<longrightarrow> write_queue s \<noteq> [] \<longrightarrow> sk_writes (sock s) \<noteq> [])"

lemmas write_ops = write_queue_pop_def enqueue_write_def do_write_queue_def post_write_job_def
  write_callback_def close_fields_def on_nickname_registered_def Let_def

lemma write_inv_ctor: "sk_writes sk = [] \<Longrightarrow> write_inv cfg (session_ctor sk sid now)"
  by (simp add: write_inv_def session_ctor_def)

lemma write_inv_post:
  assumes "2 \<le> max_write_queue_size cfg" and "write_inv cfg s"
  shows "write_inv cfg (post_write_job cfg m s)"
proof (cases "write_queue s")
  case Nil
  with assms show ?thesis by (auto simp: write_inv_def write_ops)
next
  case (Cons x q)
  show ?thesis
  proof (cases "max_write_queue_size cfg \<le> length (write_queue s)")
    case True
    with Cons assms have "q \<noteq> []" by (auto simp: write_inv_def)
    with Cons True assms show ?thesis by (auto simp: write_inv_def write_ops)
  next
    case False
    with Cons assms show ?thesis by (auto simp: write_inv_def write_ops)
  qed
qed

lemma write_inv_callback:
  assumes "write_inv cfg s" and "write_callback err s = (s', c)"
  shows "write_inv cfg (if c then close_fields s' else s')"
proof (cases "sk_writes (sock s)")
  case Nil
  with assms show ?thesis by (auto simp: write_callback_def)
next
  case (Cons w rest)
  then have "rest = []" "fst w = generation s" and "write_queue s \<noteq> []"
    using assms(1) by (auto simp: write_inv_def)
  with assms Cons show ?thesis
    by (cases w; cases err; cases "write_queue s"; cases "tl (write_queue s)")
      (auto simp: write_inv_def write_ops split: if_splits)
qed

lemma write_inv_close: "write_inv cfg s \<Longrightarrow> write_inv cfg (close_fields s)"
  by (simp add: write_inv_def close_fields_def)

lemma write_inv_registered: "write_inv cfg s \<Longrightarrow> write_inv cfg (on_nickname_registered s)"
  by (auto simp: write_inv_def on_nickname_registered_def)

section \<open>The write machine of one session\<close>

text \<open>
  What can happen to the write side, in any order: a message is posted, the outstanding write
  completes, with or without an error, the session is closed, a nickname is registered.
\<close>

inductive write_step :: "config \<Rightarrow> session \<Rightarrow> session \<Rightarrow> bool" for cfg :: config where
  post: "write_step cfg s (post_write_job cfg m s)"
| callback: "write_callback err s = (s', c) \<Longrightarrow>
     write_step cfg s (if c \<and> \<not> closed s' then close_fields s' else s')"
| close: "\<not> closed s \<Longrightarrow> write_step cfg s (close_fields s)"
| registered: "write_step cfg s (on_nickname_registered s)"

definition fresh_session :: "session \<Rightarrow> bool" where
  "fresh_session s \<longleftrightarrow> (\<exists>peer con fails sid now.
     s = session_ctor \<lparr>sk_open = True, sk_peer = peer, sk_connected = con, sk_close_fails = fails, sk_reads = 0, sk_writes = [], sk_sent = []\<rparr>
           sid now)"

lemma write_inv_callback_closed:
  assumes "write_inv cfg s" and "write_callback err s = (s', c)" and "closed s'" and "c"
  shows "write_inv cfg s'"
  using assms by (auto simp: write_inv_def write_ops split: list.splits if_splits)

lemma write_step_inv:
  assumes "2 \<le> max_write_queue_size cfg" and "write_inv cfg s" and "write_step cfg s t"
  shows "write_inv cfg t"
  using assms(3,2)
proof (induction rule: write_step.induct)
  case (post s m)
  with assms(1) show ?case by (rule write_inv_post)
next
  case (callback err s s' c)
  then show ?case
    using write_inv_callback [of cfg s err s' c] write_inv_callback_closed [of cfg s err s' c]
    by (cases c) auto
next
  case (close s)
  then show ?case by (simp add: write_inv_close)
next
  case (registered s)
  then show ?case by (rule write_inv_registered)
qed

section \<open>The queue as a FIFO channel\<close>

datatype 'm channel_event = Post 'm | Complete

fun channel_run :: "('m \<Rightarrow> 's \<Rightarrow> 's) \<Rightarrow> ('s \<Rightarrow> 's) \<Rightarrow> 's \<Rightarrow> 'm channel_event list \<Rightarrow> 's" where
  "channel_run po co s [] = s"
| "channel_run po co s (Post m # es) = channel_run po co (po m s) es"
| "channel_run po co s (Complete # es) = channel_run po co (co s) es"

text \<open>Every post of the run meets a channel with room.\<close>

fun channel_fits :: "('s \<Rightarrow> bool) \<Rightarrow> ('m \<Rightarrow> 's \<Rightarrow> 's) \<Rightarrow> ('s \<Rightarrow> 's) \<Rightarrow> 's
    \<Rightarrow> 'm channel_event list \<Rightarrow> bool" where
  "channel_fits room po co s [] = True"
| "channel_fits room po co s (Post m # es) = (room s \<and> channel_fits room po co (po m s) es)"
| "channel_fits room po co s (Complete # es) = channel_fits room po co (co s) es"

fun posted :: "'m channel_event list \<Rightarrow> 'm list" where
  "posted [] = []"
| "posted (Post m # es) = m # posted es"
| "posted (Complete # es) = posted es"

text \<open>
  The contract of a FIFO channel over states that satisfy \<open>ok\<close>: posting into a channel with room
  appends, completing moves the oldest pending item to the sent ones.
\<close>

locale fifo_channel =
  fixes ok :: "'s \<Rightarrow> bool"
    and room :: "'s \<Rightarrow> bool"
    and enc :: "'m \<Rightarrow> 'f"
    and do_post :: "'m \<Rightarrow> 's \<Rightarrow> 's"
    and complete :: "'s \<Rightarrow> 's"
    and sent :: "'s \<Rightarrow> 'f list"
    and pending :: "'s \<Rightarrow> 'f list"
  assumes post_ok: "ok s \<Longrightarrow> room s \<Longrightarrow> ok (do_post m s)"
    and post_sent: "ok s \<Longrightarrow> room s \<Longrightarrow> sent (do_post m s) = sent s"
    and post_pending: "ok s \<Longrightarrow> room s \<Longrightarrow> pending (do_post m s) = pending s @ [enc m]"
    and complete_ok: "ok s \<Longrightarrow> ok (complete s)"
    and complete_moves: "ok s \<Longrightarrow> sent (complete s) @ pending (complete s) = sent s @ pending s"
    and complete_progress: "ok s \<Longrightarrow> pending s \<noteq> [] \<Longrightarrow>
      length (pending (complete s)) < length (pending s)"
begin

lemma run_fifo:
  "ok s \<Longrightarrow> channel_fits room do_post complete s es \<Longrightarrow>
     ok (channel_run do_post complete s es)
     \<and> sent (channel_run do_post complete s es) @ pending (channel_run do_post complete s es)
         = sent s @ pending s @ map enc (posted es)"
proof (induction es arbitrary: s)
  case Nil
  then show ?case by simp
next
  case (Cons e es)
  show ?case
  proof (cases e)
    case (Post m)
    with Cons show ?thesis by (simp add: post_ok post_sent post_pending)
  next
    case Complete
    with Cons.prems have "sent (channel_run do_post complete (complete s) es)
        @ pending (channel_run do_post complete (complete s) es)
      = (sent (complete s) @ pending (complete s)) @ map enc (posted es)"
      using Cons.IH [of "complete s"] by (simp add: complete_ok)
    with Complete Cons show ?thesis by (simp add: complete_ok complete_moves)
  qed
qed

lemma drain:
  "ok s \<Longrightarrow> \<exists>n \<le> length (pending s). pending ((complete ^^ n) s) = []
     \<and> sent ((complete ^^ n) s) = sent s @ pending s"
proof (induction "length (pending s)" arbitrary: s rule: less_induct)
  case less
  show ?case
  proof (cases "pending s = []")
    case True
    then show ?thesis by (intro exI [of _ 0]) simp
  next
    case False
    with less.prems have lt: "length (pending (complete s)) < length (pending s)"
      by (rule complete_progress)
    from less.hyps [OF lt complete_ok [OF less.prems]] obtain n where
      n: "n \<le> length (pending (complete s))" "pending ((complete ^^ n) (complete s)) = []"
        "sent ((complete ^^ n) (complete s)) = sent (complete s) @ pending (complete s)"
      by blast
    then show ?thesis using lt complete_moves [OF less.prems]
      by (intro exI [of _ "Suc n"]) (simp add: funpow_Suc_right del: funpow.simps)
  qed
qed

end

text \<open>
  The write queue is such a channel while the session is open and the queue does not overflow:
  the frame in progress is the one of the front message.
\<close>

definition write_ok :: "session \<Rightarrow> bool" where
  "write_ok s \<longleftrightarrow> \<not> ub s \<and> sstate s \<noteq> Closed \<and> \<not> closed s \<and>
     sk_writes (sock s) =
       (case write_queue s of [] \<Rightarrow> [] | m # _ \<Rightarrow> [(generation s, frame_message m)])"

definition write_room :: "config \<Rightarrow> session \<Rightarrow> bool" where
  "write_room cfg s \<longleftrightarrow> length (write_queue s) < max_write_queue_size cfg"

definition write_complete :: "session \<Rightarrow> session" where
  "write_complete s = fst (write_callback False s)"

interpretation wq: fifo_channel write_ok "write_room cfg" frame_message "post_write_job cfg"
    write_complete "\<lambda>s. sk_sent (sock s)" "\<lambda>s. map frame_message (write_queue s)"
  for cfg :: config
  by unfold_locales
    (auto simp: write_ok_def write_room_def write_complete_def write_ops split: list.splits)

lemma write_ok_fresh: "fresh_session s \<Longrightarrow> write_ok s \<and> sk_sent (sock s) = [] \<and> write_queue s = []"
  by (auto simp: fresh_session_def write_ok_def session_ctor_def)

interpretation write_machine: inductive_invariant fresh_session "write_step cfg" "\<lambda>s.
    2 \<le> max_write_queue_size cfg \<longrightarrow> write_inv cfg s" for cfg :: config
  by unfold_locales (auto simp: fresh_session_def write_inv_ctor intro: write_step_inv)

section \<open>Properties\<close>

definition demo_session :: session where
  "demo_session = session_ctor
     \<lparr>sk_open = True, sk_peer = (''127.0.0.1'', 5000), sk_connected = True, sk_close_fails = False,
      sk_reads = 0, sk_writes = [], sk_sent = []\<rparr>
     0 0"

lemma demo_session_fresh: "fresh_session demo_session"
  unfolding fresh_session_def demo_session_def by blast

text \<open>
  C19. From a fresh session, whatever sequence of posts, completions, failures, closings and
  registrations happens, with a configured queue size of at least 2 at most one write is
  outstanding, one is outstanding only for a non-empty queue and always for a non-empty queue of
  an open session (no message is stranded), the queue never exceeds its configured size, and
  nothing is popped from an empty queue.
\<close>

theorem single_outstanding_write:
  assumes "2 \<le> max_write_queue_size cfg"
    and "reach fresh_session (write_step cfg) s"
  shows "length (sk_writes (sock s)) \<le> 1 \<and> \<not> ub s
    \<and> length (write_queue s) \<le> max_write_queue_size cfg
    \<and> (sk_writes (sock s) \<noteq> [] \<longrightarrow> write_queue s \<noteq> [])
    \<and> (\<not> closed s \<longrightarrow> write_queue s \<noteq> [] \<longrightarrow> sk_writes (sock s) \<noteq> [])"
  using write_machine.inv_reach [OF assms(2)] assms(1) by (simp add: write_inv_def)

theorem single_outstanding_write_witness:
  "length (sk_writes (sock (post_write_job config_json ''hi'' demo_session))) \<le> 1"
proof -
  have "reach fresh_session (write_step config_json) demo_session"
    by (rule reach_init) (rule demo_session_fresh)
  then have "reach fresh_session (write_step config_json) (post_write_job config_json ''hi'' demo_session)"
    by (rule reach_step) (rule write_step.post)
  from single_outstanding_write [OF _ this] show ?thesis by (simp add: config_json_limits)
qed

text \<open>
  C13. While no post meets a full queue, the peer receives exactly the frames of the posted
  messages, each once and in order: the frames sent so far followed by those still queued are
  the frames of all messages posted.
\<close>

theorem writes_are_fifo:
  assumes "fresh_session s"
    and "channel_fits (write_room cfg) (post_write_job cfg) write_complete s es"
    and "t = channel_run (post_write_job cfg) write_complete s es"
  shows "sk_sent (sock t) @ map frame_message (write_queue t) = map frame_message (posted es)"
  using wq.run_fifo [of s cfg es] write_ok_fresh [OF assms(1)] assms(2,3) by simp

theorem writes_are_fifo_witness:
  "sk_sent (sock (channel_run (post_write_job config_json) write_complete demo_session
       [Post ''a'', Post ''bc'', Complete])) = [frame_message ''a'']"
proof -
  let ?es = "[Post ''a'', Post ''bc'', Complete]"
  have "channel_fits (write_room config_json) (post_write_job config_json) write_complete
      demo_session ?es"
    by (simp add: write_room_def config_json_limits demo_session_def session_ctor_def write_ops)
  note writes_are_fifo [OF demo_session_fresh this refl]
  then show ?thesis
    by (simp add: demo_session_def session_ctor_def write_ops write_complete_def config_json_limits)
qed

text \<open>
  C23. When a message is posted into a full queue whose front message is being written, the front
  entry is dropped although its write goes on; when that write completes, the completion pops
  the second message, which was never handed to the socket. The comment announces that the
  oldest message is dropped; the message lost is the oldest one not yet sent.
\<close>

theorem overflow_loses_unsent_message:
  assumes "write_ok s" and "write_queue s = m0 # m1 # m2 # q"
    and "max_write_queue_size cfg = length (write_queue s)"
    and "\<not> write_queue_overflow_limit cfg \<le> overflow_count s + 1"
    and "t = write_complete (post_write_job cfg x s)"
  shows "sk_sent (sock t) = sk_sent (sock s) @ [frame_message m0]
    \<and> write_queue t = m2 # q @ [x]
    \<and> sk_writes (sock t) = [(generation s, frame_message m2)]"
  using assms by (simp add: write_ok_def write_complete_def write_ops)

definition small_config :: config where
  "small_config = [''max_write_queue_size'' \<mapsto> 3]"

theorem overflow_loses_unsent_message_witness:
  "write_queue (write_complete (post_write_job small_config ''d''
     (demo_session\<lparr>write_queue := [''a'', ''b'', ''c''], sock := (sock demo_session)
        \<lparr>sk_writes := [(0, frame_message ''a'')]\<rparr>\<rparr>))) = [''c'', ''d'']"
proof -
  let ?s = "demo_session\<lparr>write_queue := [''a'', ''b'', ''c''], sock := (sock demo_session)
        \<lparr>sk_writes := [(0, frame_message ''a'')]\<rparr>\<rparr>"
  have "write_ok ?s" "write_queue ?s = ''a'' # ''b'' # ''c'' # []"
    and "max_write_queue_size small_config = length (write_queue ?s)"
    and "\<not> write_queue_overflow_limit small_config \<le> overflow_count ?s + 1"
    by (simp_all add: write_ok_def demo_session_def session_ctor_def small_config_def
      max_write_queue_size_def write_queue_overflow_limit_def config_value_def size_cast_def word_le_nat_alt)
  from overflow_loses_unsent_message [OF this refl] show ?thesis by simp
qed

end
