(* ===== verification/Session_Manager.thy ===== *)
theory Session_Manager
  imports Session_Core
begin

text \<open>
  The session registry (\<open>SessionManager\<close>): sessions in hash buckets chosen by \<open>session_id %
  shard_count\<close>, one mutex per bucket, and the nickname index of weak pointers. Sessions are
  named by references; a weak pointer is a reference that locks while the session is alive.
  The theory proves that the buckets implement one map from session id to session, through the
  contract of a registry, and gives the laws of the nickname index. The operations that close
  sessions are in the theory World.
\<close>

section \<open>State\<close>

type_synonym sref = nat

text \<open>
  A bucket is a list of entries; the order in which \<open>std::unordered_map\<close> iterates is not
  specified, and nothing below depends on it.
\<close>

record session_manager =
  shard_count :: u64
  session_buckets :: "(cint \<times> sref) list list"
  nickname_index :: "string \<Rightarrow> sref option"

definition session_manager_ctor :: "u64 \<Rightarrow> session_manager" where
  "session_manager_ctor n =
     \<lparr>shard_count = n, session_buckets = replicate (unat n) [], nickname_index = Map.empty\<rparr>"

text \<open>
  \<open>session_id % shard_count_\<close>: the \<open>int\<close> is converted to \<open>size_t\<close>, the remainder back to \<open>int\<close>,
  and the \<open>int\<close> to an index.
\<close>

definition get_shard :: "session_manager \<Rightarrow> cint \<Rightarrow> cint" where
  "get_shard m sid = ucast (size_cast sid mod shard_count m)"

definition shard_index :: "cint \<Rightarrow> nat" where
  "shard_index i = unat (size_cast i)"

definition bucket :: "session_manager \<Rightarrow> cint \<Rightarrow> (cint \<times> sref) list" where
  "bucket m sid = session_buckets m ! shard_index (get_shard m sid)"

definition set_bucket :: "session_manager \<Rightarrow> cint \<Rightarrow> (cint \<times> sref) list \<Rightarrow> session_manager" where
  "set_bucket m sid b =
     m\<lparr>session_buckets := (session_buckets m)[shard_index (get_shard m sid) := b]\<rparr>"

section \<open>Operations on the buckets\<close>

text \<open>The locked part of \<open>add_session\<close>: the entry that was replaced, and the registry after it.\<close>

definition sm_add :: "cint \<Rightarrow> sref \<Rightarrow> session_manager \<Rightarrow> sref option \<times> session_manager" where
  "sm_add sid r m =
     (let b = bucket m sid; replaced = map_of b sid;
          b1 = (if replaced = None then b else AList.delete sid b) in
      (replaced, set_bucket m sid (AList.update sid r b1)))"

definition sm_remove :: "cint \<Rightarrow> session_manager \<Rightarrow> sref option \<times> session_manager" where
  "sm_remove sid m =
     (let b = bucket m sid in
      case map_of b sid of
        None \<Rightarrow> (None, m)
      | Some r \<Rightarrow> (Some r, set_bucket m sid (AList.delete sid b)))"

definition sm_find :: "cint \<Rightarrow> session_manager \<Rightarrow> sref option" where
  "sm_find sid m = map_of (bucket m sid) sid"

text \<open>The copy that \<open>for_each_session\<close> makes before it calls its argument.\<close>

definition sm_sessions :: "session_manager \<Rightarrow> sref list" where
  "sm_sessions m = concat (map (map snd) (session_buckets m))"

fun bucket_sizes :: "nat \<Rightarrow> (cint \<times> sref) list list \<Rightarrow> nat" where
  "bucket_sizes tot [] = tot"
| "bucket_sizes tot (b # bs) = bucket_sizes (tot + length b) bs"

definition session_count :: "session_manager \<Rightarrow> nat" where
  "session_count m = bucket_sizes 0 (session_buckets m)"

definition get_total_session_count :: "session_manager \<Rightarrow> nat" where
  "get_total_session_count m = bucket_sizes 0 (session_buckets m)"

section \<open>The shard of a session\<close>

definition shards_ok :: "session_manager \<Rightarrow> bool" where
  "shards_ok m \<longleftrightarrow> 0 < unat (shard_count m) \<and> unat (shard_count m) < 2 ^ 31
     \<and> length (session_buckets m) = unat (shard_count m)"

lemma shard_index_mod:
  assumes "0 < unat n" and "unat n < 2 ^ 31"
  shows "shard_index (ucast ((x :: u64) mod n)) = unat x mod unat n"
proof -
  have "unat (x mod n) < 2 ^ 31"
    using assms mod_less_divisor [OF assms(1), of "unat x"] by (simp add: unat_mod)
  then show ?thesis
    by (simp add: shard_index_def size_cast_def unat_ucast_small unat_scast_small unat_mod)
qed

lemma shard_in_range:
  "shards_ok m \<Longrightarrow> shard_index (get_shard m sid) < length (session_buckets m)"
  by (simp add: shards_ok_def get_shard_def shard_index_mod)

lemma get_shard_buckets [simp]: "get_shard (m\<lparr>session_buckets := x\<rparr>) = get_shard m"
  by (rule ext) (simp add: get_shard_def)

lemma shards_ok_set_bucket [simp]: "shards_ok (set_bucket m i b) = shards_ok m"
  by (simp add: shards_ok_def set_bucket_def)

lemma set_bucket_nth:
  "shards_ok m \<Longrightarrow> k < length (session_buckets m) \<Longrightarrow>
     session_buckets (set_bucket m i b) ! k =
       (if k = shard_index (get_shard m i) then b else session_buckets m ! k)"
  by (simp add: set_bucket_def)

lemma get_shard_set_bucket [simp]: "get_shard (set_bucket m i b) j = get_shard m j"
  by (simp add: get_shard_def set_bucket_def)

lemma bucket_set_bucket:
  "shards_ok m \<Longrightarrow> bucket (set_bucket m i b) j =
     (if shard_index (get_shard m j) = shard_index (get_shard m i) then b else bucket m j)"
  using shard_in_range [of m i] by (simp add: bucket_def set_bucket_def get_shard_def)

section \<open>The buckets implement one map\<close>

text \<open>
  Every entry is in the bucket of its key, and no bucket has a key twice.
\<close>

definition sm_inv :: "session_manager \<Rightarrow> bool" where
  "sm_inv m \<longleftrightarrow> shards_ok m \<and>
     (\<forall>k < length (session_buckets m).
        distinct (map fst (session_buckets m ! k)) \<and>
        (\<forall>(i, r) \<in> set (session_buckets m ! k). shard_index (get_shard m i) = k))"

definition sm_entries :: "session_manager \<Rightarrow> (cint \<times> sref) list" where
  "sm_entries m = concat (session_buckets m)"

lemma sm_inv_bucket: "sm_inv m \<Longrightarrow> distinct (map fst (bucket m i))"
  using shard_in_range by (auto simp: sm_inv_def bucket_def)

lemma set_bucket_inv:
  assumes "sm_inv m" and "distinct (map fst b)"
    and "\<forall>(j, r) \<in> set b. shard_index (get_shard m j) = shard_index (get_shard m i)"
  shows "sm_inv (set_bucket m i b)"
proof -
  have "length (session_buckets (set_bucket m i b)) = length (session_buckets m)"
    by (simp add: set_bucket_def)
  with assms show ?thesis
    unfolding sm_inv_def by (simp add: set_bucket_nth)
qed

lemma bucket_entry_shard:
  "sm_inv m \<Longrightarrow> (j, r) \<in> set (bucket m i) \<Longrightarrow> shard_index (get_shard m j) = shard_index (get_shard m i)"
  using shard_in_range [of m i] by (fastforce simp: sm_inv_def bucket_def)

lemma sm_add_inv: "sm_inv m \<Longrightarrow> sm_inv (snd (sm_add i r m))"
  unfolding sm_add_def Let_def snd_conv
proof (rule set_bucket_inv)
  assume m: "sm_inv m"
  let ?b1 = "if map_of (bucket m i) i = None then bucket m i else AList.delete i (bucket m i)"
  show "distinct (map fst (AList.update i r ?b1))"
    using sm_inv_bucket [OF m, of i] by (auto intro!: distinct_update distinct_delete)
  have "i \<notin> fst ` set ?b1"
    by (auto simp: delete_notin_dom map_of_eq_None_iff)
  then have "set (AList.update i r ?b1) \<subseteq> insert (i, r) (set (bucket m i))"
    using set_delete_subset [of i "bucket m i"] by (auto simp: update_fresh)
  then show "\<forall>(j, q) \<in> set (AList.update i r ?b1). shard_index (get_shard m j) = shard_index (get_shard m i)"
    using bucket_entry_shard [OF m] by auto
qed

lemma sm_remove_inv: "sm_inv m \<Longrightarrow> sm_inv (snd (sm_remove i m))"
proof -
  assume m: "sm_inv m"
  have "sm_inv (set_bucket m i (AList.delete i (bucket m i)))"
    using m sm_inv_bucket [OF m, of i] bucket_entry_shard [OF m] set_delete_subset [of i "bucket m i"]
    by (intro set_bucket_inv) (auto intro!: distinct_delete)
  with m show ?thesis by (simp add: sm_remove_def Let_def split: option.split)
qed

lemma sm_find_set_bucket:
  assumes "sm_inv m" and "map_of b j = (if j = i then x else map_of (bucket m i) j)"
  shows "sm_find j (set_bucket m i b) = (if j = i then x else sm_find j m)"
proof -
  have "map_of (bucket m i) j = map_of (bucket m j) j"
    if "shard_index (get_shard m j) = shard_index (get_shard m i)"
    using that by (simp add: bucket_def)
  then show ?thesis
    using assms by (auto simp: sm_find_def bucket_set_bucket sm_inv_def)
qed

text \<open>
  What a registry promises the server: adding and removing act on one key, they return what was
  there, and its entries are the graph of its lookup.
\<close>

locale session_registry =
  fixes inv :: "'m \<Rightarrow> bool"
    and find :: "'k \<Rightarrow> 'm \<Rightarrow> 'r option"
    and add :: "'k \<Rightarrow> 'r \<Rightarrow> 'm \<Rightarrow> 'r option \<times> 'm"
    and remove :: "'k \<Rightarrow> 'm \<Rightarrow> 'r option \<times> 'm"
    and entries :: "'m \<Rightarrow> ('k \<times> 'r) list"
  assumes add_inv: "inv m \<Longrightarrow> inv (snd (add k r m))"
    and add_old: "inv m \<Longrightarrow> fst (add k r m) = find k m"
    and add_find: "inv m \<Longrightarrow> find j (snd (add k r m)) = (if j = k then Some r else find j m)"
    and remove_inv: "inv m \<Longrightarrow> inv (snd (remove k m))"
    and remove_old: "inv m \<Longrightarrow> fst (remove k m) = find k m"
    and remove_find: "inv m \<Longrightarrow> find j (snd (remove k m)) = (if j = k then None else find j m)"
    and entries_find: "inv m \<Longrightarrow> (k, r) \<in> set (entries m) \<longleftrightarrow> find k m = Some r"
    and entries_distinct: "inv m \<Longrightarrow> distinct (map fst (entries m))"
begin

lemma entries_keys: "inv m \<Longrightarrow> set (map fst (entries m)) = {k. find k m \<noteq> None}"
  using entries_find by (force simp: image_iff)

lemma length_entries: "inv m \<Longrightarrow> length (entries m) = card {k. find k m \<noteq> None}"
  by (metis entries_keys entries_distinct distinct_card length_map)

lemma finite_keys: "inv m \<Longrightarrow> finite {k. find k m \<noteq> None}"
  by (metis entries_keys finite_set)

lemma add_count:
  assumes "inv m"
  shows "length (entries (snd (add k r m))) =
    length (entries m) + (if find k m = None then 1 else 0)"
proof -
  have "{j. find j (snd (add k r m)) \<noteq> None} = insert k {j. find j m \<noteq> None}"
    using assms by (auto simp: add_find)
  then show ?thesis
    using assms finite_keys [OF assms] add_inv [OF assms]
    by (simp add: length_entries card_insert_if)
qed

lemma remove_count:
  assumes "inv m"
  shows "length (entries m) = length (entries (snd (remove k m))) + (if find k m = None then 0 else 1)"
proof -
  have "{j. find j (snd (remove k m)) \<noteq> None} = {j. find j m \<noteq> None} - {k}"
    using assms by (auto simp: remove_find)
  then show ?thesis
    using assms finite_keys [OF assms] remove_inv [OF assms]
      card_Suc_Diff1 [of "{j. find j m \<noteq> None}" k]
    by (auto simp: length_entries)
qed

lemma remove_added: "inv m \<Longrightarrow> find k m = None \<Longrightarrow> find j (snd (remove k (snd (add k r m)))) = find j m"
  by (simp add: remove_find add_inv add_find)

end

lemma distinct_concat_keys:
  "\<forall>k < length bs. distinct (map fst (bs ! k)) \<and> (\<forall>(i, r) \<in> set (bs ! k). h i = n + k) \<Longrightarrow>
     distinct (map fst (concat bs))"
proof (induction bs arbitrary: n)
  case Nil
  then show ?case by simp
next
  case (Cons b bs)
  have b: "distinct (map fst b)" "\<forall>(i, r) \<in> set b. h i = n"
    using Cons.prems by force+
  have rest: "\<forall>k < length bs. distinct (map fst (bs ! k)) \<and> (\<forall>(i, r) \<in> set (bs ! k). h i = Suc n + k)"
    using Cons.prems [rule_format, of "Suc _"] by simp
  have "h i \<noteq> n" if e: "(i, r) \<in> set (concat bs)" for i r
  proof -
    from e obtain k where "k < length bs" "(i, r) \<in> set (bs ! k)"
      by (metis in_set_conv_nth set_concat UN_E)
    then have "h i = Suc n + k" using rest by fastforce
    then show ?thesis by simp
  qed
  then have "fst ` set b \<inter> fst ` set (concat bs) = {}"
    using b(2) by force
  with b(1) Cons.IH [OF rest] show ?case by simp
qed

lemma sm_entries_find:
  assumes "sm_inv m"
  shows "(i, r) \<in> set (sm_entries m) \<longleftrightarrow> sm_find i m = Some r"
proof
  assume "(i, r) \<in> set (sm_entries m)"
  then obtain b where "b \<in> set (session_buckets m)" "(i, r) \<in> set b"
    by (auto simp: sm_entries_def)
  then obtain k where k: "k < length (session_buckets m)" "(i, r) \<in> set (session_buckets m ! k)"
    by (metis in_set_conv_nth)
  then have "k = shard_index (get_shard m i)" "distinct (map fst (session_buckets m ! k))"
    using assms by (fastforce simp: sm_inv_def)+
  with k show "sm_find i m = Some r" by (simp add: sm_find_def bucket_def)
next
  assume "sm_find i m = Some r"
  then have "(i, r) \<in> set (bucket m i)" by (simp add: sm_find_def map_of_SomeD)
  then show "(i, r) \<in> set (sm_entries m)"
    using shard_in_range [of m i] assms
    by (auto simp: sm_entries_def bucket_def sm_inv_def)
qed

interpretation reg: session_registry sm_inv sm_find sm_add sm_remove sm_entries
proof unfold_locales
  fix m i j r
  assume m: "sm_inv m"
  show "sm_inv (snd (sm_add i r m))" using m by (rule sm_add_inv)
  show "fst (sm_add i r m) = sm_find i m" by (simp add: sm_add_def sm_find_def Let_def)
  show "sm_find j (snd (sm_add i r m)) = (if j = i then Some r else sm_find j m)"
    unfolding sm_add_def Let_def snd_conv
    by (rule sm_find_set_bucket [OF m]) (auto simp: update_conv' delete_conv')
  show "sm_inv (snd (sm_remove i m))" using m by (rule sm_remove_inv)
  show "fst (sm_remove i m) = sm_find i m"
    by (simp add: sm_remove_def sm_find_def Let_def split: option.split)
  have "sm_find j (set_bucket m i (AList.delete i (bucket m i))) = (if j = i then None else sm_find j m)"
    by (rule sm_find_set_bucket [OF m]) (auto simp: delete_conv')
  then show "sm_find j (snd (sm_remove i m)) = (if j = i then None else sm_find j m)"
    by (auto simp: sm_remove_def Let_def sm_find_def split: option.split)
  show "(i, r) \<in> set (sm_entries m) \<longleftrightarrow> sm_find i m = Some r" using m by (rule sm_entries_find)
  show "distinct (map fst (sm_entries m))"
    using m distinct_concat_keys [of "session_buckets m" "\<lambda>i. shard_index (get_shard m i)" 0]
    by (simp add: sm_inv_def sm_entries_def)
qed

section \<open>The nickname index\<close>

text \<open>\<open>std::weak_ptr::lock\<close>: a session that has been destroyed gives no pointer.\<close>

definition weak_lock :: "sref set \<Rightarrow> sref \<Rightarrow> sref option" where
  "weak_lock alive r = (if r \<in> alive then Some r else None)"

definition find_session_by_nickname :: "sref set \<Rightarrow> string \<Rightarrow> session_manager \<Rightarrow> sref option" where
  "find_session_by_nickname alive n m =
     (case nickname_index m n of None \<Rightarrow> None | Some r \<Rightarrow> weak_lock alive r)"

text \<open>
  \<open>nickname_mutex_\<close> is a \<open>std::mutex\<close>: \<open>held\<close> says that the calling thread already owns it, and
  locking it again is undefined (in practice it blocks for ever), the value \<open>None\<close>.
\<close>

definition cleanup_expired_nicknames :: "bool \<Rightarrow> sref set \<Rightarrow> session_manager \<Rightarrow> session_manager option" where
  "cleanup_expired_nicknames held alive m =
     (if held then None
      else Some (m\<lparr>nickname_index := (\<lambda>n. case nickname_index m n of
               None \<Rightarrow> None | Some r \<Rightarrow> weak_lock alive r)\<rparr>))"

definition unregister_nickname :: "bool \<Rightarrow> sref set \<Rightarrow> string \<Rightarrow> sref \<Rightarrow> session_manager
    \<Rightarrow> session_manager option" where
  "unregister_nickname held alive n r m =
     (if held then None
      else let m1 = (case nickname_index m n of
               None \<Rightarrow> m
             | Some q \<Rightarrow> if weak_lock alive q = Some r
                         then m\<lparr>nickname_index := (nickname_index m)(n := None)\<rparr> else m)
           in cleanup_expired_nicknames True alive m1)"

section \<open>Properties\<close>

datatype registry_op = AddOp cint sref | RemoveOp cint

fun run_registry :: "registry_op list \<Rightarrow> session_manager \<Rightarrow> session_manager" where
  "run_registry [] m = m"
| "run_registry (AddOp i r # ops) m = run_registry ops (snd (sm_add i r m))"
| "run_registry (RemoveOp i # ops) m = run_registry ops (snd (sm_remove i m))"

fun run_map :: "registry_op list \<Rightarrow> (cint \<Rightarrow> sref option) \<Rightarrow> (cint \<Rightarrow> sref option)" where
  "run_map [] f = f"
| "run_map (AddOp i r # ops) f = run_map ops (f(i \<mapsto> r))"
| "run_map (RemoveOp i # ops) f = run_map ops (f(i := None))"

lemma bucket_sizes_sum: "bucket_sizes n bs = n + length (concat bs)"
  by (induction bs arbitrary: n) simp_all

lemma session_count_entries: "session_count m = length (sm_entries m)"
  by (simp add: session_count_def bucket_sizes_sum sm_entries_def)

lemma sm_sessions_entries: "sm_sessions m = map snd (sm_entries m)"
  by (simp add: sm_entries_def sm_sessions_def map_concat)

lemma sm_sessions_find: "sm_inv m \<Longrightarrow> r \<in> set (sm_sessions m) \<longleftrightarrow> (\<exists>i. sm_find i m = Some r)"
  using reg.entries_find by (force simp: sm_sessions_entries)

lemma sm_inv_ctor: "0 < unat n \<Longrightarrow> unat n < 2 ^ 31 \<Longrightarrow> sm_inv (session_manager_ctor n)"
  by (simp add: sm_inv_def shards_ok_def session_manager_ctor_def)

lemma sm_find_ctor: "0 < unat n \<Longrightarrow> unat n < 2 ^ 31 \<Longrightarrow> sm_find i (session_manager_ctor n) = None"
  using shard_in_range [of "session_manager_ctor n" i] sm_inv_ctor [of n]
  by (simp add: sm_find_def bucket_def sm_inv_def) (simp add: session_manager_ctor_def)

lemma run_registry_map:
  "sm_inv m \<Longrightarrow> (\<forall>i. sm_find i m = f i) \<Longrightarrow>
     sm_inv (run_registry ops m) \<and> (\<forall>i. sm_find i (run_registry ops m) = run_map ops f i)"
proof (induction ops m arbitrary: f rule: run_registry.induct)
  case (2 i r ops m)
  then show ?case using "2.IH" [of "f(i \<mapsto> r)"] by (simp add: reg.add_inv reg.add_find)
next
  case (3 i ops m)
  then show ?case using "3.IH" [of "f(i := None)"] by (simp add: reg.remove_inv reg.remove_find)
qed simp

text \<open>
  C14. The sharded registry behaves as one map: whatever sequence of additions and removals is
  run on a fresh manager with 1 to 2^31-1 shards, looking a session up in its shard gives what a
  single map would give, the sum of the bucket sizes is the number of keys of that map, and a
  visit of all shards meets each registered id exactly once.
\<close>

theorem shards_refine_one_map:
  assumes "0 < unat n" and "unat n < 2 ^ 31"
    and "m = run_registry ops (session_manager_ctor n)"
  shows "sm_find i m = run_map ops Map.empty i
    \<and> session_count m = card (dom (run_map ops Map.empty))
    \<and> distinct (map fst (sm_entries m)) \<and> map snd (sm_entries m) = sm_sessions m"
proof (intro conjI)
  have run: "sm_inv m" "\<And>i. sm_find i m = run_map ops Map.empty i"
    using run_registry_map [OF sm_inv_ctor [OF assms(1,2)], of Map.empty ops]
      sm_find_ctor [OF assms(1,2)] assms(3) by auto
  show "sm_find i m = run_map ops Map.empty i" by (rule run(2))
  show "session_count m = card (dom (run_map ops Map.empty))"
    using reg.length_entries [OF run(1)] run(2) by (simp add: session_count_entries dom_def)
  show "distinct (map fst (sm_entries m))" by (rule reg.entries_distinct [OF run(1)])
  show "map snd (sm_entries m) = sm_sessions m"
    by (simp add: sm_sessions_entries)
qed

theorem shards_refine_one_map_witness:
  "sm_find (- 3) (run_registry [AddOp (- 3) 7, AddOp 5 8, RemoveOp 5] (session_manager_ctor 4)) = Some 7"
  using shards_refine_one_map [of 4 _ "[AddOp (- 3) 7, AddOp 5 8, RemoveOp 5]" "- 3", OF _ _ refl]
  by simp

text \<open>
  The shard computed for a session id indexes an existing bucket for every \<open>int\<close>, negative
  ones included (the id counter wraps), although the remainder goes through \<open>size_t\<close> and back to
  \<open>int\<close>.
\<close>

theorem shard_index_in_range:
  assumes "0 < unat n" and "unat n < 2 ^ 31"
  shows "shard_index (get_shard (session_manager_ctor n) sid)
    < length (session_buckets (session_manager_ctor n))"
  using shard_in_range sm_inv_ctor [OF assms] by (simp add: sm_inv_def)

theorem shard_index_in_range_witness:
  "shard_index (get_shard (session_manager_ctor 32) (- 1)) < 32"
  using shard_index_in_range [of 32 "- 1"] by (simp add: session_manager_ctor_def)

text \<open>
  \<open>unregister_nickname\<close> never returns: it calls \<open>cleanup_expired_nicknames\<close> while it owns the
  non-recursive mutex that the callee locks again. Called on its own, the cleanup keeps exactly
  the entries whose session is alive.
\<close>

theorem unregister_nickname_deadlocks:
  "unregister_nickname held alive n r m = None
   \<and> (\<exists>m'. cleanup_expired_nicknames False alive m = Some m'
        \<and> (\<forall>k q. nickname_index m' k = Some q \<longleftrightarrow> nickname_index m k = Some q \<and> q \<in> alive))"
  by (auto simp: unregister_nickname_def cleanup_expired_nicknames_def weak_lock_def Let_def
      split: option.splits)

end
