(* ===== verification/World.thy ===== *)
theory World
  imports Session_Write Session_Manager
begin

text \<open>
  The objects of the running server and the operations that reach from a session to the
  registry and back: \<open>close_session\<close>, \<open>post_write\<close>, \<open>post_task\<close>, \<open>do_read\<close>, the login timer,
  \<open>add_session\<close>, \<open>register_nickname\<close> and the sweep of idle sessions. Sessions live in a heap
  indexed by references; a session is \<open>alive\<close> while some \<open>shared_ptr\<close> owns it.
\<close>

section \<open>State\<close>

text \<open>
  \<open>strand_idle r\<close>: a closure dispatched to the strand of \<open>r\<close> from another thread may run at
  once (the scheduler decides; the steps of the system change it at will). \<open>handler_alive\<close>: the
  session's weak pointer to the data handler can be locked. \<open>sql_log\<close>: the statements that the
  insert handler has logged.
\<close>

record world =
  heap :: "sref \<Rightarrow> session"
  alive :: "sref set"
  manager :: session_manager
  app_config :: config
  handler_alive :: bool
  strand_idle :: "sref \<Rightarrow> bool"
  sql_log :: "string list"

definition upd :: "sref \<Rightarrow> (session \<Rightarrow> session) \<Rightarrow> world \<Rightarrow> world" where
  "upd r f w = w\<lparr>heap := (heap w)(r := f (heap w r))\<rparr>"

lemma upd_simps [simp]:
  "heap (upd r f w) = (heap w)(r := f (heap w r))"
  "alive (upd r f w) = alive w"
  "manager (upd r f w) = manager w"
  "app_config (upd r f w) = app_config w"
  "handler_alive (upd r f w) = handler_alive w"
  "strand_idle (upd r f w) = strand_idle w"
  "sql_log (upd r f w) = sql_log w"
  by (simp_all add: upd_def)

section \<open>Closing a session\<close>

definition remove_session :: "cint \<Rightarrow> world \<Rightarrow> world" where
  "remove_session sid w = w\<lparr>manager := snd (sm_remove sid (manager w))\<rparr>"

definition close_session :: "sref \<Rightarrow> world \<Rightarrow> world" where
  "close_session r w =
     (if closed (heap w r) then w
      else let w1 = upd r close_fields w in
        if handler_alive w1 then remove_session (session_id (heap w1 r)) w1 else w1)"

section \<open>Dispatching to a strand\<close>

text \<open>
  \<open>boost::asio::dispatch\<close> runs the closure at once inside the strand, or when the strand is
  idle and has nothing queued; otherwise it is queued. \<open>inside\<close>: the caller runs in the strand.
\<close>

definition runs_now :: "bool \<Rightarrow> sref \<Rightarrow> world \<Rightarrow> bool" where
  "runs_now inside r w \<longleftrightarrow> inside \<or> (strand_idle w r \<and> strand_jobs (heap w r) = [])"

definition queue_job :: "strand_job \<Rightarrow> session \<Rightarrow> session" where
  "queue_job j s = s\<lparr>strand_jobs := strand_jobs s @ [j]\<rparr>"

definition post_write :: "bool \<Rightarrow> sref \<Rightarrow> bytes \<Rightarrow> world \<Rightarrow> world" where
  "post_write inside r m w =
     (if runs_now inside r w then upd r (post_write_job (app_config w) m) w
      else upd r (queue_job (JobWrite m)) w)"

lemma queue_job_simps [simp]:
  "session_id (queue_job j s) = session_id s" "nickname (queue_job j s) = nickname s"
  "nickname_registered (queue_job j s) = nickname_registered s" "closed (queue_job j s) = closed s"
  "sstate (queue_job j s) = sstate s" "msg_buf (queue_job j s) = msg_buf s"
  "sock (queue_job j s) = sock s" "last_alive_time (queue_job j s) = last_alive_time s"
  "strand_jobs (queue_job j s) = strand_jobs s @ [j]" "message (queue_job j s) = message s"
  "write_queue (queue_job j s) = write_queue s" "generation (queue_job j s) = generation s"
  "task_queue (queue_job j s) = task_queue s" "task_running (queue_job j s) = task_running s"
  "read_pending (queue_job j s) = read_pending s"
  by (simp_all add: queue_job_def)

section \<open>Tasks and reads\<close>

text \<open>The task starts an \<open>async_read_some\<close>.\<close>

definition start_read :: "session \<Rightarrow> session" where
  "start_read s = s\<lparr>sock := (sock s)\<lparr>sk_reads := sk_reads (sock s) + 1\<rparr>\<rparr>"

primrec run_task :: "task \<Rightarrow> session \<Rightarrow> session" where
  "run_task ReadSome s = start_read s"

definition run_next_task :: "session \<Rightarrow> session" where
  "run_next_task s =
     (case task_queue s of
        [] \<Rightarrow> s\<lparr>task_running := False\<rparr>
      | t # q \<Rightarrow> run_task t (s\<lparr>task_queue := q\<rparr>))"

definition push_task :: "task \<Rightarrow> session \<Rightarrow> session" where
  "push_task t s =
     (let s1 = s\<lparr>task_queue := task_queue s @ [t]\<rparr> in
      if \<not> task_running s1 then run_next_task (s1\<lparr>task_running := True\<rparr>) else s1)"

definition post_task_job :: "task \<Rightarrow> sref \<Rightarrow> world \<Rightarrow> world" where
  "post_task_job t r w =
     (if max_task_queue (app_config w) \<le> length (task_queue (heap w r)) then close_session r w
      else upd r (push_task t) w)"

definition post_task :: "bool \<Rightarrow> task \<Rightarrow> sref \<Rightarrow> world \<Rightarrow> world" where
  "post_task inside t r w =
     (if runs_now inside r w then post_task_job t r w else upd r (queue_job (JobTask t)) w)"

definition do_read :: "bool \<Rightarrow> sref \<Rightarrow> world \<Rightarrow> world" where
  "do_read inside r w =
     (if sstate (heap w r) = Closed then w
      else case try_acquire_read (heap w r) of
        (False, s) \<Rightarrow> upd r (\<lambda>_. s) w
      | (True, s) \<Rightarrow> post_task inside ReadSome r (upd r (\<lambda>_. s) w))"

text \<open>A queued closure runs when the strand gets to it.\<close>

definition run_strand_job :: "sref \<Rightarrow> world \<Rightarrow> world" where
  "run_strand_job r w =
     (case strand_jobs (heap w r) of
        [] \<Rightarrow> w
      | JobTask t # js \<Rightarrow> post_task_job t r (upd r (\<lambda>s. s\<lparr>strand_jobs := js\<rparr>) w)
      | JobWrite m # js \<Rightarrow>
          upd r (\<lambda>s. post_write_job (app_config w) m (s\<lparr>strand_jobs := js\<rparr>)) w)"

text \<open>The completion of a write, with the \<open>close_session\<close> of its error branch.\<close>

definition on_write :: "bool \<Rightarrow> sref \<Rightarrow> world \<Rightarrow> world" where
  "on_write err r w =
     (case write_callback err (heap w r) of (s, c) \<Rightarrow>
        let w1 = upd r (\<lambda>_. s) w in if c then close_session r w1 else w1)"

section \<open>The login timer\<close>

definition login_timeout_notice :: bytes where
  \<open>login_timeout_notice = ''{"type":"notice","msg":"Your connection has been terminated due to a login timeout."}'' @ [CHR 0x0A]\<close>

definition start_login_timeout :: "config \<Rightarrow> int \<Rightarrow> session \<Rightarrow> session" where
  "start_login_timeout cfg now s =
     (if sstate s = Closed then s
      else s\<lparr>login_timer := Some (now + login_timeout_seconds cfg * 1000000000)\<rparr>)"

text \<open>The timer runs on the strand; \<open>err\<close> when it was cancelled.\<close>

definition on_login_timer :: "bool \<Rightarrow> sref \<Rightarrow> world \<Rightarrow> world" where
  "on_login_timer err r w =
     (let w1 = upd r (\<lambda>s. s\<lparr>login_timer := None\<rparr>) w in
      if \<not> err \<and> \<not> nickname_registered (heap w1 r)
      then close_session r (post_write True r login_timeout_notice w1) else w1)"

section \<open>Registry operations that close sessions\<close>

definition add_session :: "sref \<Rightarrow> world \<Rightarrow> world" where
  "add_session r w =
     (case sm_add (session_id (heap w r)) r (manager w) of
        (replaced, m) \<Rightarrow>
          let w1 = w\<lparr>manager := m\<rparr> in
          case replaced of
            None \<Rightarrow> w1
          | Some q \<Rightarrow> if \<not> closed (heap w1 q) then close_session q w1 else w1)"

text \<open>The notice to the previous owner of a nickname; the message is UTF-8 text.\<close>

definition kicked_notice :: bytes where
  \<open>kicked_notice = ''{"type":"error","msg":"'' @
     map char_of [235, 139, 164, 235, 165, 184, 32, 234, 179, 179, 236, 151, 144, 236, 132, 156, 32, 235,
      161, 156, 234, 183, 184, 236, 157, 184, 235, 144, 152, 236, 150, 180, 32, 234, 184, 176,
      236, 161, 180, 32, 236, 151, 176, 234, 178, 176, 236, 157, 180, 32, 236, 162, 133, 235,
      163, 140, 235, 144, 169, 235, 139, 136, 235, 139, 164, 46 :: nat]
     @ ''"}'' @ [CHR 0x0A]\<close>

definition register_nickname :: "string \<Rightarrow> sref \<Rightarrow> world \<Rightarrow> world" where
  "register_nickname n r w =
     (let w1 = (case nickname_index (manager w) n of
            None \<Rightarrow> w
          | Some q \<Rightarrow> (case weak_lock (alive w) q of
                None \<Rightarrow> w
              | Some prev \<Rightarrow>
                  if prev \<noteq> r then close_session prev (post_write False prev kicked_notice w) else w))
      in w1\<lparr>manager := (manager w1)\<lparr>nickname_index := (nickname_index (manager w1))(n \<mapsto> r)\<rparr>\<rparr>)"

definition for_each_session :: "(sref \<Rightarrow> world \<Rightarrow> world) \<Rightarrow> world \<Rightarrow> world" where
  "for_each_session fn w = fold fn (sm_sessions (manager w)) w"

definition close_all :: "sref list \<Rightarrow> world \<Rightarrow> world" where
  "close_all rs w = fold close_session rs w"

definition cleanup_inactive_sessions :: "int \<Rightarrow> int \<Rightarrow> world \<Rightarrow> world" where
  "cleanup_inactive_sessions now max_idle_time w =
     close_all (filter (\<lambda>r. max_idle_time < now - last_alive_time (heap w r))
                  (sm_sessions (manager w))) w"

section \<open>What each operation leaves alone\<close>

lemma remove_session_keeps [simp]:
  "heap (remove_session i w) = heap w" "alive (remove_session i w) = alive w"
  "app_config (remove_session i w) = app_config w"
  "handler_alive (remove_session i w) = handler_alive w"
  "strand_idle (remove_session i w) = strand_idle w" "sql_log (remove_session i w) = sql_log w"
  "manager (remove_session i w) = snd (sm_remove i (manager w))"
  by (simp_all add: remove_session_def)

lemma sm_ops_keep [simp]:
  "nickname_index (snd (sm_remove i m)) = nickname_index m"
  "nickname_index (snd (sm_add i r m)) = nickname_index m"
  by (auto simp: sm_remove_def sm_add_def set_bucket_def Let_def split: option.split)

lemma close_session_keeps [simp]:
  "alive (close_session r w) = alive w" "app_config (close_session r w) = app_config w"
  "handler_alive (close_session r w) = handler_alive w"
  "strand_idle (close_session r w) = strand_idle w" "sql_log (close_session r w) = sql_log w"
  "nickname_index (manager (close_session r w)) = nickname_index (manager w)"
  by (simp_all add: close_session_def Let_def)

lemma close_session_heap:
  "heap (close_session r w) =
     (if closed (heap w r) then heap w else (heap w)(r := close_fields (heap w r)))"
  by (simp add: close_session_def Let_def)

lemma close_fields_simps [simp]:
  "closed (close_fields s) = True" "sstate (close_fields s) = Closed"
  "sock (close_fields s) = (sock s)\<lparr>sk_open := False\<rparr>"
  "session_id (close_fields s) = session_id s" "nickname (close_fields s) = nickname s"
  "msg_buf (close_fields s) = msg_buf s" "read_pending (close_fields s) = read_pending s"
  "task_queue (close_fields s) = task_queue s" "task_running (close_fields s) = task_running s"
  "nickname_registered (close_fields s) = nickname_registered s"
  "last_alive_time (close_fields s) = last_alive_time s"
  "strand_jobs (close_fields s) = strand_jobs s" "write_queue (close_fields s) = write_queue s"
  "generation (close_fields s) = generation s" "ub (close_fields s) = ub s"
  by (simp_all add: close_fields_def)

lemma closed_close_session [simp]: "closed (heap (close_session r w) r)"
  by (simp add: close_session_heap)

lemma close_session_other: "q \<noteq> r \<Longrightarrow> heap (close_session r w) q = heap w q"
  by (simp add: close_session_heap)

lemma closed_mono: "closed (heap w q) \<Longrightarrow> closed (heap (close_session r w) q)"
  by (auto simp: close_session_heap)

lemma close_session_manager:
  "manager (close_session r w) =
     (if closed (heap w r) \<or> \<not> handler_alive w then manager w
      else snd (sm_remove (session_id (heap w r)) (manager w)))"
  by (simp add: close_session_def Let_def)

lemma close_session_sm_inv: "sm_inv (manager w) \<Longrightarrow> sm_inv (manager (close_session r w))"
  by (simp add: close_session_manager reg.remove_inv)

lemma close_session_find:
  "sm_inv (manager w) \<Longrightarrow> sm_find i (manager (close_session r w)) =
     (if \<not> closed (heap w r) \<and> handler_alive w \<and> i = session_id (heap w r) then None
      else sm_find i (manager w))"
  by (simp add: close_session_manager reg.remove_find)

lemma close_session_idem: "closed (heap w r) \<Longrightarrow> close_session r w = w"
  by (simp add: close_session_def)

lemma close_all_heap:
  "heap (close_all rs w) q =
     (if q \<in> set rs \<and> \<not> closed (heap w q) then close_fields (heap w q) else heap w q)"
  unfolding close_all_def
  by (induction rs arbitrary: w) (auto simp: close_session_heap)

lemma close_all_keeps [simp]:
  "alive (close_all rs w) = alive w" "app_config (close_all rs w) = app_config w"
  "handler_alive (close_all rs w) = handler_alive w" "sql_log (close_all rs w) = sql_log w"
  "strand_idle (close_all rs w) = strand_idle w"
  "nickname_index (manager (close_all rs w)) = nickname_index (manager w)"
  unfolding close_all_def by (induction rs arbitrary: w) simp_all

lemma post_write_keeps [simp]:
  "alive (post_write b r m w) = alive w" "app_config (post_write b r m w) = app_config w"
  "handler_alive (post_write b r m w) = handler_alive w" "manager (post_write b r m w) = manager w"
  "strand_idle (post_write b r m w) = strand_idle w" "sql_log (post_write b r m w) = sql_log w"
  by (simp_all add: post_write_def)

lemma post_write_job_keeps [simp]:
  "session_id (post_write_job cfg m s) = session_id s" "nickname (post_write_job cfg m s) = nickname s"
  "nickname_registered (post_write_job cfg m s) = nickname_registered s"
  "sstate (post_write_job cfg m s) = sstate s" "msg_buf (post_write_job cfg m s) = msg_buf s"
  "read_pending (post_write_job cfg m s) = read_pending s"
  "task_queue (post_write_job cfg m s) = task_queue s"
  "task_running (post_write_job cfg m s) = task_running s"
  "strand_jobs (post_write_job cfg m s) = strand_jobs s"
  "last_alive_time (post_write_job cfg m s) = last_alive_time s"
  "sk_open (sock (post_write_job cfg m s)) = sk_open (sock s)"
  "sk_reads (sock (post_write_job cfg m s)) = sk_reads (sock s)"
  "sk_peer (sock (post_write_job cfg m s)) = sk_peer (sock s)"
  "generation (post_write_job cfg m s) = generation s"
  by (simp_all add: write_ops split: list.split)

lemma post_write_job_closed: "closed s \<Longrightarrow> closed (post_write_job cfg m s)"
  by (simp add: write_ops split: list.split)

lemma post_write_other: "q \<noteq> r \<Longrightarrow> heap (post_write b r m w) q = heap w q"
  by (simp add: post_write_def)

lemma post_write_self [simp]:
  "session_id (heap (post_write b r m w) r) = session_id (heap w r)"
  "nickname (heap (post_write b r m w) r) = nickname (heap w r)"
  "nickname_registered (heap (post_write b r m w) r) = nickname_registered (heap w r)"
  "sstate (heap (post_write b r m w) r) = sstate (heap w r)"
  "msg_buf (heap (post_write b r m w) r) = msg_buf (heap w r)"
  "last_alive_time (heap (post_write b r m w) r) = last_alive_time (heap w r)"
  by (simp_all add: post_write_def queue_job_def)

lemma post_write_closed: "closed (heap w q) \<Longrightarrow> closed (heap (post_write b r m w) q)"
  by (auto simp: post_write_def queue_job_def post_write_job_closed)

lemma add_session_alt:
  assumes "sm_inv (manager w)"
  shows "add_session r w =
    (let w1 = w\<lparr>manager := snd (sm_add (session_id (heap w r)) r (manager w))\<rparr> in
     case sm_find (session_id (heap w r)) (manager w) of
       None \<Rightarrow> w1 | Some q \<Rightarrow> if \<not> closed (heap w q) then close_session q w1 else w1)"
  by (simp add: add_session_def Let_def case_prod_beta reg.add_old [OF assms] split: option.split)

lemma add_session_cases:
  assumes "sm_inv (manager w)"
  obtains "add_session r w = w\<lparr>manager := snd (sm_add (session_id (heap w r)) r (manager w))\<rparr>"
  | q where "sm_find (session_id (heap w r)) (manager w) = Some q"
      "add_session r w = close_session q (w\<lparr>manager := snd (sm_add (session_id (heap w r)) r (manager w))\<rparr>)"
proof (cases "sm_find (session_id (heap w r)) (manager w)")
  case None
  then show ?thesis using that(1) assms by (simp add: add_session_alt)
next
  case (Some q)
  then show ?thesis using that assms by (cases "closed (heap w q)") (simp_all add: add_session_alt)
qed

lemma add_session_sm_inv: "sm_inv (manager w) \<Longrightarrow> sm_inv (manager (add_session r w))"
  by (rule add_session_cases [of w r]) (simp_all add: reg.add_inv close_session_sm_inv)

section \<open>What every operation keeps of a session\<close>

text \<open>
  \<open>closed_ok\<close>: a session in state Closed or with a closed socket has the flag set.
  \<open>lifecycle\<close>: the states a session takes, what they say about its nickname, and the members that
  nothing moves because the calls that would are commented out.
  \<open>read_view\<close> is the read side of a session: the reads outstanding, the guard against a second
  one, the task queue and the tasks that wait for the strand. \<open>session_kept\<close> is what no operation
  of the program takes away from a session.
\<close>

definition job_is_task :: "strand_job \<Rightarrow> bool" where
  "job_is_task j = (case j of JobTask _ \<Rightarrow> True | JobWrite _ \<Rightarrow> False)"

lemma job_is_task_simps [simp]: "job_is_task (JobTask t)" "\<not> job_is_task (JobWrite m)"
  by (simp_all add: job_is_task_def)

definition read_view :: "session \<Rightarrow> nat \<times> bool \<times> task list \<times> bool \<times> strand_job list" where
  "read_view s = (sk_reads (sock s), read_pending s, task_queue s, task_running s,
     filter job_is_task (strand_jobs s))"

definition closed_ok :: "session \<Rightarrow> bool" where
  "closed_ok s \<longleftrightarrow> (sstate s = Closed \<or> \<not> sk_open (sock s) \<longrightarrow> closed s)"

definition lifecycle :: "session \<Rightarrow> bool" where
  "lifecycle s \<longleftrightarrow> sstate s \<in> {Handshaking, Ready, Closed}
     \<and> (sstate s = Handshaking \<longrightarrow> \<not> nickname_registered s)
     \<and> (sstate s = Ready \<longrightarrow> nickname_registered s)
     \<and> login_timer s = None \<and> generation s = 0 \<and> (\<forall>w \<in> set (sk_writes (sock s)). fst w = 0)"

definition session_kept :: "config \<Rightarrow> session \<Rightarrow> session \<Rightarrow> bool" where
  "session_kept cfg s s' \<longleftrightarrow>
     last_alive_time s' = last_alive_time s \<and> session_id s' = session_id s
     \<and> sk_peer (sock s') = sk_peer (sock s) \<and> (closed s \<longrightarrow> closed s')
     \<and> (closed_ok s \<longrightarrow> closed_ok s') \<and> (lifecycle s \<longrightarrow> lifecycle s')
     \<and> (2 \<le> max_write_queue_size cfg \<longrightarrow> write_inv cfg s \<longrightarrow> write_inv cfg s')"

lemma session_kept_refl [simp]: "session_kept cfg s s"
  by (simp add: session_kept_def)

lemma session_kept_trans: "session_kept cfg s t \<Longrightarrow> session_kept cfg t u \<Longrightarrow> session_kept cfg s u"
  by (auto simp: session_kept_def)

lemma kept_view:
  assumes "(last_alive_time s', session_id s', sk_peer (sock s'), sk_open (sock s'), closed s', sstate s',
      sk_writes (sock s'), write_queue s', generation s', ub s', nickname_registered s', login_timer s')
    = (last_alive_time s, session_id s, sk_peer (sock s), sk_open (sock s), closed s, sstate s,
      sk_writes (sock s), write_queue s, generation s, ub s, nickname_registered s, login_timer s)"
  shows "session_kept cfg s s'"
  using assms by (simp add: session_kept_def write_inv_def closed_ok_def lifecycle_def)

lemma lifecycle_post: "lifecycle s \<Longrightarrow> lifecycle (post_write_job cfg m s)"
  by (auto simp: lifecycle_def write_ops split: list.splits)

lemma lifecycle_queue_job [simp]: "lifecycle (queue_job j s) = lifecycle s"
  by (simp add: lifecycle_def queue_job_def)

lemma kept_close [simp]: "session_kept cfg s (close_fields s)"
  by (simp add: session_kept_def write_inv_close closed_ok_def lifecycle_def) (simp add: close_fields_def)

lemma kept_post [simp]: "session_kept cfg s (post_write_job cfg m s)"
  by (auto simp: session_kept_def write_inv_post post_write_job_closed lifecycle_post closed_ok_def)

lemma write_inv_queue_job [simp]: "write_inv cfg (queue_job j s) = write_inv cfg s"
  by (simp add: write_inv_def queue_job_def)

lemma kept_queue_job [simp]: "session_kept cfg s (queue_job j s)"
  by (simp add: session_kept_def closed_ok_def)

lemma read_view_simps [simp]:
  "read_view (close_fields s) = read_view s"
  "read_view (post_write_job cfg m s) = read_view s"
  "read_view (queue_job (JobWrite m) s) = read_view s"
  "read_view (on_nickname_registered s) = read_view s"
  "read_view (s\<lparr>nickname := n\<rparr>) = read_view s" "read_view (s\<lparr>message := n\<rparr>) = read_view s"
  "read_view (s\<lparr>msg_buf := mb\<rparr>) = read_view s"
  by (simp_all add: read_view_def queue_job_def on_nickname_registered_def)

text \<open>
  The registry loses an id only when an open session with that id is closed; the one closed is
  \<open>r\<close> or some other live session.
\<close>

definition registry_kept :: "sref \<Rightarrow> world \<Rightarrow> world \<Rightarrow> bool" where
  "registry_kept r w w' \<longleftrightarrow> (\<forall>i. sm_find i (manager w') = sm_find i (manager w)
     \<or> sm_find i (manager w') = None
       \<and> (\<exists>q. (q = r \<or> q \<in> alive w) \<and> session_id (heap w q) = i
             \<and> \<not> closed (heap w q) \<and> closed (heap w' q)))"

lemma registry_kept_refl [simp]: "registry_kept r w w"
  by (simp add: registry_kept_def)

lemma registry_kept_close:
  "q = r \<or> q \<in> alive w \<Longrightarrow> sm_inv (manager w) \<Longrightarrow> registry_kept r w (close_session q w)"
  by (auto simp: registry_kept_def close_session_find intro!: exI [of _ q])

lemma registry_kept_trans:
  assumes "registry_kept r w w'" and "registry_kept r w' w''" and "alive w' = alive w"
    and "\<And>q. session_id (heap w' q) = session_id (heap w q)"
    and "\<And>q. closed (heap w q) \<Longrightarrow> closed (heap w' q)"
    and "\<And>q. closed (heap w' q) \<Longrightarrow> closed (heap w'' q)"
  shows "registry_kept r w w''"
  using assms unfolding registry_kept_def by metis

section \<open>Properties of closing\<close>

text \<open>
  Closing an open session marks it closed, moves it to state Closed, closes its socket and
  takes its id out of the registry, whatever else is registered stays and no other session
  changes; closing it again does nothing.
\<close>

theorem close_session_complete:
  assumes "sm_inv (manager w)" and "handler_alive w" and "\<not> closed (heap w r)"
    and "w' = close_session r w"
  shows "closed (heap w' r) \<and> sstate (heap w' r) = Closed \<and> \<not> sk_open (sock (heap w' r))
    \<and> (\<forall>i. sm_find i (manager w') =
          (if i = session_id (heap w r) then None else sm_find i (manager w)))
    \<and> (\<forall>q. q \<noteq> r \<longrightarrow> heap w' q = heap w q)
    \<and> close_session r w' = w'"
  using assms by (simp add: close_session_heap close_session_find close_session_idem)

definition demo_world :: world where
  "demo_world = \<lparr>heap = (\<lambda>r. demo_session\<lparr>session_id := word_of_nat r\<rparr>), alive = {},
     manager = session_manager_ctor 4, app_config = config_json, handler_alive = True,
     strand_idle = (\<lambda>_. False), sql_log = []\<rparr>"

lemma demo_world_simps [simp]:
  "heap demo_world r = demo_session\<lparr>session_id := word_of_nat r\<rparr>" "alive demo_world = {}"
  "manager demo_world = session_manager_ctor 4" "app_config demo_world = config_json"
  "handler_alive demo_world" "sql_log demo_world = []" "strand_idle demo_world = (\<lambda>_. False)"
  by (simp_all add: demo_world_def)

lemma demo_session_simps [simp]:
  "closed demo_session = False" "sstate demo_session = Handshaking" "write_queue demo_session = []"
  "nickname_registered demo_session = False" "nickname demo_session = []" "session_id demo_session = 0"
  "strand_jobs demo_session = []" "sk_open (sock demo_session)" "msg_buf demo_session = empty_msgbuf"
  "sk_writes (sock demo_session) = []" "overflow_count demo_session = 0"
  "sk_reads (sock demo_session) = 0" "task_queue demo_session = []" "read_pending demo_session = False"
  "task_running demo_session = False" "last_alive_time demo_session = 0"
  "generation demo_session = 0" "sk_sent (sock demo_session) = []"
  by (simp_all add: demo_session_def session_ctor_def)

lemma demo_manager [simp]: "sm_inv (session_manager_ctor 4)"
  by (rule sm_inv_ctor) simp_all

theorem close_session_complete_witness:
  "closed (heap (close_session 2 (add_session 2 demo_world)) 2)
   \<and> sm_find 2 (manager (close_session 2 (add_session 2 demo_world))) = None"
proof -
  have f: "fst (sm_add 2 2 (session_manager_ctor 4)) = None"
    by (simp add: reg.add_old sm_find_ctor)
  then have a: "add_session 2 demo_world = demo_world\<lparr>manager := snd (sm_add 2 2 (session_manager_ctor 4))\<rparr>"
    by (auto simp: add_session_def split: prod.split)
  show ?thesis
    using close_session_complete [of "add_session 2 demo_world" 2, OF _ _ _ refl]
    by (simp add: a reg.add_inv reg.add_find)
qed

text \<open>
  C34. When a full write queue overflows for the configured number of times in a row, the code
  sets the closed flag and nothing else: the socket stays open, the state does not become
  Closed, the session stays registered, and from then on no call of \<open>close_session\<close> has any
  effect on it. The log line announces that the session ends.
\<close>

theorem overflow_limit_leaves_zombie:
  assumes "max_write_queue_size (app_config w) \<le> length (write_queue (heap w r))"
    and "write_queue_overflow_limit (app_config w) \<le> overflow_count (heap w r) + 1"
    and "write_queue (heap w r) \<noteq> []"
    and "sm_find (session_id (heap w r)) (manager w) = Some r"
    and "w' = post_write True r m w"
  shows "closed (heap w' r) \<and> sk_open (sock (heap w' r)) = sk_open (sock (heap w r))
    \<and> sstate (heap w' r) = sstate (heap w r)
    \<and> sm_find (session_id (heap w' r)) (manager w') = Some r
    \<and> close_session r w' = w'"
proof -
  have "closed (heap w' r)"
    using assms by (auto simp: post_write_def runs_now_def write_ops split: list.splits)
  then show ?thesis
    using assms by (simp add: close_session_idem post_write_def runs_now_def)
qed

definition zombie_world :: world where
  "zombie_world = upd 2 (\<lambda>s. s\<lparr>write_queue := [''a'', ''b'', ''c''], overflow_count := 9\<rparr>)
     (demo_world\<lparr>manager := snd (sm_add 2 2 (session_manager_ctor 4)), app_config := small_config\<rparr>)"

theorem overflow_limit_leaves_zombie_witness:
  "closed (heap (post_write True 2 ''d'' zombie_world) 2)
   \<and> sk_open (sock (heap (post_write True 2 ''d'' zombie_world) 2))"
  using overflow_limit_leaves_zombie [of zombie_world 2, OF _ _ _ _ refl, of "''d''"]
  by (simp add: zombie_world_def small_config_def max_write_queue_size_def
      write_queue_overflow_limit_def config_value_def size_cast_def reg.add_find)

text \<open>
  Registering a session under an id that an open session still holds closes the old session,
  and that close removes the id from the registry: the new session is not registered afterwards.
\<close>

theorem replacement_is_unregistered:
  assumes "sm_inv (manager w)" and "handler_alive w"
    and "sm_find (session_id (heap w r)) (manager w) = Some q" and "q \<noteq> r"
    and "session_id (heap w q) = session_id (heap w r)" and "\<not> closed (heap w q)"
  shows "closed (heap (add_session r w) q)
    \<and> sm_find (session_id (heap w r)) (manager (add_session r w)) = None"
proof -
  obtain m where a: "sm_add (session_id (heap w r)) r (manager w) = (Some q, m)"
    using assms(3) reg.add_old [OF assms(1), of "session_id (heap w r)" r]
    by (cases "sm_add (session_id (heap w r)) r (manager w)") simp
  then have "sm_inv m" using reg.add_inv [OF assms(1), of "session_id (heap w r)" r] by simp
  with a assms show ?thesis
    by (simp add: add_session_def close_session_find)
qed

theorem replacement_is_unregistered_witness:
  "sm_find 2 (manager (add_session 6
     (upd 6 (\<lambda>s. s\<lparr>session_id := 2\<rparr>) (demo_world\<lparr>manager := snd (sm_add 2 2 (session_manager_ctor 4))\<rparr>)))) = None"
  using replacement_is_unregistered [of
      "upd 6 (\<lambda>s. s\<lparr>session_id := 2\<rparr>) (demo_world\<lparr>manager := snd (sm_add 2 2 (session_manager_ctor 4))\<rparr>)" 6 2]
  by (simp add: reg.add_inv reg.add_find)

section \<open>Taking over a nickname\<close>

lemma register_nickname_keeps [simp]:
  "alive (register_nickname n r w) = alive w" "app_config (register_nickname n r w) = app_config w"
  "handler_alive (register_nickname n r w) = handler_alive w"
  "strand_idle (register_nickname n r w) = strand_idle w"
  "sql_log (register_nickname n r w) = sql_log w"
  "nickname_index (manager (register_nickname n r w)) = (nickname_index (manager w))(n \<mapsto> r)"
  by (simp_all add: register_nickname_def Let_def split: option.split)

lemma register_nickname_self [simp]: "heap (register_nickname n r w) r = heap w r"
  by (auto simp: register_nickname_def Let_def close_session_other post_write_other split: option.split)

lemma sm_inv_index [simp]:
  "sm_inv (m\<lparr>nickname_index := x\<rparr>) = sm_inv m" "sm_find i (m\<lparr>nickname_index := x\<rparr>) = sm_find i m"
  "sm_sessions (m\<lparr>nickname_index := x\<rparr>) = sm_sessions m"
  by (simp_all add: sm_inv_def shards_ok_def get_shard_def sm_find_def bucket_def sm_sessions_def)

lemma register_nickname_closed: "closed (heap w q) \<Longrightarrow> closed (heap (register_nickname n r w) q)"
  by (auto simp: register_nickname_def Let_def closed_mono post_write_closed split: option.split)

lemma register_nickname_other [simp]:
  "nickname (heap (register_nickname n r w) q) = nickname (heap w q)"
  "nickname_registered (heap (register_nickname n r w) q) = nickname_registered (heap w q)"
  "session_id (heap (register_nickname n r w) q) = session_id (heap w q)"
  "msg_buf (heap (register_nickname n r w) q) = msg_buf (heap w q)"
  "last_alive_time (heap (register_nickname n r w) q) = last_alive_time (heap w q)"
  by (auto simp: register_nickname_def Let_def close_session_heap post_write_def queue_job_def
      split: option.split)

lemma register_nickname_prev:
  "nickname_index (manager w) n = Some q \<Longrightarrow> q \<in> alive w \<Longrightarrow> q \<noteq> r \<Longrightarrow>
     closed (heap (register_nickname n r w) q)"
  by (simp add: register_nickname_def weak_lock_def Let_def)

lemma register_nickname_sm_inv:
  "sm_inv (manager w) \<Longrightarrow> sm_inv (manager (register_nickname n r w))"
  by (auto simp: register_nickname_def Let_def close_session_sm_inv split: option.split)

text \<open>A session in state Closed starts no write.\<close>

lemma closed_state_no_write:
  "sstate s = Closed \<Longrightarrow> sk_writes (sock (post_write_job cfg m s)) = sk_writes (sock s)"
  by (simp add: write_ops split: list.split)

text \<open>
  When a nickname is taken over from an open session whose strand is busy, the notice that
  tells its client is queued behind the running handler, the session is closed at once, and the
  queued closure then starts no write: the notice is never sent.
\<close>

theorem takeover_notice_is_lost:
  assumes "nickname_index (manager w) n = Some q" and "q \<in> alive w" and "q \<noteq> r"
    and "\<not> closed (heap w q)" and "\<not> strand_idle w q" and "strand_jobs (heap w q) = []"
    and "w' = run_strand_job q (register_nickname n r w)"
  shows "closed (heap w' q) \<and> strand_jobs (heap w' q) = []
    \<and> sk_writes (sock (heap w' q)) = sk_writes (sock (heap w q))
    \<and> nickname_index (manager w') n = Some r"
proof -
  let ?s = "close_fields (queue_job (JobWrite kicked_notice) (heap w q))"
  have h: "heap (register_nickname n r w) q = ?s"
    using assms by (simp add: register_nickname_def weak_lock_def Let_def close_session_heap
        post_write_def runs_now_def)
  have j: "strand_jobs ?s = [JobWrite kicked_notice]"
    using assms(6) by (simp add: queue_job_def)
  have "heap w' q = post_write_job (app_config w) kicked_notice (?s\<lparr>strand_jobs := []\<rparr>)"
    and "manager w' = manager (register_nickname n r w)"
    using assms(7) h j by (simp_all add: run_strand_job_def)
  then show ?thesis
    by (simp add: closed_state_no_write post_write_job_closed queue_job_def)
qed

definition takeover_world :: world where
  "takeover_world = demo_world\<lparr>alive := {1, 2},
     manager := (session_manager_ctor 4)\<lparr>nickname_index := [''bob'' \<mapsto> 1]\<rparr>\<rparr>"

theorem takeover_notice_is_lost_witness:
  "sk_writes (sock (heap (run_strand_job 1 (register_nickname ''bob'' 2 takeover_world)) 1)) = []"
  using takeover_notice_is_lost [of takeover_world "''bob''" 1 2, OF _ _ _ _ _ _ refl]
  by (simp add: takeover_world_def)

section \<open>The sweep of idle sessions\<close>

text \<open>
  C29. The sweep closes exactly the registered open sessions that have been silent for longer
  than the limit; every other session keeps its whole state.
\<close>

theorem idle_sweep_exact:
  assumes "w' = cleanup_inactive_sessions now limit w"
  shows "heap w' r =
     (if r \<in> set (sm_sessions (manager w)) \<and> limit < now - last_alive_time (heap w r)
         \<and> \<not> closed (heap w r)
      then close_fields (heap w r) else heap w r)"
  using assms by (auto simp: cleanup_inactive_sessions_def close_all_heap)

theorem idle_sweep_exact_witness:
  "closed (heap (cleanup_inactive_sessions 400 300
     (demo_world\<lparr>manager := snd (sm_add 2 2 (session_manager_ctor 4))\<rparr>)) 2)"
proof -
  let ?w = "demo_world\<lparr>manager := snd (sm_add 2 2 (session_manager_ctor 4))\<rparr>"
  have "2 \<in> set (sm_sessions (manager ?w))"
    by (auto simp: sm_sessions_find reg.add_inv reg.add_find)
  then show ?thesis using idle_sweep_exact [OF refl, of 400 300 ?w 2] by simp
qed

end
