(* ===== verification/Dispatcher.thy ===== *)
theory Dispatcher
  imports World
begin

text \<open>
  The message dispatcher (\<open>MessageDispatcher\<close>): the secret prefix, the login gate, the table of
  handlers, and the two handlers, login and insert. The JSON library is a parameter: a record of
  the calls the code makes, \<open>None\<close> where the library throws (its exceptions all derive from
  \<open>std::exception\<close>). A handler returns what it threw, if anything, and the world it leaves.
\<close>

section \<open>The JSON library\<close>

text \<open>
  \<open>value_string j k d\<close> and \<open>value_json j k d\<close> are \<open>j.value(k, d)\<close> for a string and a JSON
  default; \<open>items\<close> are the pairs that \<open>j.items()\<close> iterates over.
\<close>

record 'j json_lib =
  jparse :: "string \<Rightarrow> 'j option"
  value_string :: "'j \<Rightarrow> string \<Rightarrow> string \<Rightarrow> string option"
  value_json :: "'j \<Rightarrow> string \<Rightarrow> 'j \<Rightarrow> 'j option"
  empty_object :: 'j
  items :: "'j \<Rightarrow> (string \<times> 'j) list"
  is_string :: "'j \<Rightarrow> bool"
  get_string :: "'j \<Rightarrow> string"
  dump :: "'j \<Rightarrow> string option"

type_synonym result = "exn option \<times> world"
type_synonym 'j handler_fun = "sref \<Rightarrow> 'j \<Rightarrow> world \<Rightarrow> result"

abbreviation throw_std :: "world \<Rightarrow> result" where
  "throw_std w \<equiv> (Some StdException, w)"

abbreviation return :: "world \<Rightarrow> result" where
  "return w \<equiv> (None, w)"

section \<open>Replies\<close>

definition nl :: string where
  "nl = [CHR 0x0A]"

definition nickname_required :: bytes where
  \<open>nickname_required = ''{"type":"login_ack","result":"error","msg":"Nickname is required."}'' @ nl\<close>

definition nickname_in_use :: bytes where
  \<open>nickname_in_use = ''{"type":"login_ack","result":"error","msg":"Nickname already in use."}'' @ nl\<close>

definition login_ok :: bytes where
  \<open>login_ok = ''{"type":"login_ack","result":"ok"}'' @ nl\<close>

definition insert_ok :: bytes where
  \<open>insert_ok = ''{"type":"insert_ack","result":"ok"}'' @ nl\<close>

definition unknown_type :: bytes where
  \<open>unknown_type = ''{"type":"error","msg":"Unknown message type."}'' @ nl\<close>

section \<open>The login handler\<close>

text \<open>Setting the nickname, the registration callback and the entry in the index.\<close>

definition login_commit :: "string \<Rightarrow> sref \<Rightarrow> world \<Rightarrow> world" where
  "login_commit n r w =
     register_nickname n r (upd r on_nickname_registered (upd r (\<lambda>s. s\<lparr>nickname := n\<rparr>) w))"

definition login_handler :: "'j json_lib \<Rightarrow> 'j handler_fun" where
  "login_handler jl r msg w =
     (case value_string jl msg ''nickname'' [] of
        None \<Rightarrow> throw_std w
      | Some n \<Rightarrow>
          if n = [] then return (post_write True r nickname_required w)
          else if find_session_by_nickname (alive w) n (manager w) \<noteq> None
          then return (post_write True r nickname_in_use w)
          else return (post_write True r login_ok (login_commit n r w)))"

section \<open>The insert handler\<close>

fun insert_columns :: "bool \<Rightarrow> (string \<times> 'j) list \<Rightarrow> string" where
  "insert_columns first [] = []"
| "insert_columns first ((k, v) # kvs) =
     (if \<not> first then '', '' else []) @ k @ insert_columns False kvs"

definition value_text :: "'j json_lib \<Rightarrow> 'j \<Rightarrow> string option" where
  "value_text jl v = (if is_string jl v then Some (get_string jl v) else dump jl v)"

definition quote :: string where
  "quote = [CHR 0x27]"

fun insert_values :: "'j json_lib \<Rightarrow> bool \<Rightarrow> (string \<times> 'j) list \<Rightarrow> string option" where
  "insert_values jl first [] = Some []"
| "insert_values jl first ((k, v) # kvs) =
     (case value_text jl v of
        None \<Rightarrow> None
      | Some x \<Rightarrow>
          (case insert_values jl False kvs of
             None \<Rightarrow> None
           | Some rest \<Rightarrow> Some ((if \<not> first then '', '' else []) @ quote @ x @ quote @ rest)))"

definition insert_query :: "'j json_lib \<Rightarrow> string \<Rightarrow> 'j \<Rightarrow> string option" where
  "insert_query jl table vals =
     (case insert_values jl True (items jl vals) of
        None \<Rightarrow> None
      | Some vs \<Rightarrow> Some (''INSERT INTO '' @ table @ '' ('' @ insert_columns True (items jl vals)
          @ '') VALUES ('' @ vs @ '');''))"

definition insert_handler :: "'j json_lib \<Rightarrow> 'j handler_fun" where
  "insert_handler jl r msg w =
     (case dump jl msg of
        None \<Rightarrow> throw_std w
      | Some _ \<Rightarrow>
     (case value_string jl msg ''table'' [] of
        None \<Rightarrow> throw_std w
      | Some table \<Rightarrow>
     (case value_json jl msg ''values'' (empty_object jl) of
        None \<Rightarrow> throw_std w
      | Some vals \<Rightarrow>
     (case dump jl vals of
        None \<Rightarrow> throw_std w
      | Some _ \<Rightarrow>
     (case insert_query jl table vals of
        None \<Rightarrow> throw_std w
      | Some query \<Rightarrow>
          return (post_write True r insert_ok (w\<lparr>sql_log := sql_log w @ [query]\<rparr>)))))))"

section \<open>The dispatcher\<close>

record 'j dispatcher =
  handlers :: "string \<Rightarrow> 'j handler_fun option"
  secret :: string

definition register_handler :: "string \<Rightarrow> 'j handler_fun \<Rightarrow> 'j dispatcher \<Rightarrow> 'j dispatcher" where
  "register_handler t h d = d\<lparr>handlers := (handlers d)(t \<mapsto> h)\<rparr>"

definition message_dispatcher_ctor :: "'j json_lib \<Rightarrow> string \<Rightarrow> 'j dispatcher" where
  "message_dispatcher_ctor jl sec =
     register_handler ''insert'' (insert_handler jl)
       (register_handler ''login'' (login_handler jl) \<lparr>handlers = Map.empty, secret = sec\<rparr>)"

definition has_secret_prefix :: "string \<Rightarrow> string \<Rightarrow> bool" where
  "has_secret_prefix sec packet \<longleftrightarrow> length sec \<le> length packet \<and> take (length sec) packet = sec"

text \<open>The final table lookup of \<open>dispatch\<close>.\<close>

definition dispatch_type :: "'j json_lib \<Rightarrow> 'j dispatcher \<Rightarrow> sref \<Rightarrow> 'j \<Rightarrow> world \<Rightarrow> result" where
  "dispatch_type jl d r msg w =
     (case value_string jl msg ''type'' [] of
        None \<Rightarrow> throw_std w
      | Some t \<Rightarrow>
          (case handlers d t of
             Some h \<Rightarrow> h r msg w
           | None \<Rightarrow> return (post_write True r unknown_type w)))"

definition dispatch :: "'j json_lib \<Rightarrow> 'j dispatcher \<Rightarrow> sref \<Rightarrow> string \<Rightarrow> world \<Rightarrow> result" where
  "dispatch jl d r packet w =
     (let has = has_secret_prefix (secret d) packet in
      if \<not> nickname_registered (heap w r)
      then if \<not> has then return (close_session r w)
        else (case jparse jl (drop (length (secret d)) packet) of
            None \<Rightarrow> return (close_session r w)
          | Some msg \<Rightarrow>
              (case value_string jl msg ''type'' [] of
                 None \<Rightarrow> throw_std w
               | Some t \<Rightarrow> if t \<noteq> ''login'' then return (close_session r w)
                           else dispatch_type jl d r msg w))
      else (case jparse jl (if has then drop (length (secret d)) packet else packet) of
            None \<Rightarrow> return (close_session r w)
          | Some msg \<Rightarrow>
              (case value_string jl msg ''type'' [] of
                 None \<Rightarrow> throw_std w
               | Some t \<Rightarrow> if t = ''keepalive'' \<and> \<not> has then return (close_session r w)
                           else dispatch_type jl d r msg w)))"

section \<open>The table of handlers\<close>

lemma ctor_handlers:
  "handlers (message_dispatcher_ctor jl sec) t =
     (if t = ''insert'' then Some (insert_handler jl)
      else if t = ''login'' then Some (login_handler jl) else None)"
  by (simp add: message_dispatcher_ctor_def register_handler_def)

lemma ctor_secret [simp]: "secret (message_dispatcher_ctor jl sec) = sec"
  by (simp add: message_dispatcher_ctor_def register_handler_def)

text \<open>
  A step from \<open>w\<close> to \<open>w'\<close> that a handler on \<open>r\<close> may make: what it never changes.
  \<open>reads_kept\<close>: it does not touch the read side of any session.
\<close>

definition handler_frame :: "sref \<Rightarrow> world \<Rightarrow> world \<Rightarrow> bool" where
  "handler_frame r w w' \<longleftrightarrow>
     alive w' = alive w \<and> app_config w' = app_config w \<and> handler_alive w' = handler_alive w
     \<and> strand_idle w' = strand_idle w
     \<and> (\<forall>q. session_kept (app_config w) (heap w q) (heap w' q))
     \<and> (\<forall>q. q \<noteq> r \<longrightarrow> nickname (heap w' q) = nickname (heap w q)
          \<and> nickname_registered (heap w' q) = nickname_registered (heap w q))
     \<and> (sm_inv (manager w) \<longrightarrow> sm_inv (manager w') \<and> registry_kept r w w')"

definition reads_kept :: "world \<Rightarrow> world \<Rightarrow> bool" where
  "reads_kept w w' \<longleftrightarrow> (\<forall>q. msg_buf (heap w' q) = msg_buf (heap w q)
     \<and> read_view (heap w' q) = read_view (heap w q))"

lemma frame_refl: "handler_frame r w w"
  by (simp add: handler_frame_def)

lemma frame_trans: "handler_frame r w w' \<Longrightarrow> handler_frame r w' w'' \<Longrightarrow> handler_frame r w w''"
  unfolding handler_frame_def
  by (auto intro: session_kept_trans elim!: registry_kept_trans) (simp_all add: session_kept_def)

lemma frame_close_other: "q = r \<or> q \<in> alive w \<Longrightarrow> handler_frame r w (close_session q w)"
  by (simp add: handler_frame_def close_session_heap close_session_sm_inv registry_kept_close)

lemma frame_close: "handler_frame r w (close_session r w)"
  by (rule frame_close_other) simp

lemma frame_upd:
  assumes "session_kept (app_config w) (heap w r) (f (heap w r))"
  shows "handler_frame r w (upd r f w)"
  using assms by (simp add: handler_frame_def registry_kept_def)

lemma frame_post: "handler_frame r w (post_write b q m w)"
  by (auto simp: handler_frame_def registry_kept_def post_write_def)

lemma frame_index: "handler_frame r w (w\<lparr>manager := (manager w)\<lparr>nickname_index := x\<rparr>\<rparr>)"
  by (simp add: handler_frame_def registry_kept_def)

lemma frame_register: "handler_frame r w (register_nickname n r w)"
  unfolding register_nickname_def Let_def
  by (rule frame_trans [OF _ frame_index])
    (auto simp: weak_lock_def intro!: frame_refl frame_trans [OF frame_post frame_close_other] split: option.split)

lemma kept_login: "session_kept cfg s (on_nickname_registered (s\<lparr>nickname := n\<rparr>))"
proof -
  have "write_inv cfg (s\<lparr>nickname := n\<rparr>) = write_inv cfg s" by (simp add: write_inv_def)
  then show ?thesis
    by (auto simp: session_kept_def write_inv_registered) (simp_all add: on_nickname_registered_def closed_ok_def lifecycle_def)
qed

lemma login_commit_upd: "login_commit n r w =
     register_nickname n r (upd r (\<lambda>s. on_nickname_registered (s\<lparr>nickname := n\<rparr>)) w)"
  by (simp add: login_commit_def upd_def)

lemma frame_login: "handler_frame r w (login_commit n r w)"
  unfolding login_commit_upd by (rule frame_trans [OF frame_upd frame_register]) (rule kept_login)

lemma reads_refl: "reads_kept w w"
  by (simp add: reads_kept_def)

lemma reads_trans: "reads_kept w w' \<Longrightarrow> reads_kept w' w'' \<Longrightarrow> reads_kept w w''"
  by (simp add: reads_kept_def)

lemma reads_close: "reads_kept w (close_session q w)"
  by (simp add: reads_kept_def close_session_heap)

lemma reads_post: "reads_kept w (post_write b q m w)"
  by (simp add: reads_kept_def post_write_def)

lemma reads_manager: "reads_kept w (w\<lparr>manager := x\<rparr>)"
  by (simp add: reads_kept_def)

lemma reads_log: "reads_kept w (w\<lparr>sql_log := x\<rparr>)"
  by (simp add: reads_kept_def)

lemma reads_login: "reads_kept w (login_commit n r w)"
proof -
  let ?w = "upd r (\<lambda>s. on_nickname_registered (s\<lparr>nickname := n\<rparr>)) w"
  have "reads_kept w ?w" by (simp add: reads_kept_def) (simp add: on_nickname_registered_def)
  moreover have "reads_kept ?w (register_nickname n r ?w)"
    unfolding register_nickname_def Let_def
    by (rule reads_trans [OF _ reads_manager])
      (auto intro: reads_refl reads_trans [OF reads_post reads_close] split: option.split)
  ultimately show ?thesis unfolding login_commit_upd by (rule reads_trans)
qed

lemma frame_log: "handler_frame r w (w\<lparr>sql_log := x\<rparr>)"
  by (simp add: handler_frame_def registry_kept_def)

text \<open>
  A property of steps that closing, posting, logging in and logging a statement have, and that
  composes, holds of every handler of the table and of \<open>dispatch\<close> itself.
\<close>

locale handler_steps =
  fixes P :: "sref \<Rightarrow> world \<Rightarrow> world \<Rightarrow> bool"
  assumes P_refl: "P r w w"
    and P_trans: "P r w w' \<Longrightarrow> P r w' w'' \<Longrightarrow> P r w w''"
    and P_close: "P r w (close_session r w)"
    and P_post: "P r w (post_write True r m w)"
    and P_login: "P r w (login_commit n r w)"
    and P_log: "P r w (w\<lparr>sql_log := x\<rparr>)"
begin

lemma P_login_handler: "P r w (snd (login_handler jl r msg w))"
  by (auto simp: login_handler_def P_refl P_post intro: P_trans [OF P_login P_post] split: option.split)

lemma P_insert_handler: "P r w (snd (insert_handler jl r msg w))"
  by (auto simp: insert_handler_def P_refl intro: P_trans [OF P_log P_post] split: option.split)

lemma P_dispatch_type:
  "P r w (snd (dispatch_type jl (message_dispatcher_ctor jl sec) r msg w))"
  by (simp add: dispatch_type_def ctor_handlers P_refl P_post P_login_handler P_insert_handler
      split: option.split)

lemma P_dispatch: "P r w (snd (dispatch jl (message_dispatcher_ctor jl sec) r p w))"
  by (simp add: dispatch_def Let_def P_refl P_close P_dispatch_type split: option.split)

end

interpretation frames: handler_steps handler_frame
  by unfold_locales (auto intro: frame_refl frame_close frame_post frame_login frame_log elim: frame_trans)

interpretation reads: handler_steps "\<lambda>r. reads_kept"
  by unfold_locales (auto intro: reads_refl reads_close reads_post reads_login reads_log elim: reads_trans)

lemmas frame_dispatch = frames.P_dispatch

section \<open>Who owns a nickname\<close>

text \<open>
  An open, logged-in session is the one its nickname leads to in the index.
\<close>

definition nick_inv :: "world \<Rightarrow> bool" where
  "nick_inv w \<longleftrightarrow> (\<forall>r \<in> alive w. nickname_registered (heap w r) \<and> \<not> closed (heap w r) \<longrightarrow>
     nickname_index (manager w) (nickname (heap w r)) = Some r)"

lemma nick_inv_mono:
  assumes "nick_inv w" and "alive w' \<subseteq> alive w"
    and "nickname_index (manager w') = nickname_index (manager w)"
    and "\<And>q. nickname (heap w' q) = nickname (heap w q)
          \<and> nickname_registered (heap w' q) = nickname_registered (heap w q)
          \<and> (closed (heap w q) \<longrightarrow> closed (heap w' q))"
  shows "nick_inv w'"
  using assms unfolding nick_inv_def by (metis subsetD)

lemma nick_inv_close: "nick_inv w \<Longrightarrow> nick_inv (close_session r w)"
  by (erule nick_inv_mono) (auto simp: close_session_heap)

lemma nick_inv_post: "nick_inv w \<Longrightarrow> nick_inv (post_write b r m w)"
  by (erule nick_inv_mono) (auto simp: post_write_job_closed post_write_def queue_job_def)

lemma nick_inv_login:
  assumes "nick_inv w"
  shows "nick_inv (login_commit n r w)"
  unfolding nick_inv_def
proof (intro ballI impI)
  fix q
  let ?w = "upd r on_nickname_registered (upd r (\<lambda>s. s\<lparr>nickname := n\<rparr>) w)"
  assume q: "q \<in> alive (login_commit n r w)"
    and h: "nickname_registered (heap (login_commit n r w) q) \<and> \<not> closed (heap (login_commit n r w) q)"
  show "nickname_index (manager (login_commit n r w)) (nickname (heap (login_commit n r w) q)) = Some q"
  proof (cases "q = r")
    case True
    then show ?thesis by (simp add: login_commit_def on_nickname_registered_def)
  next
    case False
    have "\<not> closed (heap ?w q)"
      using h register_nickname_closed [of ?w q n r] by (auto simp: login_commit_def)
    then have idx: "nickname_index (manager w) (nickname (heap w q)) = Some q"
      using assms q h False by (simp add: nick_inv_def login_commit_def)
    have "nickname (heap w q) \<noteq> n"
      using register_nickname_prev [of ?w n q r] idx q h False by (auto simp: login_commit_def)
    with idx False show ?thesis by (simp add: login_commit_def)
  qed
qed

lemma nick_inv_log: "nick_inv (w\<lparr>sql_log := x\<rparr>) = nick_inv w"
  by (simp add: nick_inv_def)

interpretation nicks: handler_steps "\<lambda>r w w'. nick_inv w \<longrightarrow> nick_inv w'"
  by unfold_locales (auto simp: nick_inv_close nick_inv_post nick_inv_login nick_inv_log)

lemma nick_inv_dispatch:
  "nick_inv w \<Longrightarrow> nick_inv (snd (dispatch jl (message_dispatcher_ctor jl sec) r p w))"
  using nicks.P_dispatch by blast

section \<open>A small library for the witnesses\<close>

text \<open>
  Objects are lists of string members; a JSON string is a single member with an empty name. Four
  texts parse.
\<close>

type_synonym tiny = "(string \<times> string) list"

definition tiny_is_string :: "tiny \<Rightarrow> bool" where
  "tiny_is_string j = (case j of [(k, v)] \<Rightarrow> k = [] | _ \<Rightarrow> False)"

definition tiny_parse :: "string \<Rightarrow> tiny option" where
  "tiny_parse = map_of
     [(''L'', [(''type'', ''login''), (''nickname'', ''bob'')]),
      (''I'', [(''type'', ''insert''), (''table'', ''t'')]),
      (''K'', [(''type'', ''keepalive''), (''at'', ''now'')]),
      (''S'', [([], ''text'')])]"

definition tiny :: "tiny json_lib" where
  "tiny = \<lparr>jparse = tiny_parse,
     value_string = (\<lambda>j k d. if tiny_is_string j then None
        else Some (case map_of j k of None \<Rightarrow> d | Some v \<Rightarrow> v)),
     value_json = (\<lambda>j k d. Some [(''name'', ''x''), (''age'', ''7'')]),
     empty_object = [],
     items = map (\<lambda>(k, v). (k, [([], v)])),
     is_string = tiny_is_string,
     get_string = (\<lambda>j. case j of [(k, v)] \<Rightarrow> v | _ \<Rightarrow> []),
     dump = (\<lambda>j. Some ''{}'')\<rparr>"

definition tiny_dispatcher :: "tiny dispatcher" where
  "tiny_dispatcher = message_dispatcher_ctor tiny ''s3''"

definition tiny_login :: tiny where
  "tiny_login = [(''type'', ''login''), (''nickname'', ''bob'')]"

lemma tiny_login_simps:
  "jparse tiny ''L'' = Some tiny_login"
  "value_string tiny tiny_login ''type'' [] = Some ''login''"
  "value_string tiny tiny_login ''nickname'' [] = Some ''bob''"
  by (simp_all add: tiny_def tiny_parse_def tiny_login_def tiny_is_string_def)

lemmas tiny_defs = tiny_def tiny_parse_def tiny_is_string_def tiny_dispatcher_def

section \<open>Properties\<close>

text \<open>
  C12. Nobody passes the login gate without the secret: while a session has not registered a
  nickname, no packet makes the server handle an insert, and the packet that registers the
  session is the secret followed by a JSON text of type login with a non-empty nickname that no
  live session holds.
\<close>

theorem login_gate:
  assumes "\<not> nickname_registered (heap w r)"
    and "w' = snd (dispatch jl (message_dispatcher_ctor jl sec) r packet w)"
  shows "sql_log w' = sql_log w
    \<and> (nickname_registered (heap w' r) \<longrightarrow>
        (\<exists>js msg n. packet = sec @ js \<and> jparse jl js = Some msg
           \<and> value_string jl msg ''type'' [] = Some ''login''
           \<and> value_string jl msg ''nickname'' [] = Some n \<and> n \<noteq> []
           \<and> find_session_by_nickname (alive w) n (manager w) = None))"
proof -
  let ?d = "message_dispatcher_ctor jl sec"
  consider "w' = close_session r w" | "w' = w"
    | js msg where "packet = sec @ js" "jparse jl js = Some msg"
        "value_string jl msg ''type'' [] = Some ''login''" "w' = snd (login_handler jl r msg w)"
    using assms
    by (auto simp: dispatch_def dispatch_type_def ctor_handlers has_secret_prefix_def Let_def
        split: if_splits option.splits) (metis append_take_drop_id)
  then show ?thesis
  proof cases
    case 1
    then show ?thesis using assms(1) by (simp add: close_session_heap)
  next
    case 2
    then show ?thesis using assms(1) by simp
  next
    case 3
    have "sql_log w' = sql_log w"
      using 3(4) by (simp add: login_handler_def login_commit_def split: option.split)
    moreover have "\<exists>n. value_string jl msg ''nickname'' [] = Some n \<and> n \<noteq> []
        \<and> find_session_by_nickname (alive w) n (manager w) = None"
      if "nickname_registered (heap w' r)"
      using that 3(4) assms(1) by (auto simp: login_handler_def split: option.splits if_splits)
    ultimately show ?thesis using 3(1-3) by blast
  qed
qed

theorem login_gate_witness:
  "sql_log (snd (dispatch tiny tiny_dispatcher 1 ''s3I'' demo_world)) = []
   \<and> nickname_registered (heap (snd (dispatch tiny tiny_dispatcher 1 ''s3L'' demo_world)) 1)"
proof
  show "sql_log (snd (dispatch tiny tiny_dispatcher 1 ''s3I'' demo_world)) = []"
    using login_gate [of demo_world 1 _ tiny "''s3''" "''s3I''", OF _ refl]
    by (simp add: tiny_dispatcher_def)
  show "nickname_registered (heap (snd (dispatch tiny tiny_dispatcher 1 ''s3L'' demo_world)) 1)"
    by (simp add: dispatch_def dispatch_type_def ctor_handlers has_secret_prefix_def login_handler_def
        login_commit_def on_nickname_registered_def find_session_by_nickname_def weak_lock_def tiny_defs
        session_manager_ctor_def Let_def)
qed

text \<open>
  After the login a keepalive needs the secret, or the session is closed; with the secret
  it is only answered as a message of unknown type, since no keepalive handler is registered.
\<close>

theorem keepalive_has_no_handler:
  assumes "nickname_registered (heap w r)"
    and "jparse jl js = Some msg" and "value_string jl msg ''type'' [] = Some ''keepalive''"
  shows "dispatch jl (message_dispatcher_ctor jl sec) r (sec @ js) w
      = return (post_write True r unknown_type w)
    \<and> (\<not> has_secret_prefix sec js \<longrightarrow>
        dispatch jl (message_dispatcher_ctor jl sec) r js w = return (close_session r w))"
  using assms
  by (simp add: dispatch_def dispatch_type_def ctor_handlers has_secret_prefix_def Let_def)

theorem keepalive_has_no_handler_witness:
  "dispatch tiny tiny_dispatcher 1 ''K'' (upd 1 on_nickname_registered demo_world)
     = return (close_session 1 (upd 1 on_nickname_registered demo_world))"
  using keepalive_has_no_handler [of "upd 1 on_nickname_registered demo_world" 1 tiny "''K''" _ "''s3''"]
  by (simp add: on_nickname_registered_def has_secret_prefix_def tiny_defs)

section \<open>Sequences of packets\<close>

text \<open>
  Packets handled for any sessions in any order, and logins whose duplicate check was made
  earlier, in another thread, so that only the registration is left to do.
\<close>

datatype dispatch_event = Packet sref string | LateCommit sref string

fun run_dispatch :: "'j json_lib \<Rightarrow> 'j dispatcher \<Rightarrow> dispatch_event list \<Rightarrow> world \<Rightarrow> world" where
  "run_dispatch jl d [] w = w"
| "run_dispatch jl d (Packet r p # es) w = run_dispatch jl d es (snd (dispatch jl d r p w))"
| "run_dispatch jl d (LateCommit r n # es) w = run_dispatch jl d es (login_commit n r w)"

lemma run_dispatch_nick_inv:
  "nick_inv w \<Longrightarrow> nick_inv (run_dispatch jl (message_dispatcher_ctor jl sec) es w)"
proof (induction es arbitrary: w)
  case Nil
  then show ?case by simp
next
  case (Cons e es)
  then show ?case by (cases e) (simp_all add: nick_inv_dispatch nick_inv_login)
qed

lemma run_dispatch_alive_time:
  "last_alive_time (heap (run_dispatch jl (message_dispatcher_ctor jl sec) es w) q)
     = last_alive_time (heap w q)"
proof (induction es arbitrary: w)
  case Nil
  then show ?case by simp
next
  case (Cons e es)
  show ?case
  proof (cases e)
    case (Packet r p)
    have "last_alive_time (heap (snd (dispatch jl (message_dispatcher_ctor jl sec) r p w)) q)
        = last_alive_time (heap w q)"
      using frame_dispatch [of r w jl sec p] by (simp add: handler_frame_def session_kept_def)
    with Cons Packet show ?thesis by simp
  next
    case (LateCommit r n)
    have "last_alive_time (heap (login_commit n r w) q) = last_alive_time (heap w q)"
      using frame_login [of r w n] by (simp add: handler_frame_def session_kept_def)
    with Cons LateCommit show ?thesis by simp
  qed
qed

text \<open>
  However logins from different sessions interleave, even when two of them pass the
  duplicate check before either registers, no two live open sessions are logged in under the
  same nickname.
\<close>

theorem nickname_unique:
  assumes "\<forall>r \<in> alive w0. \<not> nickname_registered (heap w0 r)"
    and "w = run_dispatch jl (message_dispatcher_ctor jl sec) es w0"
    and "a \<in> alive w" and "nickname_registered (heap w a)" and "\<not> closed (heap w a)"
    and "b \<in> alive w" and "nickname_registered (heap w b)" and "\<not> closed (heap w b)"
    and "nickname (heap w a) = nickname (heap w b)"
  shows "a = b"
proof -
  have "nick_inv w"
    using assms(1,2) run_dispatch_nick_inv [of w0 jl sec es] by (simp add: nick_inv_def)
  with assms(3-9) show ?thesis unfolding nick_inv_def by (metis option.inject)
qed

definition two_logins :: world where
  "two_logins = run_dispatch tiny tiny_dispatcher [LateCommit 1 ''bob'', LateCommit 2 ''bob'']
     (demo_world\<lparr>alive := {1, 2}\<rparr>)"

lemma two_logins_2: "nickname_registered (heap two_logins 2) \<and> \<not> closed (heap two_logins 2)
    \<and> nickname (heap two_logins 2) = ''bob'' \<and> alive two_logins = {1, 2}
    \<and> nickname_registered (heap two_logins 1) \<and> nickname (heap two_logins 1) = ''bob''"
  by (simp add: two_logins_def login_commit_def on_nickname_registered_def register_nickname_def
      session_manager_ctor_def weak_lock_def close_session_heap post_write_other Let_def)

theorem nickname_unique_witness: "closed (heap two_logins 1)"
proof -
  have "two_logins = run_dispatch tiny (message_dispatcher_ctor tiny ''s3'')
      [LateCommit 1 ''bob'', LateCommit 2 ''bob''] (demo_world\<lparr>alive := {1, 2}\<rparr>)"
    by (simp only: two_logins_def tiny_dispatcher_def)
  from nickname_unique [OF _ this, of 1 2] show ?thesis using two_logins_2 by auto
qed

text \<open>
  C36. No traffic keeps a session alive: whatever packets are handled, keepalives included, the
  sweep closes a registered open session once the limit has passed since its construction.
\<close>

theorem traffic_does_not_keep_alive:
  assumes "w = run_dispatch jl (message_dispatcher_ctor jl sec) es w0"
    and "limit < now - last_alive_time (heap w0 r)"
    and "r \<in> set (sm_sessions (manager w))"
  shows "closed (heap (cleanup_inactive_sessions now limit w) r)"
  using assms run_dispatch_alive_time [of jl sec es w0 r]
  by (auto simp: cleanup_inactive_sessions_def close_all_heap)

definition logged_in_world :: world where
  "logged_in_world = upd 2 on_nickname_registered
     (demo_world\<lparr>manager := snd (sm_add 2 2 (session_manager_ctor 4))\<rparr>)"

lemma logged_in_world_simps [simp]:
  "nickname_registered (heap logged_in_world 2)" "\<not> closed (heap logged_in_world 2)"
  "last_alive_time (heap logged_in_world 2) = 0" "sm_inv (manager logged_in_world)"
  "sm_find i (manager logged_in_world) = (if i = 2 then Some 2 else None)"
  "app_config logged_in_world = config_json" "handler_alive logged_in_world"
  by (simp_all add: logged_in_world_def on_nickname_registered_def reg.add_find reg.add_inv sm_find_ctor)

theorem traffic_does_not_keep_alive_witness:
  "closed (heap (cleanup_inactive_sessions 400 300 (run_dispatch tiny tiny_dispatcher
     [Packet 2 ''s3K''] logged_in_world)) 2)"
proof -
  let ?w = "run_dispatch tiny (message_dispatcher_ctor tiny ''s3'') [Packet 2 ''s3K''] logged_in_world"
  have "manager ?w = manager logged_in_world"
    by (simp add: dispatch_def dispatch_type_def ctor_handlers has_secret_prefix_def tiny_defs Let_def)
  then have "2 \<in> set (sm_sessions (manager ?w))"
    by (auto simp: sm_sessions_find)
  from traffic_does_not_keep_alive [OF refl _ this, of 300 400] show ?thesis
    unfolding tiny_dispatcher_def by simp
qed

text \<open>
  A packet whose JSON has no usable type member (a JSON value that is not an object, or a
  type that is not a string) makes the library throw out of \<open>dispatch\<close> before any check of the
  type: even before the login such a first packet does not close the session, it changes nothing.
\<close>

theorem untyped_first_packet_not_closed:
  assumes "jparse jl js = Some msg" and "value_string jl msg ''type'' [] = None"
  shows "dispatch jl (message_dispatcher_ctor jl sec) r (sec @ js) w = throw_std w"
  using assms by (simp add: dispatch_def has_secret_prefix_def dispatch_type_def Let_def)

theorem untyped_first_packet_not_closed_witness:
  "dispatch tiny tiny_dispatcher 1 ''s3S'' demo_world = throw_std demo_world"
  using untyped_first_packet_not_closed [of tiny "''S''" _ "''s3''" 1 demo_world]
  by (simp add: tiny_defs)

text \<open>
  A login packet dispatched to a session that is already closed is accepted: it moves the
  session from Closed back to Ready and gives it the nickname, with its socket still closed.
\<close>

lemma login_on_closed:
  assumes "closed (heap w r)" and "\<not> nickname_registered (heap w r)"
    and "jparse jl js = Some msg" and "value_string jl msg ''type'' [] = Some ''login''"
    and "value_string jl msg ''nickname'' [] = Some n" and "n \<noteq> []"
    and "find_session_by_nickname (alive w) n (manager w) = None"
    and "dispatch jl (message_dispatcher_ctor jl sec) r (sec @ js) w = (e, w')"
  shows "e = None" and "closed (heap w' r)" and "sstate (heap w' r) = Ready"
    and "sk_open (sock (heap w' r)) = sk_open (sock (heap w r))"
    and "nickname (heap w' r) = n" and "nickname_index (manager w') n = Some r"
proof -
  show "e = None" using assms(2-8)
    by (simp add: dispatch_def has_secret_prefix_def dispatch_type_def ctor_handlers login_handler_def Let_def)
  have w': "w' = post_write True r login_ok (login_commit n r w)"
    using assms(2-8)
    by (simp add: dispatch_def has_secret_prefix_def dispatch_type_def ctor_handlers login_handler_def Let_def)
  have c: "heap (login_commit n r w) r = on_nickname_registered ((heap w r)\<lparr>nickname := n\<rparr>)"
    "nickname_index (manager (login_commit n r w)) n = Some r"
    by (simp_all add: login_commit_def)
  then show "closed (heap w' r)" "sstate (heap w' r) = Ready" "nickname (heap w' r) = n"
    "nickname_index (manager w') n = Some r"
    using assms(1) by (simp_all add: w' on_nickname_registered_def post_write_closed)
  show "sk_open (sock (heap w' r)) = sk_open (sock (heap w r))"
    using c by (simp add: w' post_write_def runs_now_def on_nickname_registered_def)
qed

section \<open>The text of an insert\<close>

fun join :: "string \<Rightarrow> string list \<Rightarrow> string" where
  "join sep [] = []"
| "join sep [x] = x"
| "join sep (x # y # xs) = x @ sep @ join sep (y # xs)"

lemma join_Cons: "join sep (x # xs) = x @ concat (map (\<lambda>y. sep @ y) xs)"
  by (induction xs arbitrary: x) simp_all

lemma insert_columns_rest: "insert_columns False kvs = concat (map (\<lambda>k. '', '' @ k) (map fst kvs))"
  by (induction kvs) auto

lemma insert_columns_join: "insert_columns True kvs = join '', '' (map fst kvs)"
  by (cases kvs) (auto simp: insert_columns_rest join_Cons comp_def)

lemma insert_values_rest:
  "map (value_text jl) (map snd kvs) = map Some xs \<Longrightarrow>
     insert_values jl False kvs = Some (concat (map (\<lambda>x. '', '' @ quote @ x @ quote) xs))"
  by (induction kvs arbitrary: xs) (auto simp: Cons_eq_map_conv)

lemma insert_values_join:
  "map (value_text jl) (map snd kvs) = map Some xs \<Longrightarrow>
     insert_values jl True kvs = Some (join '', '' (map (\<lambda>x. quote @ x @ quote) xs))"
  by (cases kvs) (auto simp: insert_values_rest join_Cons Cons_eq_map_conv comp_def)

text \<open>
  C37. When every value has a text, the statement that the insert handler builds is the table
  name, the comma-separated column names in iteration order and, in the same order, the values
  between quotes.
\<close>

theorem insert_query_text:
  assumes "map (value_text jl) (map snd (items jl vals)) = map Some xs"
  shows "insert_query jl table vals = Some (''INSERT INTO '' @ table @
    '' ('' @ join '', '' (map fst (items jl vals)) @ '') VALUES ('' @
    join '', '' (map (\<lambda>x. quote @ x @ quote) xs) @ '');'')"
  by (simp add: insert_query_def insert_columns_join insert_values_join [OF assms])

theorem insert_query_text_witness:
  "insert_query tiny ''t'' [(''name'', ''x''), (''age'', ''7'')]
     = Some (''INSERT INTO t (name, age) VALUES ('' @ quote @ ''x'' @ quote @ '', '' @ quote @ ''7'' @ quote @ '');'')"
  using insert_query_text [of tiny "[(''name'', ''x''), (''age'', ''7'')]" "[''x'', ''7'']" "''t''"]
  by (simp add: tiny_defs value_text_def)

text \<open>
  Values are not escaped: a single string value that contains a quote, a comma and a quote
  gives the same VALUES text as two values, so a client can make a value end early and continue
  the statement.
\<close>

theorem insert_values_not_escaped:
  assumes "value_text jl v = Some (a @ quote @ '', '' @ quote @ b)"
    and "value_text jl va = Some a" and "value_text jl vb = Some b"
  shows "insert_values jl True [(k, v)] = insert_values jl True [(ka, va), (kb, vb)]"
  using assms by simp

theorem insert_values_not_escaped_witness:
  "insert_values tiny True [(''k'', [([], ''x'' @ quote @ '', '' @ quote @ ''y'')])]
     = insert_values tiny True [(''k'', [([], ''x'')]), (''l'', [([], ''y'')])]"
  by (rule insert_values_not_escaped [where a = "''x''" and b = "''y''"])
    (simp_all add: tiny_defs value_text_def)

end
