(* ===== verification/Reader.thy ===== *)
theory Reader
  imports Dispatcher
begin

text \<open>
  The read handler of a session (the callback in \<open>Session::do_read\<close>): it releases the read
  guard, appends what was read, hands every complete message to the data handler, closes the
  session on an invalid length or a failed read, and starts the next read. The theory proves that
  the loop ends and delivers what the receive buffer contains, that an open session always has
  exactly one read under way, and that nothing the handler does lets an exception out.
\<close>

section \<open>The loop over the messages\<close>

text \<open>The data handler passes the packet on to its dispatcher (\<open>DataHandler::dispatch\<close>).\<close>

definition data_handler_dispatch :: "'j json_lib \<Rightarrow> string \<Rightarrow> sref \<Rightarrow> string \<Rightarrow> world \<Rightarrow> result" where
  "data_handler_dispatch jl sec r packet w = dispatch jl (message_dispatcher_ctor jl sec) r packet w"

definition handle_packet :: "'j json_lib \<Rightarrow> string \<Rightarrow> sref \<Rightarrow> string \<Rightarrow> world \<Rightarrow> result" where
  "handle_packet jl sec r packet w =
     (if handler_alive w then data_handler_dispatch jl sec r packet w else return w)"

definition parsing_failed :: bytes where
  \<open>parsing_failed = ''{"type":"error","msg":"Message parsing failed"}'' @ nl\<close>

text \<open>The clause that catches an exception of a handler and answers with an error.\<close>

definition report_failure :: "sref \<Rightarrow> world \<Rightarrow> world" where
  "report_failure r w =
     post_write True r parsing_failed (upd r (\<lambda>s. s\<lparr>message := parsing_failed\<rparr>) w)"

lemma handle_packet_reads: "reads_kept w (snd (handle_packet jl sec r p w))"
  by (simp add: handle_packet_def data_handler_dispatch_def reads.P_dispatch reads_refl)

lemma handle_packet_frame: "handler_frame r w (snd (handle_packet jl sec r p w))"
  by (simp add: handle_packet_def data_handler_dispatch_def frames.P_dispatch frame_refl)

lemma handle_packet_nicks: "nick_inv w \<Longrightarrow> nick_inv (snd (handle_packet jl sec r p w))"
  by (simp add: handle_packet_def data_handler_dispatch_def nick_inv_dispatch)

lemma message_kept: "session_kept cfg s (s\<lparr>message := m\<rparr>)"
  by (rule kept_view) simp

lemma msg_buf_kept: "session_kept cfg s (s\<lparr>msg_buf := m\<rparr>)"
  by (rule kept_view) simp

lemma report_failure_reads: "reads_kept w (report_failure r w)"
  unfolding report_failure_def by (rule reads_trans [OF _ reads_post]) (simp add: reads_kept_def)

lemma report_failure_frame: "handler_frame r w (report_failure r w)"
  unfolding report_failure_def by (rule frame_trans [OF frame_upd frame_post]) (rule message_kept)

lemma report_failure_nicks: "nick_inv w \<Longrightarrow> nick_inv (report_failure r w)"
  unfolding report_failure_def by (rule nick_inv_post) (erule nick_inv_mono, auto)

abbreviation set_buf :: "sref \<Rightarrow> msgbuf \<Rightarrow> world \<Rightarrow> world" where
  "set_buf r mb \<equiv> upd r (\<lambda>s. s\<lparr>msg_buf := mb\<rparr>)"

lemma packet_buffer:
  "handle_packet jl sec r m (set_buf r mb w) = (e, w1) \<Longrightarrow> msg_buf (heap w1 r) = mb"
  using handle_packet_reads [of "set_buf r mb w" jl sec r m] by (simp add: reads_kept_def)

lemma failure_buffer [simp]: "msg_buf (heap (report_failure r w) q) = msg_buf (heap w q)"
  using report_failure_reads [of w r] by (simp add: reads_kept_def)

lemma turn_shorter:
  "extract_message (msg_buf (heap w r)) = (Some m, mb) \<Longrightarrow>
   handle_packet jl sec r m (set_buf r mb w) = (e, w1) \<Longrightarrow>
     length (mb_buffer (msg_buf (heap w1 r))) < length (mb_buffer (msg_buf (heap w r)))"
  using packet_buffer [of jl sec r m mb w e w1] extract_message_shorter by simp

text \<open>
  \<open>OtherException\<close> is what neither \<open>catch (const exception&)\<close> of the handler stops. The loop
  ends because every turn shortens the receive buffer and no handler touches it.
\<close>

function read_loop :: "'j json_lib \<Rightarrow> string \<Rightarrow> sref \<Rightarrow> world \<Rightarrow> result" where
  "read_loop jl sec r w =
     (case extract_message (msg_buf (heap w r)) of
        (None, mb) \<Rightarrow> return (set_buf r mb w)
      | (Some m, mb) \<Rightarrow>
          (case handle_packet jl sec r m (set_buf r mb w) of
             (None, w1) \<Rightarrow> read_loop jl sec r w1
           | (Some e, w1) \<Rightarrow>
               if e = OtherException then (Some e, w1)
               else read_loop jl sec r (report_failure r w1)))"
  by pat_completeness auto
termination
  by (relation "measure (\<lambda>(jl, sec, r, w). length (mb_buffer (msg_buf (heap w r))))")
    (auto dest: turn_shorter [OF sym sym] simp del: upd_simps(1))

declare read_loop.simps [simp del]

section \<open>Handlers do not look at the receive buffer\<close>

lemma upd_swap:
  assumes "\<And>s. f (g s) = g (f s)"
  shows "upd q f (upd r g w) = upd r g (upd q f w)"
  using assms by (cases "q = r") (simp_all add: upd_def fun_upd_twist)

lemma close_fields_buf: "close_fields (s\<lparr>msg_buf := mb\<rparr>) = (close_fields s)\<lparr>msg_buf := mb\<rparr>"
  by (simp add: close_fields_def)

lemma post_write_job_buf:
  "post_write_job cfg m (s\<lparr>msg_buf := mb\<rparr>) = (post_write_job cfg m s)\<lparr>msg_buf := mb\<rparr>"
  by (simp add: write_ops split: list.split)

lemma queue_job_buf: "queue_job j (s\<lparr>msg_buf := mb\<rparr>) = (queue_job j s)\<lparr>msg_buf := mb\<rparr>"
  by (simp add: queue_job_def)

lemma set_buf_field [simp]:
  "closed (heap (set_buf r mb w) q) = closed (heap w q)"
  "session_id (heap (set_buf r mb w) q) = session_id (heap w q)"
  "nickname_registered (heap (set_buf r mb w) q) = nickname_registered (heap w q)"
  "runs_now b q (set_buf r mb w) = runs_now b q w"
  by (simp_all add: runs_now_def)

lemma set_buf_manager:
  "(set_buf r mb w)\<lparr>manager := x\<rparr> = set_buf r mb (w\<lparr>manager := x\<rparr>)"
  "(set_buf r mb w)\<lparr>sql_log := y\<rparr> = set_buf r mb (w\<lparr>sql_log := y\<rparr>)"
  by (simp_all add: upd_def)

lemma close_session_buf: "close_session q (set_buf r mb w) = set_buf r mb (close_session q w)"
proof -
  have "upd q close_fields (set_buf r mb w) = set_buf r mb (upd q close_fields w)"
    by (rule upd_swap) (rule close_fields_buf)
  then show ?thesis
    unfolding close_session_def Let_def remove_session_def by (simp add: set_buf_manager)
qed

lemma post_write_buf: "post_write b q m (set_buf r mb w) = set_buf r mb (post_write b q m w)"
proof -
  have "upd q (post_write_job (app_config w) m) (set_buf r mb w)
      = set_buf r mb (upd q (post_write_job (app_config w) m) w)"
    by (rule upd_swap) (rule post_write_job_buf)
  moreover have "upd q (queue_job (JobWrite m)) (set_buf r mb w) = set_buf r mb (upd q (queue_job (JobWrite m)) w)"
    by (rule upd_swap) (rule queue_job_buf)
  ultimately show ?thesis by (simp add: post_write_def)
qed

lemma register_nickname_buf:
  "register_nickname n q (set_buf r mb w) = set_buf r mb (register_nickname n q w)"
proof (cases "nickname_index (manager w) n")
  case None
  then show ?thesis by (simp add: register_nickname_def set_buf_manager)
next
  case (Some p)
  then show ?thesis
    by (simp add: register_nickname_def weak_lock_def close_session_buf post_write_buf set_buf_manager Let_def
        del: upd_simps(1))
qed

lemma login_commit_buf: "login_commit n q (set_buf r mb w) = set_buf r mb (login_commit n q w)"
proof -
  have "upd q (\<lambda>s. on_nickname_registered (s\<lparr>nickname := n\<rparr>)) (set_buf r mb w)
      = set_buf r mb (upd q (\<lambda>s. on_nickname_registered (s\<lparr>nickname := n\<rparr>)) w)"
    by (rule upd_swap) (simp add: on_nickname_registered_def)
  then show ?thesis by (simp add: login_commit_upd register_nickname_buf)
qed

lemmas buf_rules = close_session_buf post_write_buf login_commit_buf set_buf_manager

lemma dispatch_buf:
  "dispatch jl (message_dispatcher_ctor jl sec) q p (set_buf r mb w)
     = map_prod id (set_buf r mb) (dispatch jl (message_dispatcher_ctor jl sec) q p w)"
proof -
  have login: "login_handler jl q msg (set_buf r mb w)
      = map_prod id (set_buf r mb) (login_handler jl q msg w)" for msg
    by (simp add: login_handler_def buf_rules split: option.split)
  have ins: "insert_handler jl q msg (set_buf r mb w)
      = map_prod id (set_buf r mb) (insert_handler jl q msg w)" for msg
    by (simp add: insert_handler_def buf_rules split: option.split)
  have "dispatch_type jl (message_dispatcher_ctor jl sec) q msg (set_buf r mb w)
      = map_prod id (set_buf r mb) (dispatch_type jl (message_dispatcher_ctor jl sec) q msg w)" for msg
    by (simp add: dispatch_type_def ctor_handlers login ins buf_rules split: option.split)
  then show ?thesis
    by (simp add: dispatch_def buf_rules Let_def del: upd_simps(1) split: option.split)
qed

text \<open>The only exceptions that leave \<open>dispatch\<close> are those of the JSON library.\<close>

lemma dispatch_throws:
  "fst (dispatch jl (message_dispatcher_ctor jl sec) q p w) \<in> {None, Some StdException}"
proof -
  have "fst (login_handler jl q msg w) \<in> {None, Some StdException}" for msg
    by (simp add: login_handler_def split: option.split)
  moreover have "fst (insert_handler jl q msg w) \<in> {None, Some StdException}" for msg
    by (simp add: insert_handler_def split: option.split)
  ultimately have "fst (dispatch_type jl (message_dispatcher_ctor jl sec) q msg w) \<in> {None, Some StdException}" for msg
    by (simp add: dispatch_type_def ctor_handlers split: option.split)
  then show ?thesis
    by (simp add: dispatch_def Let_def split: option.split)
qed

lemma handle_packet_throws: "handle_packet jl sec r p w = (Some e, w1) \<Longrightarrow> e = StdException"
  using dispatch_throws [of jl sec r p w]
  by (auto simp: handle_packet_def data_handler_dispatch_def split: if_splits)

lemma handle_packet_buf:
  "handle_packet jl sec q p (set_buf r mb w) = map_prod id (set_buf r mb) (handle_packet jl sec q p w)"
  by (simp add: handle_packet_def data_handler_dispatch_def dispatch_buf)

lemma report_failure_buf: "report_failure q (set_buf r mb w) = set_buf r mb (report_failure q w)"
proof -
  have "upd q (\<lambda>s. s\<lparr>message := parsing_failed\<rparr>) (set_buf r mb w)
      = set_buf r mb (upd q (\<lambda>s. s\<lparr>message := parsing_failed\<rparr>) w)"
    by (rule upd_swap) simp
  then show ?thesis by (simp add: report_failure_def post_write_buf)
qed

section \<open>What the loop does\<close>

text \<open>One message: the handler runs, and an exception it throws is answered.\<close>

definition handle_one :: "'j json_lib \<Rightarrow> string \<Rightarrow> sref \<Rightarrow> string \<Rightarrow> world \<Rightarrow> world" where
  "handle_one jl sec r m w =
     (case handle_packet jl sec r m w of (None, w1) \<Rightarrow> w1 | (Some e, w1) \<Rightarrow> report_failure r w1)"

lemma handle_one_buf: "handle_one jl sec q p (set_buf r mb w) = set_buf r mb (handle_one jl sec q p w)"
  by (simp add: handle_one_def handle_packet_buf report_failure_buf split: prod.split option.split)

lemma handle_one_reads: "reads_kept w (handle_one jl sec r m w)"
  using handle_packet_reads [of w jl sec r m] report_failure_reads reads_trans
  by (fastforce simp: handle_one_def split: prod.split option.split)

lemma handle_one_frame: "handler_frame r w (handle_one jl sec r m w)"
  using handle_packet_frame [of r w jl sec m] report_failure_frame frame_trans
  by (fastforce simp: handle_one_def split: prod.split option.split)

lemma handle_one_nicks: "nick_inv w \<Longrightarrow> nick_inv (handle_one jl sec r m w)"
  using handle_packet_nicks [of w jl sec r m] report_failure_nicks
  by (auto simp: handle_one_def split: prod.split option.split)

lemma fold_set_buf:
  "fold (handle_one jl sec r) ms (set_buf r mb w) = set_buf r mb (fold (handle_one jl sec r) ms w)"
  by (induction ms arbitrary: w) (simp_all add: handle_one_buf)

lemma set_buf_twice [simp]: "set_buf r mb (set_buf r mb' w) = set_buf r mb w"
  by (simp add: upd_def)

lemma set_buf_same: "set_buf r (msg_buf (heap w r)) w = w"
  by (simp add: upd_def)

lemma read_loop_fold:
  "read_loop jl sec r w =
     (case extract_all (msg_buf (heap w r)) of
        (ms, mb) \<Rightarrow> return (set_buf r mb (fold (handle_one jl sec r) ms w)))"
proof (induction jl sec r w rule: read_loop.induct)
  case (1 jl sec r w)
  let ?mb = "msg_buf (heap w r)"
  obtain o1 mb where x: "extract_message ?mb = (o1, mb)" by (cases "extract_message ?mb")
  show ?case
  proof (cases o1)
    case None
    with x show ?thesis by (simp add: read_loop.simps [of jl sec r w] extract_all.simps [of ?mb])
  next
    case (Some m)
    obtain ms mb' where ea: "extract_all mb = (ms, mb')" by (cases "extract_all mb")
    obtain e w1 where h: "handle_packet jl sec r m w = (e, w1)" by (cases "handle_packet jl sec r m w")
    have hb: "handle_packet jl sec r m (set_buf r mb w) = (e, set_buf r mb w1)"
      by (simp add: handle_packet_buf h)
    have e: "e = None \<or> e = Some StdException" using handle_packet_throws [of jl sec r m w] h by (cases e) auto
    have one: "handle_one jl sec r m w = (case e of None \<Rightarrow> w1 | Some _ \<Rightarrow> report_failure r w1)"
      by (simp add: handle_one_def h split: option.split)
    have fin: "return (set_buf r mb' (fold (handle_one jl sec r) ms (set_buf r mb (handle_one jl sec r m w))))
        = return (set_buf r mb' (fold (handle_one jl sec r) (m # ms) w))"
      by (simp add: fold_set_buf)
    from e show ?thesis
    proof
      assume n: "e = None"
      then show ?thesis
        using "1.IH"(1) [OF x [symmetric] Some hb [symmetric] n] x Some hb ea h fin
        by (simp add: read_loop.simps [of jl sec r w] extract_all.simps [of ?mb] one)
    next
      assume n: "e = Some StdException"
      then show ?thesis
        using "1.IH"(2) [OF x [symmetric] Some hb [symmetric] n] x Some hb ea h fin
        by (simp add: read_loop.simps [of jl sec r w] extract_all.simps [of ?mb] one report_failure_buf)
    qed
  qed
qed

section \<open>The read handler\<close>

text \<open>
  What a read completes with: bytes, end of file, a reset, an abort (the socket was closed here),
  another error.
\<close>

datatype read_result = ReadOk bytes | ReadEof | ReadReset | ReadAborted | ReadError

text \<open>\<open>release_read\<close>, once the operation has left the socket.\<close>

definition read_done :: "session \<Rightarrow> session" where
  "read_done s = release_read (s\<lparr>sock := (sock s)\<lparr>sk_reads := sk_reads (sock s) - 1\<rparr>\<rparr>)"

definition append_data :: "bytes \<Rightarrow> session \<Rightarrow> session" where
  "append_data d s = s\<lparr>msg_buf := mb_append d (msg_buf s)\<rparr>"

definition read_callback :: "'j json_lib \<Rightarrow> string \<Rightarrow> sref \<Rightarrow> read_result \<Rightarrow> world \<Rightarrow> result" where
  "read_callback jl sec r res w0 =
     (let w = upd r read_done w0 in
      case res of
        ReadOk d \<Rightarrow>
          (case read_loop jl sec r (upd r (append_data d) w) of
             (Some e, w1) \<Rightarrow>
               if e = OtherException then (Some e, w1)
               else return (upd r run_next_task (close_session r w1))
           | (None, w1) \<Rightarrow>
               if was_last_clear_by_invalid_length (msg_buf (heap w1 r))
               then return (close_session r w1)
               else return (upd r run_next_task (do_read True r w1)))
      | ReadEof \<Rightarrow> return (upd r run_next_task (close_session r w))
      | ReadReset \<Rightarrow> return (upd r run_next_task (close_session r w))
      | ReadAborted \<Rightarrow> return (upd r run_next_task w)
      | ReadError \<Rightarrow> return (upd r run_next_task (close_session r w)))"

text \<open>
  With the loop replaced by what it does: the branch for an exception that escapes the loop is
  never taken.
\<close>

lemma read_callback_ok:
  "read_callback jl sec r (ReadOk d) w =
     (case feed (msg_buf (heap w r)) d of
        (ms, mb) \<Rightarrow>
          let w1 = set_buf r mb (fold (handle_one jl sec r) ms (upd r (append_data d) (upd r read_done w))) in
          return (if mb_invalid mb then close_session r w1
                  else upd r run_next_task (do_read True r w1)))"
proof -
  have "msg_buf (heap (upd r (append_data d) (upd r read_done w)) r) = mb_append d (msg_buf (heap w r))"
    by (simp add: append_data_def read_done_def release_read_def)
  then show ?thesis
    unfolding read_callback_def Let_def read_loop_fold feed_def
    by (simp add: was_last_clear_by_invalid_length_def split: prod.split)
qed

section \<open>The read side of a session\<close>

text \<open>
  Between two handlers: no task waits, at most one read is outstanding or waits for the strand,
  the guard is set exactly when there is one, and an open session has one.
\<close>

definition reads_pending :: "session \<Rightarrow> nat" where
  "reads_pending s = sk_reads (sock s) + length (filter job_is_task (strand_jobs s))"

definition read_inv :: "session \<Rightarrow> bool" where
  "read_inv s \<longleftrightarrow> task_queue s = [] \<and> reads_pending s \<le> 1
     \<and> (read_pending s \<longleftrightarrow> reads_pending s = 1)
     \<and> (sk_reads (sock s) = 1 \<longrightarrow> task_running s)
     \<and> (filter job_is_task (strand_jobs s) \<noteq> [] \<longrightarrow> \<not> task_running s)
     \<and> (\<not> closed s \<longrightarrow> reads_pending s = 1)
     \<and> closed_ok s"

lemma read_inv_kept:
  "read_inv s \<Longrightarrow> read_view s' = read_view s \<Longrightarrow> session_kept cfg s s' \<Longrightarrow> read_inv s'"
  by (auto simp: read_inv_def read_view_def reads_pending_def session_kept_def)

lemma run_task_start [simp]: "run_task t s = start_read s"
  by (cases t) simp

lemmas read_ops = start_read_def run_next_task_def push_task_def try_acquire_read_def release_read_def
  read_done_def append_data_def

lemma kept_reads [simp]:
  "session_kept cfg s (start_read s)" "session_kept cfg s (run_next_task s)"
  "session_kept cfg s (push_task t s)" "session_kept cfg s (read_done s)"
  "session_kept cfg s (append_data d s)" "session_kept cfg s (snd (try_acquire_read s))"
  "session_kept cfg s (s\<lparr>strand_jobs := js\<rparr>)"
  by (rule kept_view, simp add: read_ops Let_def split: list.split)+

lemma frame_post_task_job: "handler_frame r w (post_task_job t r w)"
  by (simp add: post_task_job_def frame_close frame_upd)

lemma frame_post_task: "handler_frame r w (post_task b t r w)"
  by (simp add: post_task_def frame_post_task_job frame_upd)

lemma do_read_alt:
  "do_read b r w =
     (if sstate (heap w r) = Closed then w
      else if read_pending (heap w r) then upd r (\<lambda>s. snd (try_acquire_read s)) w
      else post_task b ReadSome r (upd r (\<lambda>s. snd (try_acquire_read s)) w))"
  by (simp add: do_read_def try_acquire_read_def upd_def)

lemma frame_do_read: "handler_frame r w (do_read b r w)"
  unfolding do_read_alt
  by (auto intro: frame_refl frame_upd frame_trans [OF frame_upd frame_post_task])

lemma run_next_nick [simp]:
  "nickname (run_next_task s) = nickname s"
  "nickname_registered (run_next_task s) = nickname_registered s"
  "closed (run_next_task s) = closed s"
  by (simp_all add: read_ops split: list.split)

lemma push_nick [simp]:
  "nickname (push_task t s) = nickname s" "nickname_registered (push_task t s) = nickname_registered s"
  "closed (push_task t s) = closed s"
  by (simp_all add: push_task_def Let_def)

lemma acquire_nick [simp]:
  "nickname (snd (try_acquire_read s)) = nickname s"
  "nickname_registered (snd (try_acquire_read s)) = nickname_registered s"
  "closed (snd (try_acquire_read s)) = closed s"
  by (simp_all add: try_acquire_read_def)

lemma nick_inv_upd:
  assumes "nick_inv w" and "nickname (f (heap w r)) = nickname (heap w r)"
    and "nickname_registered (f (heap w r)) = nickname_registered (heap w r)"
    and "closed (heap w r) \<Longrightarrow> closed (f (heap w r))"
  shows "nick_inv (upd r f w)"
  using assms by (intro nick_inv_mono [OF assms(1)]) auto

lemma nick_inv_do_read: "nick_inv w \<Longrightarrow> nick_inv (do_read b r w)"
  unfolding do_read_alt post_task_def post_task_job_def
  by (auto intro!: nick_inv_upd nick_inv_close)

lemma frame_fold: "handler_frame r w (fold (handle_one jl sec r) ms w)"
  by (induction ms arbitrary: w) (auto intro: frame_refl frame_trans [OF handle_one_frame])

lemma reads_fold: "reads_kept w (fold (handle_one jl sec r) ms w)"
  by (induction ms arbitrary: w) (auto intro: reads_refl reads_trans [OF handle_one_reads])

lemma nicks_fold: "nick_inv w \<Longrightarrow> nick_inv (fold (handle_one jl sec r) ms w)"
  by (induction ms arbitrary: w) (auto intro: handle_one_nicks)

text \<open>The world in which the loop has run: the read is released, the messages are handled.\<close>

definition after_messages :: "'j json_lib \<Rightarrow> string \<Rightarrow> sref \<Rightarrow> bytes \<Rightarrow> world \<Rightarrow> world" where
  "after_messages jl sec r d w =
     (case feed (msg_buf (heap w r)) d of (ms, mb) \<Rightarrow>
        set_buf r mb (fold (handle_one jl sec r) ms (upd r (append_data d) (upd r read_done w))))"

lemma read_callback_ok':
  "read_callback jl sec r (ReadOk d) w =
     return (if mb_invalid (snd (feed (msg_buf (heap w r)) d))
       then close_session r (after_messages jl sec r d w)
       else upd r run_next_task (do_read True r (after_messages jl sec r d w)))"
  by (simp add: read_callback_ok after_messages_def Let_def split: prod.split)

lemma frame_after_messages: "handler_frame r w (after_messages jl sec r d w)"
proof -
  have "handler_frame r w (upd r (append_data d) (upd r read_done w))"
    by (rule frame_trans [OF frame_upd frame_upd]) simp_all
  then show ?thesis
    unfolding after_messages_def
    by (auto split: prod.split intro!: frame_trans [OF frame_trans [OF _ frame_fold] frame_upd] msg_buf_kept)
qed

lemma nicks_after_messages: "nick_inv w \<Longrightarrow> nick_inv (after_messages jl sec r d w)"
  unfolding after_messages_def
  by (auto split: prod.split intro!: nick_inv_upd nicks_fold simp: read_ops)

lemma read_view_after_messages:
  "read_view (heap (after_messages jl sec r d w) q) = read_view (heap (upd r read_done w) q)"
proof -
  have "read_view (append_data d s) = read_view s" for s by (simp add: append_data_def)
  then show ?thesis
    using reads_fold [of "upd r (append_data d) (upd r read_done w)" jl sec r]
    by (simp add: after_messages_def reads_kept_def split: prod.split)
qed

lemma frame_read_callback: "handler_frame r w (snd (read_callback jl sec r res w))"
proof (cases res)
  case (ReadOk d)
  then show ?thesis
    by (auto simp: read_callback_ok' intro: frame_trans [OF frame_after_messages frame_close]
        frame_trans [OF frame_trans [OF frame_after_messages frame_do_read] frame_upd])
qed (auto simp: read_callback_def Let_def
       intro: frame_trans [OF frame_trans [OF frame_upd frame_close] frame_upd] frame_trans [OF frame_upd frame_upd])

lemma nicks_read_callback: "nick_inv w \<Longrightarrow> nick_inv (snd (read_callback jl sec r res w))"
proof (cases res)
  case (ReadOk d)
  moreover assume "nick_inv w"
  ultimately show ?thesis
    by (auto simp: read_callback_ok' intro!: nick_inv_close nick_inv_upd nick_inv_do_read nicks_after_messages)
qed (auto simp: read_callback_def read_done_def release_read_def Let_def intro!: nick_inv_upd nick_inv_close)

section \<open>An open session always has one read under way\<close>

lemma do_read_other: "q \<noteq> r \<Longrightarrow> heap (do_read b r w) q = heap w q"
  by (auto simp: do_read_alt post_task_def post_task_job_def close_session_other)

lemma read_view_read_done:
  assumes "read_inv s" and "0 < sk_reads (sock s)"
  shows "read_view (read_done s) = (0, False, [], True, [])"
proof -
  have "sk_reads (sock s) = 1" and "filter job_is_task (strand_jobs s) = []"
    using assms by (auto simp: read_inv_def reads_pending_def)
  with assms(1) show ?thesis by (simp add: read_view_def read_ops read_inv_def)
qed

lemma do_read_next:
  assumes "read_view (heap w r) = (0, False, [], True, [])" and "1 \<le> max_task_queue (app_config w)"
  shows "heap (upd r run_next_task (do_read True r w)) r =
    (if sstate (heap w r) = Closed then (heap w r)\<lparr>task_running := False\<rparr>
     else start_read ((heap w r)\<lparr>read_pending := True\<rparr>))"
  using assms
  by (simp add: read_view_def do_read_alt post_task_def post_task_job_def runs_now_def read_ops Let_def)

lemma read_inv_idle:
  assumes "read_view s = (0, False, [], b, [])" and "closed s"
  shows "read_inv s" and "read_inv (run_next_task s)"
  using assms by (simp_all add: read_inv_def read_view_def reads_pending_def run_next_task_def closed_ok_def)

lemma read_inv_started:
  assumes "read_view s = (0, False, [], True, [])" and "closed_ok s"
  shows "read_inv (start_read (s\<lparr>read_pending := True\<rparr>))"
  using assms by (simp add: read_inv_def read_view_def reads_pending_def start_read_def closed_ok_def)

lemma read_inv_callback_self:
  assumes "1 \<le> max_task_queue (app_config w)" and "read_inv (heap w r)"
    and "0 < sk_reads (sock (heap w r))"
    and "res = ReadAborted \<longrightarrow> \<not> sk_open (sock (heap w r))"
  shows "read_inv (heap (snd (read_callback jl sec r res w)) r)"
proof (cases res)
  case (ReadOk d)
  let ?w = "after_messages jl sec r d w"
  have v: "read_view (heap ?w r) = (0, False, [], True, [])"
    using assms by (simp add: read_view_after_messages read_view_read_done)
  have kept: "session_kept (app_config w) (heap w r) (heap ?w r)" "app_config ?w = app_config w"
    using frame_after_messages [of r w jl sec d] by (auto simp: handler_frame_def)
  then have c: "closed_ok (heap ?w r)"
    using assms(2) by (simp add: session_kept_def read_inv_def)
  show ?thesis
  proof (cases "mb_invalid (snd (feed (msg_buf (heap w r)) d))")
    case True
    have "read_view (heap (close_session r ?w) r) = (0, False, [], True, [])"
      using v reads_close [of ?w r] by (simp add: reads_kept_def)
    then show ?thesis using True ReadOk by (simp add: read_callback_ok' read_inv_idle)
  next
    case False
    have "read_inv (heap (upd r run_next_task (do_read True r ?w)) r)"
    proof (cases "sstate (heap ?w r) = Closed")
      case True
      have "read_inv ((heap ?w r)\<lparr>task_running := False\<rparr>)"
        using v c True by (simp add: read_inv_def read_view_def reads_pending_def closed_ok_def)
      with True v assms(1) kept(2) show ?thesis by (simp add: do_read_next del: upd_simps(1))
    next
      case False
      with v c assms(1) kept(2) show ?thesis by (simp add: do_read_next read_inv_started del: upd_simps(1))
    qed
    with False ReadOk show ?thesis by (simp add: read_callback_ok' del: upd_simps(1))
  qed
next
  case ReadAborted
  have "closed (read_done (heap w r))"
    using assms(2,4) ReadAborted by (simp add: read_ops read_inv_def closed_ok_def)
  with ReadAborted assms show ?thesis
    by (simp add: read_callback_def Let_def read_inv_idle(2) read_view_read_done)
qed (use assms in \<open>auto simp: read_callback_def Let_def close_session_heap
       intro!: read_inv_idle(2) [where b = True] read_view_read_done\<close>)

lemma read_inv_callback:
  assumes "1 \<le> max_task_queue (app_config w)" and "read_inv (heap w r)"
    and "0 < sk_reads (sock (heap w r))"
    and "res = ReadAborted \<longrightarrow> \<not> sk_open (sock (heap w r))" and "read_inv (heap w q)"
  shows "read_inv (heap (snd (read_callback jl sec r res w)) q)"
proof (cases "q = r")
  case True
  with assms show ?thesis by (simp add: read_inv_callback_self)
next
  case False
  have "read_view (heap (snd (read_callback jl sec r res w)) q) = read_view (heap w q)"
  proof (cases res)
    case (ReadOk d)
    with False show ?thesis
      using reads_close [of "after_messages jl sec r d w" r]
      by (simp add: read_callback_ok' reads_kept_def do_read_other read_view_after_messages)
  qed (use False in \<open>auto simp: read_callback_def close_session_other Let_def\<close>)
  moreover have "session_kept (app_config w) (heap w q) (heap (snd (read_callback jl sec r res w)) q)"
    using frame_read_callback [of r w jl sec res] by (simp add: handler_frame_def)
  ultimately show ?thesis by (rule read_inv_kept [OF assms(5)])
qed

text \<open>The first read, started by the thread that accepted the connection.\<close>

lemma read_inv_first_read:
  assumes "1 \<le> max_task_queue (app_config w)"
    and "read_view (heap w r) = (0, False, [], False, [])" and "closed_ok (heap w r)"
  shows "read_inv (heap (do_read b r w) r)"
  using assms
  by (simp add: read_inv_def read_view_def reads_pending_def closed_ok_def do_read_alt post_task_def
      post_task_job_def read_ops Let_def)

text \<open>A closure that waited for the strand.\<close>

lemma frame_run_strand_job: "handler_frame r w (run_strand_job r w)"
proof (cases "strand_jobs (heap w r)")
  case Nil
  then show ?thesis by (simp add: run_strand_job_def frame_refl)
next
  case (Cons j js)
  have kept: "session_kept cfg s (post_write_job cfg m (s\<lparr>strand_jobs := js\<rparr>))" for cfg m s
    by (rule session_kept_trans [OF kept_reads(7) kept_post])
  show ?thesis
    using Cons by (cases j) (auto simp: run_strand_job_def kept
      intro!: frame_upd frame_trans [OF frame_upd frame_post_task_job])
qed

lemma nicks_run_strand_job: "nick_inv w \<Longrightarrow> nick_inv (run_strand_job r w)"
  by (auto simp: run_strand_job_def post_task_job_def post_write_job_closed intro!: nick_inv_upd nick_inv_close
      split: list.split strand_job.split)

lemma read_inv_strand_job:
  assumes "1 \<le> max_task_queue (app_config w)" and "read_inv (heap w r)" and "read_inv (heap w q)"
  shows "read_inv (heap (run_strand_job r w) q)"
proof (cases "q = r")
  case False
  then show ?thesis using assms(3)
    by (auto simp: run_strand_job_def post_task_job_def close_session_other
        split: list.split strand_job.split)
next
  case True
  show ?thesis
  proof (cases "strand_jobs (heap w r)")
    case Nil
    then show ?thesis using assms(3) by (simp add: run_strand_job_def)
  next
    case (Cons j js)
    show ?thesis
    proof (cases j)
      case (JobTask t)
      then show ?thesis using Cons True assms(1,2)
        by (auto simp: run_strand_job_def post_task_job_def read_inv_def reads_pending_def read_ops closed_ok_def Let_def)
    next
      case (JobWrite m)
      let ?s = "post_write_job (app_config w) m ((heap w r)\<lparr>strand_jobs := js\<rparr>)"
      have "read_view ?s = read_view (heap w r)" using Cons JobWrite by (simp add: read_view_def)
      moreover have "session_kept (app_config w) (heap w r) ?s"
        by (rule session_kept_trans [OF kept_reads(7) kept_post])
      ultimately have "read_inv ?s" by (rule read_inv_kept [OF assms(2)])
      then show ?thesis using Cons JobWrite True by (simp add: run_strand_job_def)
    qed
  qed
qed

text \<open>
  The completion of a write. A failed one leaves the queue without a write for the moment
  before it closes the session, so the two are taken as one step.
\<close>

lemma callback_fields:
  assumes "write_callback err s = (s', c)"
  shows "read_view s' = read_view s" and "nickname s' = nickname s"
    and "nickname_registered s' = nickname_registered s" and "closed s' = closed s"
    and "session_id s' = session_id s" and "last_alive_time s' = last_alive_time s"
    and "sk_peer (sock s') = sk_peer (sock s)" and "sk_open (sock s') = sk_open (sock s)"
    and "sstate s' = sstate s"
  using assms by (auto simp: write_ops read_view_def split: list.splits if_splits)

lemma callback_writes:
  assumes "write_callback err s = (s', c)"
  shows "login_timer s' = login_timer s" and "generation s' = generation s"
    and "set (sk_writes (sock s')) \<subseteq> {w. fst w = generation s} \<union> set (sk_writes (sock s))"
  using assms by (auto simp: write_ops split: list.splits if_splits)

lemma kept_callback:
  assumes "write_callback err s = (s', c)"
  shows "session_kept cfg s (if c \<and> \<not> closed s' then close_fields s' else s')"
proof -
  note f = callback_fields [OF assms]
  have "write_inv cfg s \<Longrightarrow> write_inv cfg (if c \<and> \<not> closed s' then close_fields s' else s')"
    using assms write_inv_callback [of cfg s err s' c] write_inv_callback_closed [of cfg s err s' c]
    by (cases c) auto
  moreover have "lifecycle s \<Longrightarrow> lifecycle s'"
    using f callback_writes [OF assms] by (fastforce simp: lifecycle_def)
  moreover have "lifecycle s' \<Longrightarrow> lifecycle (close_fields s')"
    by (auto simp: lifecycle_def close_fields_def)
  ultimately show ?thesis using f by (auto simp: session_kept_def closed_ok_def)
qed

lemma on_write_heap:
  assumes "write_callback err (heap w r) = (s', c)"
  shows "heap (on_write err r w) = (heap w)(r := if c \<and> \<not> closed s' then close_fields s' else s')"
  using assms by (simp add: on_write_def close_session_heap Let_def)

lemma on_write_keeps [simp]:
  "alive (on_write err r w) = alive w" "app_config (on_write err r w) = app_config w"
  "handler_alive (on_write err r w) = handler_alive w" "strand_idle (on_write err r w) = strand_idle w"
  "nickname_index (manager (on_write err r w)) = nickname_index (manager w)"
  by (simp_all add: on_write_def Let_def split: prod.split)

lemma frame_on_write: "handler_frame r w (on_write err r w)"
proof -
  obtain s' c where cb: "write_callback err (heap w r) = (s', c)" by (cases "write_callback err (heap w r)")
  note f = callback_fields [OF cb] and h = on_write_heap [OF cb]
  let ?w = "upd r (\<lambda>_. s') w"
  have m: "manager (on_write err r w) = (if c then manager (close_session r ?w) else manager w)"
    by (simp add: on_write_def cb Let_def)
  have "registry_kept r w (on_write err r w)" if "sm_inv (manager w)"
    using that f by (auto simp: registry_kept_def m h close_session_find intro!: exI [of _ r])
  then show ?thesis
    using f kept_callback [OF cb] by (auto simp: handler_frame_def h m close_session_sm_inv)
qed

lemma nicks_on_write: "nick_inv w \<Longrightarrow> nick_inv (on_write err r w)"
proof -
  assume n: "nick_inv w"
  obtain s' c where cb: "write_callback err (heap w r) = (s', c)" by (cases "write_callback err (heap w r)")
  have "nick_inv (upd r (\<lambda>_. s') w)"
    using n callback_fields [OF cb] by (intro nick_inv_upd) auto
  then show ?thesis by (simp add: on_write_def cb nick_inv_close Let_def)
qed

lemma read_inv_on_write:
  assumes "read_inv (heap w q)"
  shows "read_inv (heap (on_write err r w) q)"
proof (cases "q = r")
  case True
  obtain s' c where cb: "write_callback err (heap w r) = (s', c)" by (cases "write_callback err (heap w r)")
  have "read_view (if c \<and> \<not> closed s' then close_fields s' else s') = read_view (heap w r)"
    using callback_fields [OF cb] by simp
  moreover note kept_callback [OF cb, of "app_config w"]
  ultimately show ?thesis
    using assms True read_inv_kept by (simp add: on_write_heap [OF cb])
next
  case False
  with assms show ?thesis
    by (cases "write_callback err (heap w r)") (simp add: on_write_heap)
qed

section \<open>Properties\<close>

text \<open>
  C9. The read loop hands to the dispatcher exactly the complete messages of the receive buffer,
  each once and in order, answers each message whose handler throws with an error message, and
  leaves the unfinished rest in the buffer. It stops after finitely many turns and no exception
  leaves it. A session that is closed by an early message still gets the later ones dispatched.
\<close>

theorem read_loop_delivers:
  "read_loop jl sec r w =
     return (set_buf r (snd (extract_all (msg_buf (heap w r))))
       (fold (handle_one jl sec r) (fst (extract_all (msg_buf (heap w r)))) w))"
  by (simp add: read_loop_fold split: prod.split)

lemma read_callback_returns: "fst (read_callback jl sec r res w) = None"
proof (cases res)
  case (ReadOk d)
  then show ?thesis by (simp add: read_callback_ok')
qed (simp_all add: read_callback_def Let_def)

text \<open>
  C32. Whatever a read completes with, the handler itself returns normally: no exception reaches
  the thread that runs it.
\<close>

theorem read_callback_never_throws: "fst (read_callback jl sec r res w) = None"
  by (rule read_callback_returns)

text \<open>
  C25. Closing does not end the loop: when one read brings a first packet without the secret and,
  behind it, a valid login, the first packet closes the session and takes it out of the registry,
  and the second then logs it in: the closed session goes back to Ready, owns the nickname, and
  the handler starts a new read on the closed socket.
\<close>

theorem pipelined_login_after_close:
  assumes "handler_alive w" and "\<not> closed (heap w r)" and "\<not> nickname_registered (heap w r)"
    and "sm_inv (manager w)" and "read_inv (heap w r)" and "0 < sk_reads (sock (heap w r))"
    and "1 \<le> max_task_queue (app_config w)"
    and "msg_buf (heap w r) = empty_msgbuf"
    and "\<not> has_secret_prefix sec bad" and "1 \<le> length bad" and "length bad \<le> 4096"
    and "1 \<le> length (sec @ js)" and "length (sec @ js) \<le> 4096"
    and "jparse jl js = Some msg" and "value_string jl msg ''type'' [] = Some ''login''"
    and "value_string jl msg ''nickname'' [] = Some n" and "n \<noteq> []"
    and "find_session_by_nickname (alive w) n (manager w) = None"
    and "w' = snd (read_callback jl sec r (ReadOk (frame_message bad @ frame_message (sec @ js))) w)"
  shows "closed (heap w' r) \<and> \<not> sk_open (sock (heap w' r))
    \<and> sm_find (session_id (heap w r)) (manager w') = None
    \<and> sstate (heap w' r) = Ready \<and> nickname_index (manager w') n = Some r
    \<and> sk_reads (sock (heap w' r)) = 1"
proof -
  let ?d = "frame_message bad @ frame_message (sec @ js)"
  have "parse_stream (frame_message (sec @ js) @ []) = ([sec @ js], Some [])"
    using parse_stream_frame [OF assms(12,13), of "[]"] by (simp add: parse_stream.simps [of "[]"])
  then have "parse_stream ?d = ([bad, sec @ js], Some [])"
    using parse_stream_frame [OF assms(10,11), of "frame_message (sec @ js)"] by simp
  then have f: "feed (msg_buf (heap w r)) ?d = ([bad, sec @ js], empty_msgbuf)"
    by (simp add: assms(8) feed_def extract_all_parse mb_append_def empty_msgbuf_def)
  define w0 where "w0 = upd r (append_data ?d) (upd r read_done w)"
  define w1 where "w1 = close_session r w0"
  have w0: "handler_alive w0" "\<not> closed (heap w0 r)" "\<not> nickname_registered (heap w0 r)"
    "manager w0 = manager w" "session_id (heap w0 r) = session_id (heap w r)" "alive w0 = alive w"
    using assms(1-3) by (simp_all add: w0_def read_ops)
  have "dispatch jl (message_dispatcher_ctor jl sec) r bad w0 = return w1"
    using w0 assms(9) by (simp add: dispatch_def w1_def Let_def)
  then have one: "handle_one jl sec r bad w0 = w1"
    using w0(1) by (simp add: handle_one_def handle_packet_def data_handler_dispatch_def)
  have w1: "handler_alive w1" "closed (heap w1 r)" "\<not> nickname_registered (heap w1 r)"
    "\<not> sk_open (sock (heap w1 r))" "sm_find (session_id (heap w r)) (manager w1) = None"
    "find_session_by_nickname (alive w1) n (manager w1) = None"
    using w0 assms(4,18)
    by (simp_all add: w1_def close_session_heap close_session_find find_session_by_nickname_def)
  obtain e w2 where d2: "dispatch jl (message_dispatcher_ctor jl sec) r (sec @ js) w1 = (e, w2)"
    by (cases "dispatch jl (message_dispatcher_ctor jl sec) r (sec @ js) w1")
  note l = login_on_closed [OF w1(2,3) assms(14-17) w1(6) d2]
  have "handle_one jl sec r (sec @ js) w1 = w2"
    using w1(1) d2 l(1) by (simp add: handle_one_def handle_packet_def data_handler_dispatch_def)
  with one have a: "after_messages jl sec r ?d w = set_buf r empty_msgbuf w2"
    by (simp add: after_messages_def f flip: w0_def)
  have "sm_inv (manager w1)" using w0(4) assms(4) by (simp add: w1_def close_session_sm_inv)
  then have reg: "sm_find (session_id (heap w r)) (manager w2) = None"
    using frame_dispatch [of r w1 jl sec "sec @ js"] w1(5) d2
    by (auto simp: handler_frame_def registry_kept_def dest!: spec [of _ "session_id (heap w r)"])
  let ?a = "after_messages jl sec r ?d w"
  have v: "read_view (heap ?a r) = (0, False, [], True, [])"
    using assms(5,6) by (simp add: read_view_after_messages read_view_read_done)
  have st: "sstate (heap ?a r) = Ready" "closed (heap ?a r)" "\<not> sk_open (sock (heap ?a r))"
    "sk_reads (sock (heap ?a r)) = 0"
    using l w1(4) v by (simp_all add: a read_view_def)
  have cfg: "1 \<le> max_task_queue (app_config ?a)"
    using frame_after_messages [of r w jl sec ?d] assms(7) by (simp add: handler_frame_def)
  have w': "w' = upd r run_next_task (do_read True r ?a)"
    using assms(19) f by (simp add: read_callback_ok' empty_msgbuf_def)
  have h: "heap w' r = start_read ((heap ?a r)\<lparr>read_pending := True\<rparr>)"
    unfolding w' using do_read_next [OF v cfg] st(1) by simp
  have "manager (do_read True r ?a) = manager ?a"
    using v cfg by (simp add: read_view_def do_read_alt post_task_def post_task_job_def runs_now_def try_acquire_read_def)
  then have m: "manager w' = manager w2" by (simp add: w' a)
  show ?thesis using st l(6) reg by (simp add: h m start_read_def)
qed

definition pipeline_world :: world where
  "pipeline_world = do_read True 2 demo_world"

theorem pipelined_login_after_close_witness:
  "sstate (heap (snd (read_callback tiny ''s3'' 2
     (ReadOk (frame_message ''x'' @ frame_message (''s3'' @ ''L''))) pipeline_world)) 2) = Ready"
proof -
  have r: "read_inv (heap pipeline_world 2)"
    unfolding pipeline_world_def
    by (rule read_inv_first_read) (simp_all add: config_json_limits read_view_def closed_ok_def)
  have h: "heap pipeline_world 2 = start_read ((heap demo_world 2)\<lparr>read_pending := True, task_running := True\<rparr>)"
    "manager pipeline_world = manager demo_world" "handler_alive pipeline_world"
    "app_config pipeline_world = config_json"
    by (simp_all add: pipeline_world_def do_read_alt post_task_def post_task_job_def runs_now_def
        config_json_limits read_ops Let_def)
  have "\<not> closed (heap pipeline_world 2)" "\<not> nickname_registered (heap pipeline_world 2)"
    "0 < sk_reads (sock (heap pipeline_world 2))" "sm_inv (manager pipeline_world)"
    "msg_buf (heap pipeline_world 2) = empty_msgbuf" "1 \<le> max_task_queue (app_config pipeline_world)"
    "find_session_by_nickname (alive pipeline_world) ''bob'' (manager pipeline_world) = None"
    by (simp_all add: h start_read_def config_json_limits)
      (simp add: find_session_by_nickname_def session_manager_ctor_def)
  note w = this
  have "\<not> has_secret_prefix ''s3'' ''x''" by (simp add: has_secret_prefix_def)
  from pipelined_login_after_close [OF h(3) w(1,2,4) r w(3,6,5) this _ _ _ _ tiny_login_simps _ w(7) refl]
  show ?thesis by simp
qed

end
