(* ===== verification/Utilities.thy ===== *)
theory Utilities
  imports Session_Core
begin

text \<open>
  The helpers of the program (\<open>Utility\<close>, \<open>AppContext\<close>, \<open>Logger\<close>, \<open>MemoryTracker\<close>): the shared
  context and its logger, the configuration file and the secret, random tokens, the alert to the
  administrator, the memory report. The JSON parser, the random engine, libcurl and the operating
  system are parameters; what a function does to libcurl is the list of its calls.
\<close>

section \<open>Numbers in text\<close>

definition c_isspace :: "char \<Rightarrow> bool" where
  "c_isspace c \<longleftrightarrow> c = CHR '' '' \<or> c \<in> {CHR 0x09, CHR 0x0A, CHR 0x0B, CHR 0x0C, CHR 0x0D}"

definition c_isdigit :: "char \<Rightarrow> bool" where
  "c_isdigit c \<longleftrightarrow> 48 \<le> (of_char c :: nat) \<and> (of_char c :: nat) \<le> 57"

definition digits_value :: "string \<Rightarrow> nat" where
  "digits_value ds = foldl (\<lambda>acc c. acc * 10 + (of_char c - 48)) 0 ds"

text \<open>\<open>std::to_string\<close> of a number that is not negative.\<close>

fun to_string :: "nat \<Rightarrow> string" where
  "to_string n = (if n < 10 then [] else to_string (n div 10)) @ [char_of (48 + n mod 10)]"

declare to_string.simps [simp del]

lemma digit_of: "n < 10 \<Longrightarrow> (of_char (char_of (48 + n)) :: nat) = 48 + n"
  by simp

lemma to_string_digits: "list_all c_isdigit (to_string n)"
proof (induction n rule: to_string.induct)
  case (1 n)
  have "c_isdigit (char_of (48 + n mod 10))" by (simp add: c_isdigit_def)
  with 1 show ?case by (simp add: to_string.simps [of n])
qed

lemma digits_value_snoc: "digits_value (ds @ [c]) = digits_value ds * 10 + (of_char c - 48)"
  by (simp add: digits_value_def)

lemma digits_value_to_string: "digits_value (to_string n) = n"
proof (induction n rule: to_string.induct)
  case (1 n)
  have e: "digits_value (if n < 10 then [] else to_string (n div 10)) = n div 10"
    using 1 by (simp add: digits_value_def)
  show ?case
    unfolding to_string.simps [of n] digits_value_snoc e by simp
qed

lemma to_string_nonempty: "to_string n \<noteq> []"
  by (simp add: to_string.simps [of n])

section \<open>The application context\<close>

text \<open>
  The singleton \<open>AppContext\<close>: whether the logger is set, the names in the registry of the logging
  library, the configuration. Its pool is handed to the outcome of the main function.
\<close>

record app_context =
  ctx_logger :: bool
  registered_loggers :: "string set"
  ctx_config :: config

definition app_context_ctor :: app_context where
  "app_context_ctor = \<lparr>ctx_logger = False, registered_loggers = {}, ctx_config = Map.empty\<rparr>"

text \<open>
  \<open>opens\<close>: the file sink can open its file. The library throws when it cannot, and when a logger
  of the name is registered already.
\<close>

definition init_logger :: "bool \<Rightarrow> app_context \<Rightarrow> exn option \<times> app_context" where
  "init_logger opens ctx =
     (if \<not> ctx_logger ctx
      then if \<not> opens then (Some StdException, ctx)
        else if ''server'' \<in> registered_loggers ctx then (Some StdException, ctx)
        else (None, ctx\<lparr>registered_loggers := insert ''server'' (registered_loggers ctx), ctx_logger := True\<rparr>)
      else (None, ctx))"

text \<open>
  An unreadable file leaves the empty object and throws; a file that does not parse throws and
  leaves the context alone.
\<close>

definition load_config :: "(string \<Rightarrow> config option) \<Rightarrow> string option \<Rightarrow> app_context \<Rightarrow> exn option \<times> app_context" where
  "load_config parse f ctx =
     (case f of
        None \<Rightarrow> (Some StdException, ctx\<lparr>ctx_config := Map.empty\<rparr>)
      | Some t \<Rightarrow> (case parse t of
          None \<Rightarrow> (Some StdException, ctx)
        | Some c \<Rightarrow> (None, ctx\<lparr>ctx_config := c\<rparr>)))"

type_synonym env = "string \<Rightarrow> string option"

definition get_env_secret :: "env \<Rightarrow> string \<Rightarrow> string" where
  "get_env_secret env k = (case env k of None \<Rightarrow> [] | Some v \<Rightarrow> v)"

section \<open>Random tokens\<close>

text \<open>
  \<open>draw\<close> is the distribution applied to the engine. The array of digits has sixteen characters and
  the terminating zero; an index beyond it is undefined and gives \<open>None\<close>.
\<close>

definition hex_chars :: "string" where
  "hex_chars = ''0123456789abcdef'' @ [CHR 0x00]"

fun generate_random_token :: "('g \<Rightarrow> nat \<times> 'g) \<Rightarrow> nat \<Rightarrow> 'g \<Rightarrow> string option" where
  "generate_random_token draw 0 gen = Some []"
| "generate_random_token draw (Suc n) gen =
     (case draw gen of (i, gen1) \<Rightarrow>
        if i < length hex_chars
        then (case generate_random_token draw n gen1 of
                None \<Rightarrow> None
              | Some t \<Rightarrow> Some (hex_chars ! i # t))
        else None)"

text \<open>The numbers that the engine yields for the token.\<close>

fun draws :: "('g \<Rightarrow> nat \<times> 'g) \<Rightarrow> nat \<Rightarrow> 'g \<Rightarrow> nat list" where
  "draws draw 0 gen = []"
| "draws draw (Suc n) gen = (case draw gen of (i, gen1) \<Rightarrow> i # draws draw n gen1)"

definition hex_digit :: "char \<Rightarrow> bool" where
  "hex_digit c \<longleftrightarrow> c \<in> set ''0123456789abcdef''"

definition hex_value :: "char \<Rightarrow> nat" where
  "hex_value c = (if of_char c < (97 :: nat) then of_char c - 48 else of_char c - 87)"

lemma hex_char:
  assumes "i < 16"
  shows "i < length hex_chars" and "hex_digit (hex_chars ! i)" and "hex_value (hex_chars ! i) = i"
proof -
  have "list_all (\<lambda>i. i < length hex_chars \<and> hex_digit (hex_chars ! i) \<and> hex_value (hex_chars ! i) = i) [0..<16]"
    by code_simp
  then show "i < length hex_chars" "hex_digit (hex_chars ! i)" "hex_value (hex_chars ! i) = i"
    using assms by (simp_all add: list_all_iff)
qed

lemma hex_value_back: "hex_digit c \<Longrightarrow> hex_chars ! hex_value c = c"
proof -
  have "list_all (\<lambda>c. hex_chars ! hex_value c = c) ''0123456789abcdef''" by code_simp
  then show "hex_digit c \<Longrightarrow> hex_chars ! hex_value c = c" by (auto simp: hex_digit_def list_all_iff)
qed

lemma hex_values_inject:
  assumes "map hex_value t = map hex_value u" and "list_all hex_digit t" and "list_all hex_digit u"
  shows "t = u"
proof -
  have "map ((!) hex_chars) (map hex_value t) = t" "map ((!) hex_chars) (map hex_value u) = u"
    using assms(2,3) by (auto simp: list_all_iff hex_value_back intro!: map_idI)
  with assms(1) show ?thesis by simp
qed

section \<open>The other helpers\<close>

text \<open>The parser yields the text of its exception or the value; the second component is the log.\<close>

definition try_parse_json :: "(string \<Rightarrow> string + 'j) \<Rightarrow> string \<Rightarrow> 'j option \<times> string list" where
  "try_parse_json parse msg =
     (case parse msg of
        Inr j \<Rightarrow> (Some j, [])
      | Inl what \<Rightarrow> (None, [''[UDP] JSON Parse failed: '' @ what @ '' / original: '' @ msg]))"

text \<open>What the alert does with libcurl; handles and lists are numbers, a null pointer is \<open>None\<close>.\<close>

datatype curl_call =
    CurlEasyInit
  | CurlSlistAppend "nat option" string
  | CurlSetUrl nat string
  | CurlSetPostfields nat string
  | CurlSetHttpheader nat "nat option"
  | CurlEasyPerform nat
  | CurlEasyCleanup nat
  | CurlSlistFreeAll "nat option"

definition slack_webhook_url :: string where
  "slack_webhook_url = ''https://hooks.slack.com/services/XXX/YYY/ZZZ''"

definition alert_payload :: "string \<Rightarrow> string" where
  \<open>alert_payload m = ''{"text":"'' @ m @ ''"}''\<close>

text \<open>
  \<open>handle\<close>: what \<open>curl_easy_init\<close> returns; \<open>headers\<close>: what \<open>curl_slist_append\<close> returns. The result of
  the transfer only decides whether it is logged.
\<close>

definition send_admin_alert :: "nat option \<Rightarrow> nat option \<Rightarrow> string \<Rightarrow> curl_call list" where
  "send_admin_alert handle headers m =
     (case handle of
        None \<Rightarrow> [CurlEasyInit]
      | Some curl \<Rightarrow>
          [CurlEasyInit, CurlSlistAppend None ''Content-Type: application/json'',
           CurlSetUrl curl slack_webhook_url, CurlSetPostfields curl (alert_payload m),
           CurlSetHttpheader curl headers, CurlEasyPerform curl,
           CurlEasyCleanup curl, CurlSlistFreeAll headers])"

text \<open>
  The memory report on Linux: \<open>statm\<close> is what the two extractions of \<open>/proc/self/statm\<close> yield,
  \<open>None\<close> when they fail; \<open>page_bytes\<close> is the page size. The products of a \<open>long\<close> are taken to
  fit, as sizes of memory do.
\<close>

definition get_memory_usage :: "(nat \<times> nat) option \<Rightarrow> nat \<Rightarrow> string" where
  "get_memory_usage statm page_bytes =
     (case statm of
        Some (total_pages, resident_pages) \<Rightarrow>
          (let page_size = page_bytes div 1024 in
           ''VmSize='' @ to_string (total_pages * page_size) @ '' KB, VmRSS=''
             @ to_string (resident_pages * page_size) @ '' KB'')
      | None \<Rightarrow> ''Unable to get memory usage'')"

definition log_memory_usage :: "(nat \<times> nat) option \<Rightarrow> nat \<Rightarrow> string list" where
  "log_memory_usage statm page_bytes = [''[MEM] '' @ get_memory_usage statm page_bytes]"

section \<open>Properties\<close>

lemma token_draws:
  assumes "\<And>g. fst (draw g) < 16"
  shows "\<exists>t. generate_random_token draw n gen = Some t \<and> map hex_value t = draws draw n gen
    \<and> length t = n \<and> list_all hex_digit t"
proof (induction n arbitrary: gen)
  case 0
  then show ?case by simp
next
  case (Suc n)
  obtain i g where d: "draw gen = (i, g)" by (cases "draw gen")
  then have "i < 16" using assms [of gen] by simp
  with d Suc [of g] hex_char [of i] show ?case by auto
qed

text \<open>
  With draws from 0 to 15 a token has exactly the requested length, consists of lower-case
  hexadecimal digits, and loses nothing of what was drawn: the draws can be read back from it, so
  different draws give different tokens.
\<close>

theorem token_encodes_draws:
  assumes "\<And>g. fst (draw g) < 16"
  shows "(\<exists>t. generate_random_token draw n gen = Some t \<and> length t = n \<and> list_all hex_digit t
      \<and> map hex_value t = draws draw n gen)
    \<and> (generate_random_token draw n gen = generate_random_token draw n gen'
        \<longleftrightarrow> draws draw n gen = draws draw n gen')"
proof -
  obtain t u where t: "generate_random_token draw n gen = Some t" "map hex_value t = draws draw n gen"
      "length t = n" "list_all hex_digit t"
    and u: "generate_random_token draw n gen' = Some u" "map hex_value u = draws draw n gen'"
      "list_all hex_digit u"
    using token_draws [of draw n gen, OF assms] token_draws [of draw n gen', OF assms] by blast
  then show ?thesis using hex_values_inject [of t u] by auto
qed

theorem token_encodes_draws_witness:
  "\<exists>t. generate_random_token (\<lambda>g. (g mod 16, g + 1)) (Suc (Suc 0)) (14 :: nat) = Some t \<and> map hex_value t = [14, 15]"
proof -
  have "draws (\<lambda>g. (g mod 16, g + 1)) (Suc (Suc 0)) (14 :: nat) = [14, 15]" by simp
  then show ?thesis
    using token_encodes_draws [of "\<lambda>g. (g mod 16, g + 1)" "Suc (Suc 0)" "14 :: nat" 14]
    by (auto simp del: generate_random_token.simps)
qed

text \<open>The logger is set up once: a second call changes nothing, whatever the file does.\<close>

lemma init_logger_once:
  "init_logger opens ctx = (None, ctx') \<Longrightarrow> init_logger opens' ctx' = (None, ctx')"
  by (auto simp: init_logger_def split: if_splits)

text \<open>The handle is released once, after its last use, and so is the list of headers.\<close>

lemma alert_releases:
  "send_admin_alert (Some h) hs m = xs \<Longrightarrow>
     filter (\<lambda>c. c = CurlEasyCleanup h) xs = [CurlEasyCleanup h]
     \<and> filter (\<lambda>c. c = CurlSlistFreeAll hs) xs = [CurlSlistFreeAll hs]
     \<and> drop 6 xs = [CurlEasyCleanup h, CurlSlistFreeAll hs]"
  by (auto simp: send_admin_alert_def)

end
