(* ===== verification/Data_Handler.thy ===== *)
theory Data_Handler
  imports Reader Utilities
begin

text \<open>
  The data handler (\<open>DataHandler\<close>): its state and constructor, the sweeps over all sessions
  (keepalive check, unauthenticated sessions) and its two timers. Its forwarding operations are
  the operations they forward to, in World (add, remove, find, visit) and in Reader (dispatch). \<open>std::sort\<close> leaves the order of equal
  elements open, so the sweep of unauthenticated sessions is stated for every sort that keeps
  the contract of the standard.
\<close>

section \<open>State\<close>

text \<open>
  The dispatcher is built once from the secret, so the secret stands for it. Each timer is the
  time at which it fires, in nanoseconds, when a wait on it is outstanding.
\<close>

record data_handler =
  dh_shard_count :: u32
  dh_secret :: string
  monitor_timer :: "int option"
  cleanup_timer :: "int option"

definition second :: int where
  "second = 1000000000"

definition start_monitor_loop :: "int \<Rightarrow> data_handler \<Rightarrow> data_handler" where
  "start_monitor_loop now dh = dh\<lparr>monitor_timer := Some (now + 10 * second)\<rparr>"

definition start_cleanup_loop :: "int \<Rightarrow> data_handler \<Rightarrow> data_handler" where
  "start_cleanup_loop now dh = dh\<lparr>cleanup_timer := Some (now + 60 * second)\<rparr>"

section \<open>Operations\<close>

text \<open>\<open>max(4u, hardware_concurrency() * 2)\<close> on \<open>unsigned int\<close>.\<close>

definition shard_count_for :: "u32 \<Rightarrow> u32" where
  "shard_count_for hardware = max 4 (hardware * 2)"

text \<open>The constructor starts the monitor loop; its call of \<open>start_cleanup_loop\<close> is commented out.\<close>

definition data_handler_ctor :: "u32 \<Rightarrow> string \<Rightarrow> int \<Rightarrow> data_handler" where
  "data_handler_ctor hardware packet now =
     start_monitor_loop now
       \<lparr>dh_shard_count = shard_count_for hardware, dh_secret = packet, monitor_timer = None,
        cleanup_timer = None\<rparr>"

text \<open>The operations that the handler passes on; the id of a new session is taken from the session.\<close>

definition data_handler_add_session :: "cint \<Rightarrow> sref \<Rightarrow> world \<Rightarrow> world" where
  [simp]: "data_handler_add_session sid r w = add_session r w"

definition data_handler_find_session :: "string \<Rightarrow> world \<Rightarrow> sref option" where
  [simp]: "data_handler_find_session n w = find_session_by_nickname (alive w) n (manager w)"

definition data_handler_for_each :: "(sref \<Rightarrow> world \<Rightarrow> world) \<Rightarrow> world \<Rightarrow> world" where
  [simp]: "data_handler_for_each fn w = for_each_session fn w"

text \<open>
  The visit of the keepalive check returns early for sessions without a nickname and then does
  nothing for the others: the vector of sessions to close stays as it is.
\<close>

definition keepalive_visit :: "world \<Rightarrow> sref list \<Rightarrow> sref \<Rightarrow> sref list" where
  "keepalive_visit w to_close r = (if \<not> nickname_registered (heap w r) then to_close else to_close)"

definition do_keepalive_check :: "world \<Rightarrow> world" where
  "do_keepalive_check w = close_all (foldl (keepalive_visit w) [] (sm_sessions (manager w))) w"

definition unauthenticated :: "session \<Rightarrow> bool" where
  "unauthenticated s \<longleftrightarrow> sstate s = Handshaking \<or> sstate s = LoginWait"

definition unauth_sessions :: "world \<Rightarrow> sref list" where
  "unauth_sessions w = filter (\<lambda>r. unauthenticated (heap w r)) (sm_sessions (manager w))"

definition cleanup_unauth_sessions ::
    "((sref \<Rightarrow> int) \<Rightarrow> sref list \<Rightarrow> sref list) \<Rightarrow> nat \<Rightarrow> world \<Rightarrow> world" where
  "cleanup_unauth_sessions srt max_unauth w =
     (let us = unauth_sessions w in
      if max_unauth < length us
      then close_all (take (length us - max_unauth) (srt (\<lambda>r. last_alive_time (heap w r)) us)) w
      else w)"

text \<open>
  The callbacks of the timers; \<open>err\<close> is the error code's truth value. The monitor writes the
  number of sessions and the memory in use to the log, the first component of its result.
\<close>

definition on_monitor_timer :: "bool \<Rightarrow> int \<Rightarrow> (nat \<times> nat) option \<Rightarrow> nat \<Rightarrow> world \<Rightarrow> data_handler
    \<Rightarrow> string list \<times> data_handler" where
  "on_monitor_timer err now statm page_bytes w dh0 =
     (let dh = dh0\<lparr>monitor_timer := None\<rparr> in
      if \<not> err
      then ([''[SERVER] Active sessions: '' @ to_string (get_total_session_count (manager w))]
              @ log_memory_usage statm page_bytes,
            start_monitor_loop now dh)
      else ([], dh))"

definition on_cleanup_timer :: "bool \<Rightarrow> int \<Rightarrow> world \<Rightarrow> data_handler \<Rightarrow> world \<times> data_handler" where
  "on_cleanup_timer err now w dh0 =
     (let dh = dh0\<lparr>cleanup_timer := None\<rparr> in
      if \<not> err then (cleanup_inactive_sessions now (300 * second) w, start_cleanup_loop now dh)
      else (w, dh))"

lemma timer_simps [simp]:
  "cleanup_timer (start_monitor_loop now dh) = cleanup_timer dh"
  "cleanup_timer (snd (on_monitor_timer err now statm page_bytes w dh)) = cleanup_timer dh"
  "dh_secret (start_monitor_loop now dh) = dh_secret dh" "dh_secret (start_cleanup_loop now dh) = dh_secret dh"
  "dh_secret (snd (on_monitor_timer err now statm page_bytes w dh)) = dh_secret dh"
  "dh_secret (snd (on_cleanup_timer err now w dh)) = dh_secret dh"
  by (simp_all add: start_monitor_loop_def start_cleanup_loop_def on_monitor_timer_def on_cleanup_timer_def Let_def)

section \<open>The contract of the sort\<close>

locale std_sort =
  fixes srt :: "('a \<Rightarrow> 'k :: linorder) \<Rightarrow> 'a list \<Rightarrow> 'a list"
  assumes sort_perm: "mset (srt f xs) = mset xs"
    and sort_sorted: "sorted (map f (srt f xs))"
begin

lemma length_srt: "length (srt f xs) = length xs"
  by (metis sort_perm size_mset)

lemma set_srt: "set (srt f xs) = set xs"
  by (metis sort_perm set_mset_mset)

lemma distinct_srt: "distinct (srt f xs) = distinct xs"
  by (metis sort_perm mset_eq_imp_distinct_iff)

lemma smallest_first:
  assumes "x \<in> set (take n (srt f xs))" and "distinct xs" and "y \<in> set xs" and "y \<notin> set (take n (srt f xs))"
  shows "f x \<le> f y"
proof -
  have "y \<in> set (drop n (srt f xs))"
    using assms(3,4) by (metis Un_iff append_take_drop_id set_append set_srt)
  moreover have "sorted (map f (take n (srt f xs)) @ map f (drop n (srt f xs)))"
    using sort_sorted [of f xs] by (metis append_take_drop_id map_append)
  ultimately show ?thesis using assms(1) by (auto simp: sorted_append)
qed

lemma card_smallest: "distinct xs \<Longrightarrow> n \<le> length xs \<Longrightarrow> card (set (take n (srt f xs))) = n"
  by (simp add: distinct_card distinct_srt length_srt)

end

interpretation isort: std_sort "\<lambda>f xs. sort_key f xs"
  by unfold_locales simp_all

section \<open>Properties\<close>

text \<open>
  The keepalive check closes nobody, whatever the sessions are.
\<close>

theorem keepalive_check_does_nothing: "do_keepalive_check w = w"
proof -
  have "foldl (keepalive_visit w) acc rs = acc" for acc rs
    by (induction rs arbitrary: acc) (simp_all add: keepalive_visit_def)
  then show ?thesis by (simp add: do_keepalive_check_def close_all_def)
qed

text \<open>
  C30. With more than the allowed number of registered unauthenticated sessions, the sweep closes
  as many of them as exceed it, and they are the ones that have been silent longest: none of
  those it spares is older than one it closes. Every other session keeps its whole state. This
  holds for every sort that returns a sorted permutation.
\<close>

theorem unauth_sweep_closes_oldest:
  assumes "std_sort srt" and "distinct (sm_sessions (manager w))"
    and "w' = cleanup_unauth_sessions srt limit w"
  shows "\<exists>victims. victims \<subseteq> set (unauth_sessions w)
    \<and> card victims = length (unauth_sessions w) - limit
    \<and> (\<forall>v \<in> victims. \<forall>u \<in> set (unauth_sessions w) - victims.
          last_alive_time (heap w v) \<le> last_alive_time (heap w u))
    \<and> (\<forall>q. heap w' q = (if q \<in> victims \<and> \<not> closed (heap w q) then close_fields (heap w q) else heap w q))"
proof -
  note sort_facts = std_sort.set_srt [OF assms(1)] std_sort.card_smallest [OF assms(1)]
    std_sort.smallest_first [OF assms(1)]
  let ?us = "unauth_sessions w" and ?f = "\<lambda>r. last_alive_time (heap w r)"
  let ?v = "set (take (length ?us - limit) (srt ?f ?us))"
  have d: "distinct ?us" using assms(2) by (simp add: unauth_sessions_def)
  show ?thesis
  proof (intro exI [of _ ?v] conjI ballI allI)
    show "?v \<subseteq> set ?us" using set_take_subset sort_facts(1) by metis
    show "card ?v = length ?us - limit" using d by (rule sort_facts(2)) simp
    show "?f v \<le> ?f u" if "v \<in> ?v" "u \<in> set ?us - ?v" for v u
      using sort_facts(3) [OF that(1) d] that(2) by blast
    show "heap w' q = (if q \<in> ?v \<and> \<not> closed (heap w q) then close_fields (heap w q) else heap w q)" for q
      using assms(3) by (simp add: cleanup_unauth_sessions_def close_all_heap Let_def)
  qed
qed

definition unauth_world :: world where
  "unauth_world = demo_world\<lparr>
     heap := (heap demo_world)(1 := (heap demo_world 1)\<lparr>last_alive_time := 30\<rparr>,
        2 := (heap demo_world 2)\<lparr>last_alive_time := 10\<rparr>, 3 := (heap demo_world 3)\<lparr>last_alive_time := 20\<rparr>),
     manager := \<lparr>shard_count = 4, session_buckets = [[], [(1, 1)], [(2, 2)], [(3, 3)]],
        nickname_index = Map.empty\<rparr>\<rparr>"

theorem unauth_sweep_closes_oldest_witness:
  "closed (heap (cleanup_unauth_sessions (\<lambda>f xs. sort_key f xs) 2 unauth_world) 2)"
proof -
  let ?w = "cleanup_unauth_sessions (\<lambda>f xs. sort_key f xs) 2 unauth_world"
  have s: "sm_sessions (manager unauth_world) = [1, 2, 3]"
    by (simp add: unauth_world_def sm_sessions_def)
  have u: "unauth_sessions unauth_world = [1, 2, 3]"
    by (simp add: unauth_sessions_def s) (simp add: unauth_world_def unauthenticated_def)
  obtain v where v: "v \<subseteq> {1, 2, 3}" "card v = 1"
    "\<forall>x \<in> v. \<forall>y \<in> {1, 2, 3} - v. last_alive_time (heap unauth_world x) \<le> last_alive_time (heap unauth_world y)"
    "\<forall>q. heap ?w q = (if q \<in> v \<and> \<not> closed (heap unauth_world q) then close_fields (heap unauth_world q)
       else heap unauth_world q)"
    using unauth_sweep_closes_oldest [OF isort.std_sort_axioms, of unauth_world _ 2, OF _ refl]
    by (auto simp: s u)
  from v(2) obtain x where x: "v = {x}" by (rule card_1_singletonE)
  have "last_alive_time (heap unauth_world x) \<le> last_alive_time (heap unauth_world 2)" if "x \<noteq> 2"
    using v(3) x that by simp
  then have "v = {2}" using v(1) x by (auto simp: unauth_world_def)
  with v(4) show ?thesis by simp
qed

end
