(* ===== verification/Allowed_IPs.thy ===== *)
theory Allowed_IPs
  imports Prelude
begin

text \<open>
  The IP whitelist (\<open>AllowedIPManager\<close>): the file is read line by line, lines are trimmed,
  blank lines and comments are skipped, the rest is inserted into the set that the accept
  handler consults. The theory models \<open>load\<close> and \<open>is_allowed\<close> with the string searches of the
  standard library they use, and relates them to a plain description of the file format.
\<close>

section \<open>The string operations used\<close>

definition newline :: char where
  "newline = CHR 0x0A"

text \<open>\<open>std::getline\<close> in a loop: a line ends at a newline, and the last one needs none.\<close>

function getlines :: "string \<Rightarrow> string list" where
  "getlines s =
     (if s = [] then []
      else takeWhile (\<lambda>c. c \<noteq> newline) s # getlines (tl (dropWhile (\<lambda>c. c \<noteq> newline) s)))"
  by pat_completeness auto
termination
proof (relation "measure length")
  fix s :: string
  assume "s \<noteq> []"
  then have "length (dropWhile (\<lambda>c. c \<noteq> newline) s) - 1 < length s"
    using length_dropWhile_le [of "\<lambda>c. c \<noteq> newline" s] by (cases s) auto
  then show "(tl (dropWhile (\<lambda>c. c \<noteq> newline) s), s) \<in> measure length" by simp
qed simp

declare getlines.simps [simp del]

text \<open>\<open>find_first_not_of\<close> and \<open>find_last_not_of\<close>; \<open>None\<close> is \<open>npos\<close>.\<close>

definition find_first_not_of :: "string \<Rightarrow> string \<Rightarrow> nat option" where
  "find_first_not_of ws l =
     (let n = length (takeWhile (\<lambda>c. c \<in> set ws) l) in if n = length l then None else Some n)"

definition find_last_not_of :: "string \<Rightarrow> string \<Rightarrow> nat option" where
  "find_last_not_of ws l =
     (let n = length (takeWhile (\<lambda>c. c \<in> set ws) (rev l)) in
      if n = length l then None else Some (length l - 1 - n))"

section \<open>State and operations\<close>

record allowed_ip_manager =
  allowed_ips :: "string set"

definition ws :: string where
  "ws = [CHR '' '', CHR 0x09, CHR 0x0D, CHR 0x0A]"

text \<open>One turn of the loop: the string to insert, or \<open>None\<close> for the two \<open>continue\<close>s.\<close>

definition load_line :: "string \<Rightarrow> string option" where
  "load_line line0 =
     (let line = (if line0 \<noteq> [] \<and> last line0 = CHR 0x0D then butlast line0 else line0) in
      case find_first_not_of ws line of
        None \<Rightarrow> None
      | Some i \<Rightarrow>
          (let line1 = (case find_last_not_of ws line of
                 None \<Rightarrow> line | Some j \<Rightarrow> take (j + 1) line);
               line2 = drop i line1 in
           if line2 = [] \<or> line2 ! 0 = CHR ''#'' then None else Some line2))"

fun insert_lines :: "string list \<Rightarrow> string set \<Rightarrow> string set" where
  "insert_lines [] s = s"
| "insert_lines (l # ls) s =
     (case load_line l of None \<Rightarrow> insert_lines ls s | Some x \<Rightarrow> insert_lines ls (insert x s))"

text \<open>The file is its contents, or \<open>None\<close> when it cannot be opened.\<close>

definition ip_load :: "string option \<Rightarrow> allowed_ip_manager \<Rightarrow> bool \<times> allowed_ip_manager" where
  "ip_load f m =
     (let m = m\<lparr>allowed_ips := {}\<rparr> in
      case f of
        None \<Rightarrow> (False, m)
      | Some txt \<Rightarrow> (True, m\<lparr>allowed_ips := insert_lines (getlines txt) (allowed_ips m)\<rparr>))"

definition is_allowed :: "string \<Rightarrow> allowed_ip_manager \<Rightarrow> bool" where
  "is_allowed ip m = (ip \<in> allowed_ips m)"

section \<open>Trimming\<close>

definition trim :: "string \<Rightarrow> string" where
  "trim l = dropWhile (\<lambda>c. c \<in> set ws) (rev (dropWhile (\<lambda>c. c \<in> set ws) (rev l)))"

definition entry :: "string \<Rightarrow> bool" where
  "entry x \<longleftrightarrow> x \<noteq> [] \<and> hd x \<noteq> CHR ''#''"

lemma dropWhile_append_all: "\<forall>c \<in> set xs. P c \<Longrightarrow> dropWhile P (xs @ ys) = dropWhile P ys"
  by (induction xs) auto

lemma trim_snoc_ws: "c \<in> set ws \<Longrightarrow> trim (l @ [c]) = trim l"
  by (simp add: trim_def)

lemma trim_chop_cr:
  "trim (if l \<noteq> [] \<and> last l = CHR 0x0D then butlast l else l) = trim l"
proof (cases "l \<noteq> [] \<and> last l = CHR 0x0D")
  case True
  then have "l = butlast l @ [CHR 0x0D]" by (metis append_butlast_last_id)
  then have "trim l = trim (butlast l)"
    using trim_snoc_ws [of "CHR 0x0D" "butlast l"] by (simp add: ws_def)
  with True show ?thesis by simp
qed auto

lemma takeWhile_all_iff: "length (takeWhile P xs) = length xs \<longleftrightarrow> (\<forall>x \<in> set xs. P x)"
  by (metis takeWhile_eq_all_conv takeWhile_eq_take take_all_iff order_refl)

lemma trim_all_ws: "\<forall>c \<in> set l. c \<in> set ws \<Longrightarrow> trim l = []"
  by (auto simp: trim_def dest: set_dropWhileD)

text \<open>The two searches and the two erasures of the code amount to trimming both ends.\<close>

lemma rev_dropWhile_rev:
  "rev (dropWhile P (rev l)) = take (length l - length (takeWhile P (rev l))) l"
  by (simp add: dropWhile_eq_drop rev_drop)

lemma drop_takeWhile_take:
  assumes "n \<le> length l" and "\<exists>c \<in> set (take n l). \<not> P c"
  shows "drop (length (takeWhile P l)) (take n l) = dropWhile P (take n l)"
proof -
  have "takeWhile P l = takeWhile P (take n l @ drop n l)" by simp
  also have "\<dots> = takeWhile P (take n l)"
    using assms(2) by (auto simp del: append_take_drop_id)
  finally show ?thesis by (simp add: dropWhile_eq_drop)
qed

lemma load_line_trimmed:
  assumes line: "line = (if l \<noteq> [] \<and> last l = CHR 0x0D then butlast l else l)"
    and c: "c \<in> set line" "c \<notin> set ws"
  shows "load_line l = (let x = trim line in if x = [] \<or> x ! 0 = CHR ''#'' then None else Some x)"
proof -
  let ?P = "\<lambda>c. c \<in> set ws"
  let ?i = "length (takeWhile ?P line)"
  let ?k = "length (takeWhile ?P (rev line))"
  have ne: "?i \<noteq> length line" "?k \<noteq> length line"
    using c takeWhile_all_iff [of ?P line] takeWhile_all_iff [of ?P "rev line"] by auto
  have k: "?k < length line"
    using ne(2) length_takeWhile_le [of ?P "rev line"] by simp
  then have j: "length line - 1 - ?k + 1 = length line - ?k" by simp
  have bk: "take (length line - ?k) line = rev (dropWhile ?P (rev line))"
    by (simp add: rev_dropWhile_rev)
  have "set (takeWhile ?P (rev line)) \<union> set (dropWhile ?P (rev line)) = set line"
    by (metis set_append set_rev takeWhile_dropWhile_id)
  then have "c \<in> set (dropWhile ?P (rev line))"
    using c set_takeWhileD [of c ?P "rev line"] by auto
  then have "\<exists>d \<in> set (take (length line - ?k) line). \<not> ?P d"
    using c(2) bk by auto
  from drop_takeWhile_take [OF _ this]
  have "drop ?i (take (length line - ?k) line) = trim line"
    by (simp add: trim_def bk)
  then show ?thesis
    unfolding load_line_def line [symmetric] Let_def find_first_not_of_def find_last_not_of_def
    using ne j by simp
qed

lemma load_line_trim: "load_line l = (if entry (trim l) then Some (trim l) else None)"
proof -
  define line where "line = (if l \<noteq> [] \<and> last l = CHR 0x0D then butlast l else l)"
  have t: "trim line = trim l" unfolding line_def by (rule trim_chop_cr)
  show ?thesis
  proof (cases "\<forall>c \<in> set line. c \<in> set ws")
    case True
    then have "load_line l = None"
      by (simp add: load_line_def Let_def find_first_not_of_def takeWhile_all_iff flip: line_def)
    moreover have "trim l = []" using True t trim_all_ws by simp
    ultimately show ?thesis by (simp add: entry_def)
  next
    case False
    then obtain c where "c \<in> set line" "c \<notin> set ws" by blast
    from load_line_trimmed [OF line_def this] show ?thesis
      by (cases "trim l") (simp_all add: t entry_def Let_def)
  qed
qed

lemma insert_lines_set: "insert_lines ls s = s \<union> {x \<in> trim ` set ls. entry x}"
  by (induction ls arbitrary: s) (auto simp: load_line_trim)

lemma allowed_after_load:
  "allowed_ips (snd (ip_load (Some txt) m)) = {x \<in> trim ` set (getlines txt). entry x}"
  by (simp add: ip_load_def insert_lines_set)

lemma getlines_line [simp]:
  assumes "newline \<notin> set l"
  shows "getlines (l @ newline # s) = l # getlines s"
proof -
  have "takeWhile (\<lambda>c. c \<noteq> newline) (l @ newline # s) = l
    \<and> dropWhile (\<lambda>c. c \<noteq> newline) (l @ newline # s) = newline # s"
    using assms by (induction l) auto
  then show ?thesis by (subst getlines.simps) simp
qed

lemma getlines_concat:
  "\<forall>l \<in> set ls. newline \<notin> set l \<Longrightarrow> getlines (concat (map (\<lambda>l. l @ [newline]) ls)) = ls"
  by (induction ls) (simp_all add: getlines.simps [of "[]"])

lemma trim_ends: "x = trim l \<Longrightarrow> x \<noteq> [] \<Longrightarrow> hd x \<notin> set ws \<and> last x \<notin> set ws"
proof -
  assume x: "x = trim l" "x \<noteq> []"
  let ?y = "rev (dropWhile (\<lambda>c. c \<in> set ws) (rev l))"
  have "hd x \<notin> set ws"
    using x hd_dropWhile [of "\<lambda>c. c \<in> set ws" ?y] by (simp add: trim_def)
  moreover have y: "dropWhile (\<lambda>c. c \<in> set ws) (rev l) \<noteq> []" using x unfolding trim_def by (metis dropWhile.simps(1) rev.simps(1))
  then have "last ?y \<notin> set ws"
    using hd_dropWhile [of "\<lambda>c. c \<in> set ws" "rev l"] by (simp add: last_rev)
  with y have "last x \<notin> set ws"
    using x takeWhile_dropWhile_id [of "\<lambda>c. c \<in> set ws" ?y]
    by (metis last_appendR trim_def)
  ultimately show ?thesis by simp
qed

section \<open>Properties\<close>

text \<open>
  C33. After the whitelist is loaded, an address is allowed exactly when some line of the file,
  trimmed, is that address and is neither empty nor a comment; when the file cannot be opened
  no address is allowed, whatever was loaded before.
\<close>

theorem whitelist_is_the_file:
  "is_allowed ip (snd (ip_load f m)) \<longleftrightarrow>
     (\<exists>txt. f = Some txt \<and> ip \<in> trim ` set (getlines txt) \<and> entry ip)"
  by (cases f) (auto simp: is_allowed_def allowed_after_load, simp add: ip_load_def)

text \<open>
  A file with DOS line ends gives the same whitelist as the file with Unix line ends.
\<close>

theorem whitelist_ignores_crlf:
  assumes "\<forall>l \<in> set ls. newline \<notin> set l"
  shows "ip_load (Some (concat (map (\<lambda>l. l @ [CHR 0x0D, newline]) ls))) m
       = ip_load (Some (concat (map (\<lambda>l. l @ [newline]) ls))) m"
proof -
  have "getlines (concat (map (\<lambda>l. l @ [newline]) (map (\<lambda>l. l @ [CHR 0x0D]) ls)))
      = map (\<lambda>l. l @ [CHR 0x0D]) ls"
    using assms by (intro getlines_concat) (auto simp: newline_def)
  moreover have "trim (l @ [CHR 0x0D]) = trim l" for l
    by (rule trim_snoc_ws) (simp add: ws_def)
  ultimately show ?thesis
    using getlines_concat [OF assms]
    by (simp add: ip_load_def insert_lines_set comp_def image_image)
qed

theorem whitelist_ignores_crlf_witness:
  "ip_load (Some (concat (map (\<lambda>l. l @ [CHR 0x0D, newline]) [''127.0.0.1'', ''# local'']))) \<lparr>allowed_ips = {}\<rparr>
 = ip_load (Some (concat (map (\<lambda>l. l @ [newline]) [''127.0.0.1'', ''# local'']))) \<lparr>allowed_ips = {}\<rparr>"
  by (rule whitelist_ignores_crlf) (simp add: newline_def)

end
