(* ===== verification/Server.thy ===== *)
theory Server
  imports Data_Handler Allowed_IPs
begin

text \<open>
  The accept loop (\<open>Server\<close>) and the whole running server as a step relation: connections are
  accepted, closures run on the strands, reads and writes complete, timers fire, the scheduler
  decides which strand is idle, sessions that nothing owns are destroyed. One invariant, proved for every
  reachable state, carries the properties that span the components.
\<close>

section \<open>The accept loop\<close>

text \<open>
  \<open>accepting\<close>: an \<open>async_accept\<close> is outstanding. \<open>next_ref\<close> is the address the next session gets.
\<close>

record server =
  accepting :: bool
  session_counter :: cint
  allowed_ip_mgr :: allowed_ip_manager
  dh :: data_handler
  next_ref :: sref
  net :: world

datatype accept_event = AcceptError | Accepted socket

definition start_accept :: "server \<Rightarrow> server" where
  "start_accept sv = sv\<lparr>accepting := True\<rparr>"

definition server_ctor :: "string option \<Rightarrow> data_handler \<Rightarrow> world \<Rightarrow> server" where
  "server_ctor f h w =
     start_accept \<lparr>accepting = False, session_counter = 0,
       allowed_ip_mgr = snd (ip_load f \<lparr>allowed_ips = {}\<rparr>), dh = h, next_ref = 0, net = w\<rparr>"

text \<open>\<open>make_shared<Session>\<close>.\<close>

definition make_session :: "socket \<Rightarrow> cint \<Rightarrow> int \<Rightarrow> sref \<Rightarrow> world \<Rightarrow> world" where
  "make_session sk sid now r w =
     w\<lparr>heap := (heap w)(r := session_ctor sk sid now), alive := insert r (alive w)\<rparr>"

text \<open>\<open>Session::start\<close>; the call of \<open>start_login_timeout\<close> is commented out there.\<close>

definition session_start :: "sref \<Rightarrow> world \<Rightarrow> world" where
  "session_start r w = do_read False r w"

definition accept_session :: "socket \<Rightarrow> int \<Rightarrow> server \<Rightarrow> server" where
  "accept_session sk now sv =
     (let sid = session_counter sv; r = next_ref sv in
      sv\<lparr>session_counter := sid + 1, next_ref := r + 1,
         net := session_start r (data_handler_add_session sid r (make_session sk sid now r (net sv)))\<rparr>)"

text \<open>
  The accept handler. \<open>remote_endpoint()\<close> without an error code throws when the peer is gone, \<open>close()\<close>
  without one when closing reports an error, and the handler has no \<open>catch\<close>.
\<close>

definition on_accept :: "accept_event \<Rightarrow> int \<Rightarrow> server \<Rightarrow> exn option \<times> server" where
  "on_accept ev now sv0 =
     (let sv = sv0\<lparr>accepting := False\<rparr> in
      case ev of
        AcceptError \<Rightarrow> (None, start_accept sv)
      | Accepted sk \<Rightarrow>
          (case remote_endpoint sk of
             None \<Rightarrow> (Some StdException, sv)
           | Some (client_ip, port) \<Rightarrow>
               if \<not> is_allowed client_ip (allowed_ip_mgr sv)
               then if sk_close_fails sk then (Some StdException, sv) else (None, start_accept sv)
               else (None, start_accept (accept_session sk now sv))))"

section \<open>The running server\<close>

text \<open>A socket as the acceptor delivers it.\<close>

definition fresh_socket :: "socket \<Rightarrow> bool" where
  "fresh_socket sk \<longleftrightarrow> sk_open sk \<and> sk_reads sk = 0 \<and> sk_writes sk = [] \<and> sk_sent sk = []"

text \<open>
  The steps. A read brings at most the 2048 bytes of the session's buffer, and is aborted only
  when the socket was closed on this side. A session is destroyed when neither the registry nor
  an outstanding operation or closure owns it. Handlers run to completion; each is one step. The
  exception is a login: the handlers of different sessions run in different threads, so its
  duplicate check may be older than its registration; \<open>stale_login\<close> is the registration of a
  login that passed the check at any earlier time. A peer may go at any time (\<open>disconnect\<close>).
  The third argument is what the handler lets out: the exception that reaches the thread that runs
  it, or \<open>None\<close> when it returns. The accept and the read handler are definitions with such a result;
  the write handler, the timers and the closures of the strand call only operations that take an
  error code or catch what they call, so their definitions have none.
\<close>

inductive sys_result :: "'j json_lib \<Rightarrow> server \<Rightarrow> exn option \<Rightarrow> server \<Rightarrow> bool" for jl where
  accept: "accepting sv \<Longrightarrow> (\<And>sk. ev = Accepted sk \<Longrightarrow> fresh_socket sk) \<Longrightarrow>
     on_accept ev now sv = (e, sv') \<Longrightarrow> sys_result jl sv e sv'"
| strand: "r \<in> alive (net sv) \<Longrightarrow> strand_jobs (heap (net sv) r) \<noteq> [] \<Longrightarrow>
     sys_result jl sv None (sv\<lparr>net := run_strand_job r (net sv)\<rparr>)"
| read: "r \<in> alive (net sv) \<Longrightarrow> 0 < sk_reads (sock (heap (net sv) r)) \<Longrightarrow>
     (res = ReadAborted \<longrightarrow> \<not> sk_open (sock (heap (net sv) r))) \<Longrightarrow>
     (\<And>d. res = ReadOk d \<Longrightarrow> length d \<le> 2048) \<Longrightarrow>
     read_callback jl (dh_secret (dh sv)) r res (net sv) = (e, w') \<Longrightarrow>
     sys_result jl sv e (sv\<lparr>net := w'\<rparr>)"
| stale_login: "r \<in> alive (net sv) \<Longrightarrow> n \<noteq> [] \<Longrightarrow>
     sys_result jl sv None (sv\<lparr>net := post_write True r login_ok (login_commit n r (net sv))\<rparr>)"
| written: "r \<in> alive (net sv) \<Longrightarrow> sk_writes (sock (heap (net sv) r)) \<noteq> [] \<Longrightarrow>
     sys_result jl sv None (sv\<lparr>net := on_write err r (net sv)\<rparr>)"
| monitor: "monitor_timer (dh sv) = Some t \<Longrightarrow> t \<le> now \<Longrightarrow>
     on_monitor_timer err now statm page_bytes (net sv) (dh sv) = (report, h') \<Longrightarrow> sys_result jl sv None (sv\<lparr>dh := h'\<rparr>)"
| cleanup: "cleanup_timer (dh sv) = Some t \<Longrightarrow> t \<le> now \<Longrightarrow>
     on_cleanup_timer err now (net sv) (dh sv) = (w', h') \<Longrightarrow> sys_result jl sv None (sv\<lparr>net := w', dh := h'\<rparr>)"
| schedule: "sys_result jl sv None (sv\<lparr>net := (net sv)\<lparr>strand_idle := f\<rparr>\<rparr>)"
| disconnect: "r \<in> alive (net sv) \<Longrightarrow>
     sys_result jl sv None (sv\<lparr>net := upd r (\<lambda>s. s\<lparr>sock := (sock s)\<lparr>sk_connected := False\<rparr>\<rparr>) (net sv)\<rparr>)"
| destroy: "r \<in> alive (net sv) \<Longrightarrow> r \<notin> set (sm_sessions (manager (net sv))) \<Longrightarrow>
     sk_reads (sock (heap (net sv) r)) = 0 \<Longrightarrow> sk_writes (sock (heap (net sv) r)) = [] \<Longrightarrow>
     strand_jobs (heap (net sv) r) = [] \<Longrightarrow>
     sys_result jl sv None (sv\<lparr>net := (net sv)\<lparr>alive := alive (net sv) - {r}\<rparr>\<rparr>)"

inductive_cases sys_resultE: "sys_result jl sv e sv'"

definition sys_step :: "'j json_lib \<Rightarrow> server \<Rightarrow> server \<Rightarrow> bool" where
  "sys_step jl sv sv' \<longleftrightarrow> (\<exists>e. sys_result jl sv e sv')"

lemma sys_stepI: "sys_result jl sv e sv' \<Longrightarrow> sys_step jl sv sv'"
  by (auto simp: sys_step_def)

lemma sys_stepE:
  assumes "sys_step jl sv sv'"
  obtains e where "sys_result jl sv e sv'"
  using assms by (auto simp: sys_step_def)

definition sys_init :: "config \<Rightarrow> string option \<Rightarrow> string \<Rightarrow> server \<Rightarrow> bool" where
  "sys_init cfg f sec sv \<longleftrightarrow> (\<exists>n h idle hw now. 0 < unat n \<and> unat n < 2 ^ 31 \<and>
     sv = server_ctor f (data_handler_ctor hw sec now) \<lparr>heap = h, alive = {}, manager = session_manager_ctor n, app_config = cfg,
       handler_alive = True, strand_idle = idle, sql_log = []\<rparr>)"

section \<open>The invariant of the server\<close>

text \<open>
  \<open>session_good\<close>: the peer is on the whitelist, the life cycle and the write side are sound. \<open>sys_core\<close> is the
  invariant but for the read side: ids are the addresses modulo 2^32, the registry names live
  sessions under their own ids, and until the counter wraps it names every open one.
\<close>

definition session_good :: "config \<Rightarrow> string option \<Rightarrow> session \<Rightarrow> bool" where
  "session_good cfg f s \<longleftrightarrow>
     is_allowed (fst (sk_peer (sock s))) (snd (ip_load f \<lparr>allowed_ips = {}\<rparr>))
     \<and> lifecycle s
     \<and> (2 \<le> max_write_queue_size cfg \<longrightarrow> write_inv cfg s)"

definition registry_sound :: "world \<Rightarrow> bool" where
  "registry_sound w \<longleftrightarrow>
     (\<forall>i r. sm_find i (manager w) = Some r \<longrightarrow> r \<in> alive w \<and> session_id (heap w r) = i)"

definition registry_complete :: "world \<Rightarrow> bool" where
  "registry_complete w \<longleftrightarrow>
     (\<forall>r \<in> alive w. \<not> closed (heap w r) \<longrightarrow> sm_find (session_id (heap w r)) (manager w) = Some r)"

definition sys_core :: "config \<Rightarrow> string option \<Rightarrow> server \<Rightarrow> bool" where
  "sys_core cfg f sv \<longleftrightarrow>
     app_config (net sv) = cfg \<and> handler_alive (net sv)
     \<and> allowed_ip_mgr sv = snd (ip_load f \<lparr>allowed_ips = {}\<rparr>)
     \<and> sm_inv (manager (net sv)) \<and> nick_inv (net sv)
     \<and> session_counter sv = word_of_nat (next_ref sv)
     \<and> (\<forall>r \<in> alive (net sv). r < next_ref sv \<and> session_good cfg f (heap (net sv) r)
          \<and> session_id (heap (net sv) r) = word_of_nat r)
     \<and> registry_sound (net sv)
     \<and> (next_ref sv \<le> 2 ^ 32 \<longrightarrow> registry_complete (net sv))"

definition sys_inv :: "config \<Rightarrow> string option \<Rightarrow> server \<Rightarrow> bool" where
  "sys_inv cfg f sv \<longleftrightarrow> sys_core cfg f sv \<and> (\<forall>r \<in> alive (net sv). read_inv (heap (net sv) r))"

lemma word_of_nat_inj32:
  assumes "(word_of_nat a :: u32) = word_of_nat b" and "a < 2 ^ 32" and "b < 2 ^ 32"
  shows "a = b"
proof -
  have "unat (word_of_nat a :: u32) = unat (word_of_nat b :: u32)" using assms(1) by simp
  with assms(2,3) show ?thesis by (simp add: unat_of_nat take_bit_nat_eq_self)
qed

lemma registry_complete_frame:
  assumes "registry_complete w" and "handler_frame r w w'" and "r \<in> alive w" and "sm_inv (manager w)"
    and ids: "\<And>p. p \<in> alive w \<Longrightarrow> session_id (heap w p) = word_of_nat p \<and> p < 2 ^ 32"
  shows "registry_complete w'"
  unfolding registry_complete_def
proof (intro ballI impI)
  fix q
  assume q: "q \<in> alive w'" and nc: "\<not> closed (heap w' q)"
  have k: "alive w' = alive w" "\<And>p. session_kept (app_config w) (heap w p) (heap w' p)"
    "registry_kept r w w'" using assms(2,4) by (auto simp: handler_frame_def)
  then have o: "\<not> closed (heap w q)" and id: "session_id (heap w' q) = session_id (heap w q)"
    using nc by (auto simp: session_kept_def)
  have here: "sm_find (session_id (heap w q)) (manager w) = Some q"
    using assms(1) q o k(1) by (simp add: registry_complete_def)
  have "\<not> (\<exists>p. (p = r \<or> p \<in> alive w) \<and> session_id (heap w p) = session_id (heap w q) \<and> closed (heap w' p))"
    using ids word_of_nat_inj32 nc q k(1) assms(3) by metis
  then show "sm_find (session_id (heap w' q)) (manager w') = Some q"
    using k(3) here id unfolding registry_kept_def by metis
qed

lemma registry_sound_frame:
  assumes "registry_sound w" and "handler_frame r w w'" and "sm_inv (manager w)"
  shows "registry_sound w'"
  using assms unfolding registry_sound_def handler_frame_def registry_kept_def session_kept_def
  by (metis option.distinct(1))

lemma session_good_kept: "session_good cfg f s \<Longrightarrow> session_kept cfg s s' \<Longrightarrow> session_good cfg f s'"
  by (auto simp: session_good_def session_kept_def)

lemma core_frame:
  assumes "sys_core cfg f sv" and "r \<in> alive (net sv)" and "handler_frame r (net sv) w'" and "nick_inv w'"
  shows "sys_core cfg f (sv\<lparr>net := w'\<rparr>)"
proof -
  let ?w = "net sv"
  have fr: "alive w' = alive ?w" "app_config w' = app_config ?w" "handler_alive w' = handler_alive ?w"
    "\<And>q. session_kept (app_config ?w) (heap ?w q) (heap w' q)"
    using assms(3) by (auto simp: handler_frame_def)
  have inv: "sm_inv (manager ?w)" "registry_sound ?w" using assms(1) by (auto simp: sys_core_def)
  have "registry_complete w'" if "next_ref sv \<le> 2 ^ 32"
    using assms(1) that
    by (intro registry_complete_frame [OF _ assms(3,2) inv(1)]) (auto simp: sys_core_def)
  moreover have "session_good cfg f (heap w' q) \<and> session_id (heap w' q) = word_of_nat q" if "q \<in> alive ?w" for q
    using assms(1) that fr(4) [of q] session_good_kept
    by (auto simp: sys_core_def session_kept_def intro: session_good_kept [where s = "heap ?w q"])
  moreover have "sm_inv (manager w')" using assms(3) inv(1) by (simp add: handler_frame_def)
  moreover note registry_sound_frame [OF inv(2) assms(3) inv(1)]
  ultimately show ?thesis using assms(1,4) fr(1-3) by (simp add: sys_core_def)
qed

section \<open>Accepting keeps the invariant\<close>

lemma make_session_simps [simp]:
  "heap (make_session sk sid now r w) = (heap w)(r := session_ctor sk sid now)"
  "alive (make_session sk sid now r w) = insert r (alive w)"
  "manager (make_session sk sid now r w) = manager w"
  "app_config (make_session sk sid now r w) = app_config w"
  "handler_alive (make_session sk sid now r w) = handler_alive w"
  by (simp_all add: make_session_def)

lemma add_session_keeps [simp]:
  "alive (add_session r w) = alive w" "app_config (add_session r w) = app_config w"
  "handler_alive (add_session r w) = handler_alive w"
  by (simp_all add: add_session_def Let_def split: prod.split option.split)

lemma add_session_find:
  assumes "sm_inv (manager w)" and "sm_find i (manager (add_session r w)) = Some p"
  shows "(if i = session_id (heap w r) then Some r else sm_find i (manager w)) = Some p"
  using assms by (cases rule: add_session_cases [OF assms(1), of r])
    (auto simp: reg.add_inv reg.add_find close_session_find split: if_splits)

lemma add_session_session:
  assumes "sm_inv (manager w)"
  shows "session_kept cfg (heap w p) (heap (add_session r w) p)"
    and "read_view (heap (add_session r w) p) = read_view (heap w p)"
  using assms by (cases rule: add_session_cases [OF assms, of r]; simp add: close_session_heap)+

lemma nick_inv_add_session:
  assumes "sm_inv (manager w)" and "nick_inv w"
  shows "nick_inv (add_session r w)"
proof -
  have "nick_inv (w\<lparr>manager := snd (sm_add (session_id (heap w r)) r (manager w))\<rparr>)"
    using assms(2) by (simp add: nick_inv_def)
  then show ?thesis by (cases rule: add_session_cases [OF assms(1), of r]) (simp_all add: nick_inv_close)
qed

lemma session_ctor_simps [simp]:
  "session_id (session_ctor sk sid now) = sid" "sock (session_ctor sk sid now) = sk"
  "closed (session_ctor sk sid now) = False" "nickname_registered (session_ctor sk sid now) = False"
  "sstate (session_ctor sk sid now) = Handshaking"
  by (simp_all add: session_ctor_def)

text \<open>The world in which the new session has been registered and not started.\<close>

definition registered :: "socket \<Rightarrow> int \<Rightarrow> server \<Rightarrow> world" where
  "registered sk now sv =
     add_session (next_ref sv) (make_session sk (session_counter sv) now (next_ref sv) (net sv))"

lemma registered_complete:
  assumes "sys_core cfg f sv" and "next_ref sv < 2 ^ 32"
  shows "registry_complete (registered sk now sv)"
proof -
  let ?r = "next_ref sv" and ?w = "net sv" and ?sid = "session_counter sv"
  let ?w1 = "make_session sk ?sid now ?r ?w"
  have core: "sm_inv (manager ?w)" "registry_complete ?w" "registry_sound ?w" "?sid = word_of_nat ?r"
    "\<And>p. p \<in> alive ?w \<Longrightarrow> p < ?r \<and> session_id (heap ?w p) = word_of_nat p"
    using assms by (auto simp: sys_core_def)
  have fresh: "session_id (heap ?w p) \<noteq> ?sid" if "p \<in> alive ?w" for p
  proof
    assume eq: "session_id (heap ?w p) = ?sid"
    have "p = ?r"
      by (rule word_of_nat_inj32) (use eq core(4) core(5) [OF that] assms(2) in auto)
    with core(5) [OF that] show False by simp
  qed
  have "sm_find ?sid (manager ?w) \<noteq> Some p" for p
    using core(3) fresh by (auto simp: registry_sound_def)
  then have none: "sm_find ?sid (manager ?w) = None" by (cases "sm_find ?sid (manager ?w)") auto
  have "registered sk now sv = ?w1\<lparr>manager := snd (sm_add ?sid ?r (manager ?w))\<rparr>"
    using core(1) none by (simp add: registered_def add_session_alt)
  moreover have "p \<noteq> ?r" if "p \<in> alive ?w" for p using core(5) [OF that] by simp
  ultimately show ?thesis
    using core(1,2) fresh by (auto simp: registry_complete_def reg.add_find)
qed

lemma registered_core:
  assumes core: "sys_core cfg f sv" and sk: "fresh_socket sk"
    and ok: "is_allowed (fst (sk_peer sk)) (allowed_ip_mgr sv)"
  shows "sys_core cfg f (sv\<lparr>session_counter := session_counter sv + 1, next_ref := next_ref sv + 1,
           net := registered sk now sv\<rparr>)"
proof -
  let ?r = "next_ref sv" and ?w = "net sv" and ?sid = "session_counter sv"
  let ?w1 = "make_session sk ?sid now ?r ?w" and ?w2 = "registered sk now sv"
  have c: "sm_inv (manager ?w1)" "registry_sound ?w" "nick_inv ?w" "?r \<notin> alive ?w"
    "\<And>p. p \<in> alive ?w \<Longrightarrow> p < ?r \<and> session_good cfg f (heap ?w p) \<and> session_id (heap ?w p) = word_of_nat p"
    "?sid = word_of_nat ?r"
    using core by (auto simp: sys_core_def)
  have "lifecycle (session_ctor sk ?sid now)"
    using sk by (simp add: lifecycle_def fresh_socket_def) (simp add: session_ctor_def)
  then have good1: "session_good cfg f (heap ?w1 ?r)"
    using sk ok core by (auto simp: session_good_def fresh_socket_def sys_core_def write_inv_ctor)
  have kept: "session_kept cfg (heap ?w1 p) (heap ?w2 p)" for p
    unfolding registered_def by (rule add_session_session(1) [OF c(1)])
  have ids: "session_id (heap ?w2 p) = session_id (heap ?w1 p)" for p
    using kept [of p] by (simp add: session_kept_def)
  have good: "p < ?r + 1 \<and> session_good cfg f (heap ?w2 p) \<and> session_id (heap ?w2 p) = word_of_nat p"
    if "p \<in> insert ?r (alive ?w)" for p
  proof -
    have "session_good cfg f (heap ?w1 p) \<and> session_id (heap ?w1 p) = word_of_nat p \<and> p < ?r + 1"
      using that good1 c(4,6) c(5) [of p] by (cases "p = ?r") auto
    then show ?thesis using session_good_kept [OF _ kept] ids by simp
  qed
  have "nick_inv ?w1" using c(3) by (auto simp: nick_inv_def)
  then have n: "nick_inv ?w2" unfolding registered_def by (rule nick_inv_add_session [OF c(1)])
  have sound: "registry_sound ?w2"
    unfolding registry_sound_def
  proof (intro allI impI)
    fix i p
    assume "sm_find i (manager ?w2) = Some p"
    with add_session_find [OF c(1), of i ?r p]
    have "(if i = ?sid then Some ?r else sm_find i (manager ?w)) = Some p"
      by (auto simp: registered_def split: if_splits)
    then have "p \<in> insert ?r (alive ?w) \<and> session_id (heap ?w1 p) = i"
      using c(2,4) by (cases "i = ?sid") (auto simp: registry_sound_def)
    then show "p \<in> alive ?w2 \<and> session_id (heap ?w2 p) = i"
      unfolding ids by (simp add: registered_def)
  qed
  have "alive ?w2 = insert ?r (alive ?w)" "app_config ?w2 = cfg" "handler_alive ?w2"
    using core by (simp_all add: registered_def sys_core_def)
  with n sound good registered_complete [OF core, of sk now] add_session_sm_inv [OF c(1)] core
  show ?thesis by (simp add: sys_core_def registered_def [symmetric]) (simp add: registered_def)
qed

lemma sys_inv_accept:
  assumes cfg: "1 \<le> max_task_queue cfg" and inv: "sys_inv cfg f sv"
    and sk: "fresh_socket sk" and ok: "is_allowed (fst (sk_peer sk)) (allowed_ip_mgr sv)"
  shows "sys_inv cfg f (accept_session sk now sv)"
proof -
  let ?r = "next_ref sv" and ?w2 = "registered sk now sv"
  let ?sv2 = "sv\<lparr>session_counter := session_counter sv + 1, next_ref := ?r + 1, net := ?w2\<rparr>"
  let ?w1 = "make_session sk (session_counter sv) now ?r (net sv)"
  have core: "sys_core cfg f sv" using inv by (simp add: sys_inv_def)
  then have w: "sm_inv (manager ?w1)" "?r \<notin> alive (net sv)" by (auto simp: sys_core_def)
  have eq: "accept_session sk now sv = ?sv2\<lparr>net := do_read False ?r ?w2\<rparr>"
    by (simp add: accept_session_def registered_def session_start_def Let_def)
  have core2: "sys_core cfg f ?sv2" by (rule registered_core [OF core sk ok])
  then have n2: "nick_inv ?w2" by (simp add: sys_core_def)
  have a2: "?r \<in> alive (net ?sv2)" by (simp add: registered_def)
  have "sys_core cfg f (?sv2\<lparr>net := do_read False ?r ?w2\<rparr>)"
    using core_frame [OF core2 a2, of "do_read False ?r ?w2"] n2 by (simp add: frame_do_read nick_inv_do_read)
  moreover have "read_inv (heap (do_read False ?r ?w2) q)" if q: "q \<in> insert ?r (alive (net sv))" for q
  proof -
    have k: "session_kept cfg (heap ?w1 q) (heap ?w2 q)" "read_view (heap ?w2 q) = read_view (heap ?w1 q)"
      unfolding registered_def by (rule add_session_session [OF w(1)])+
    show ?thesis
    proof (cases "q = ?r")
      case True
      have "closed_ok (heap ?w2 ?r)"
        using k(1) True sk by (auto simp: session_kept_def fresh_socket_def closed_ok_def)
      moreover have "read_view (heap ?w2 ?r) = (0, False, [], False, [])"
        using k(2) True sk by (simp add: read_view_def session_ctor_def fresh_socket_def)
      moreover have "app_config ?w2 = cfg" using core2 by (simp add: sys_core_def)
      ultimately show ?thesis using cfg True by (simp add: read_inv_first_read)
    next
      case False
      then have "read_inv (heap ?w1 q)" using inv q by (simp add: sys_inv_def)
      then have "read_inv (heap ?w2 q)" by (rule read_inv_kept [OF _ k(2,1)])
      then show ?thesis using False by (simp add: do_read_other)
    qed
  qed
  moreover have "alive (do_read False ?r ?w2) = insert ?r (alive (net sv))"
    using frame_do_read [of ?r ?w2 False] by (simp add: handler_frame_def registered_def)
  ultimately show ?thesis unfolding eq by (simp add: sys_inv_def)
qed

section \<open>Every step keeps the invariant\<close>

lemma sys_core_fields:
  "sys_core cfg f (sv\<lparr>accepting := b\<rparr>) = sys_core cfg f sv"
  "sys_inv cfg f (sv\<lparr>accepting := b\<rparr>) = sys_inv cfg f sv"
  by (simp_all add: sys_core_def sys_inv_def)

lemma sys_inv_frame:
  assumes "sys_inv cfg f sv" and "r \<in> alive (net sv)" and "handler_frame r (net sv) w'" and "nick_inv w'"
    and "\<And>q. q \<in> alive (net sv) \<Longrightarrow> read_inv (heap w' q)"
  shows "sys_inv cfg f (sv\<lparr>net := w'\<rparr>)"
  using assms core_frame [of cfg f sv r w'] by (simp add: sys_inv_def handler_frame_def)

lemma sys_inv_on_accept:
  assumes "1 \<le> max_task_queue cfg" and "sys_inv cfg f sv"
    and "\<And>sk. ev = Accepted sk \<Longrightarrow> fresh_socket sk" and "on_accept ev now sv = (e, sv')"
  shows "sys_inv cfg f sv'"
proof -
  have inv: "sys_inv cfg f (sv\<lparr>accepting := False\<rparr>)" using assms(2) by (simp add: sys_core_fields)
  consider "sv' = start_accept (sv\<lparr>accepting := False\<rparr>)" | "sv' = sv\<lparr>accepting := False\<rparr>"
    | sk where "fresh_socket sk" "is_allowed (fst (sk_peer sk)) (allowed_ip_mgr (sv\<lparr>accepting := False\<rparr>))"
        "sv' = start_accept (accept_session sk now (sv\<lparr>accepting := False\<rparr>))"
    using assms(3,4)
    by (auto simp: on_accept_def remote_endpoint_def Let_def split: accept_event.splits option.splits if_splits)
  then show ?thesis
  proof cases
    case 3
    from sys_inv_accept [OF assms(1) inv 3(1,2), of now] show ?thesis
      by (simp add: 3(3) start_accept_def sys_core_fields)
  qed (use assms(2) in \<open>simp_all add: start_accept_def sys_core_fields\<close>)
qed

lemma sys_inv_destroy:
  assumes "sys_inv cfg f sv" and "r \<notin> set (sm_sessions (manager (net sv)))"
  shows "sys_inv cfg f (sv\<lparr>net := (net sv)\<lparr>alive := alive (net sv) - {r}\<rparr>\<rparr>)"
proof -
  have "p \<noteq> r" if "sm_find i (manager (net sv)) = Some p" for i p
    using assms that by (auto simp: sys_inv_def sys_core_def sm_sessions_find)
  then have "registry_sound (net sv) \<Longrightarrow> registry_sound ((net sv)\<lparr>alive := alive (net sv) - {r}\<rparr>)"
    by (simp add: registry_sound_def)
  moreover have "registry_complete (net sv) \<Longrightarrow> registry_complete ((net sv)\<lparr>alive := alive (net sv) - {r}\<rparr>)"
    by (simp add: registry_complete_def)
  moreover have "nick_inv (net sv) \<Longrightarrow> nick_inv ((net sv)\<lparr>alive := alive (net sv) - {r}\<rparr>)"
    by (simp add: nick_inv_def)
  ultimately show ?thesis using assms(1) by (simp add: sys_inv_def sys_core_def)
qed

lemma sys_inv_dh: "sys_inv cfg f (sv\<lparr>dh := h\<rparr>) = sys_inv cfg f sv"
  by (simp add: sys_inv_def sys_core_def)

lemma read_inv_frame:
  assumes "read_inv (heap w q)" and "reads_kept w w'" and "handler_frame r w w'"
  shows "read_inv (heap w' q)"
proof (rule read_inv_kept [OF assms(1)])
  show "read_view (heap w' q) = read_view (heap w q)" using assms(2) by (simp add: reads_kept_def)
  show "session_kept (app_config w) (heap w q) (heap w' q)" using assms(3) by (simp add: handler_frame_def)
qed

lemma close_registered:
  assumes "sys_inv cfg f sv" and "r \<in> alive (net sv)"
  shows "sys_inv cfg f (sv\<lparr>net := close_session r (net sv)\<rparr>)"
proof -
  let ?w = "net sv"
  have inv: "nick_inv ?w" "\<And>q. q \<in> alive ?w \<Longrightarrow> read_inv (heap ?w q)"
    using assms(1) by (auto simp: sys_inv_def sys_core_def)
  have "read_inv (heap (close_session r ?w) q)" if "q \<in> alive ?w" for q
    by (rule read_inv_frame [OF inv(2) [OF that] reads_close frame_close])
  then show ?thesis by (rule sys_inv_frame [OF assms frame_close nick_inv_close [OF inv(1)]])
qed

lemma sys_inv_close_all:
  "sys_inv cfg f sv \<Longrightarrow> set rs \<subseteq> alive (net sv) \<Longrightarrow> sys_inv cfg f (sv\<lparr>net := close_all rs (net sv)\<rparr>)"
proof (induction rs arbitrary: sv)
  case Nil
  then show ?case by (simp add: close_all_def)
next
  case (Cons r rs)
  then have "sys_inv cfg f (sv\<lparr>net := close_session r (net sv)\<rparr>)" by (intro close_registered) auto
  from Cons.IH [OF this] Cons.prems show ?case by (simp add: close_all_def)
qed

lemma sys_inv_sweep:
  assumes "sys_inv cfg f sv"
  shows "sys_inv cfg f (sv\<lparr>net := cleanup_inactive_sessions now limit (net sv)\<rparr>)"
proof -
  have "set (sm_sessions (manager (net sv))) \<subseteq> alive (net sv)"
    using assms by (auto simp: sys_inv_def sys_core_def registry_sound_def sm_sessions_find)
  then show ?thesis
    unfolding cleanup_inactive_sessions_def by (intro sys_inv_close_all [OF assms]) auto
qed

lemma sys_inv_stale_login:
  assumes "sys_inv cfg f sv" and "r \<in> alive (net sv)"
  shows "sys_inv cfg f (sv\<lparr>net := post_write True r login_ok (login_commit n r (net sv))\<rparr>)"
proof -
  let ?w = "net sv"
  let ?w' = "post_write True r login_ok (login_commit n r ?w)"
  have inv: "nick_inv ?w" "\<And>q. q \<in> alive ?w \<Longrightarrow> read_inv (heap ?w q)"
    using assms(1) by (auto simp: sys_inv_def sys_core_def)
  have fr: "handler_frame r ?w ?w'" by (rule frame_trans [OF frame_login frame_post])
  have "reads_kept ?w ?w'" by (rule reads_trans [OF reads_login reads_post])
  then have "read_inv (heap ?w' q)" if "q \<in> alive ?w" for q
    by (rule read_inv_frame [OF inv(2) [OF that] _ fr])
  then show ?thesis
    using sys_inv_frame [OF assms fr] nick_inv_post nick_inv_login inv(1) by blast
qed

lemma sys_inv_schedule:
  "sys_inv cfg f (sv\<lparr>net := (net sv)\<lparr>strand_idle := g\<rparr>\<rparr>) = sys_inv cfg f sv"
  by (simp add: sys_inv_def sys_core_def registry_sound_def registry_complete_def nick_inv_def)

lemma sys_inv_disconnect:
  assumes "sys_inv cfg f sv" and "r \<in> alive (net sv)"
  shows "sys_inv cfg f (sv\<lparr>net := upd r (\<lambda>s. s\<lparr>sock := (sock s)\<lparr>sk_connected := False\<rparr>\<rparr>) (net sv)\<rparr>)"
proof -
  let ?f = "\<lambda>s. s\<lparr>sock := (sock s)\<lparr>sk_connected := False\<rparr>\<rparr>"
  have inv: "nick_inv (net sv)" "\<And>q. q \<in> alive (net sv) \<Longrightarrow> read_inv (heap (net sv) q)"
    using assms(1) by (auto simp: sys_inv_def sys_core_def)
  have "session_kept c s (?f s)" for c s by (rule kept_view) simp
  then have fr: "handler_frame r (net sv) (upd r ?f (net sv))" by (rule frame_upd)
  have "reads_kept (net sv) (upd r ?f (net sv))" by (simp add: reads_kept_def read_view_def)
  then have "read_inv (heap (upd r ?f (net sv)) q)" if "q \<in> alive (net sv)" for q
    using read_inv_frame [OF inv(2) [OF that] _ fr] by blast
  moreover have "nick_inv (upd r ?f (net sv))" using inv(1) by (intro nick_inv_upd) auto
  ultimately show ?thesis using sys_inv_frame [OF assms fr] by blast
qed

lemma sys_inv_result:
  assumes "1 \<le> max_task_queue cfg" and "sys_inv cfg f sv" and "sys_result jl sv x sv'"
  shows "sys_inv cfg f sv'"
  using assms(3)
proof cases
  case (accept ev now)
  then show ?thesis using sys_inv_on_accept [OF assms(1,2)] by blast
next
  case (strand r)
  have "app_config (net sv) = cfg" "nick_inv (net sv)" "\<And>q. q \<in> alive (net sv) \<Longrightarrow> read_inv (heap (net sv) q)"
    using assms(2) by (auto simp: sys_inv_def sys_core_def)
  with assms(1) strand show ?thesis
    using sys_inv_frame [OF assms(2) strand(3) frame_run_strand_job nicks_run_strand_job]
    by (simp add: read_inv_strand_job)
next
  case (read r res w')
  then have w': "w' = snd (read_callback jl (dh_secret (dh sv)) r res (net sv))" by simp
  have "app_config (net sv) = cfg" "nick_inv (net sv)" "\<And>q. q \<in> alive (net sv) \<Longrightarrow> read_inv (heap (net sv) q)"
    using assms(2) by (auto simp: sys_inv_def sys_core_def)
  with assms(1) read(2,3,4) have "sys_inv cfg f (sv\<lparr>net := snd (read_callback jl (dh_secret (dh sv)) r res (net sv))\<rparr>)"
    using sys_inv_frame [OF assms(2) read(2) frame_read_callback nicks_read_callback, of jl "dh_secret (dh sv)" res]
    by (simp add: read_inv_callback)
  then show ?thesis by (simp only: read(1) w')
next
  case (stale_login r n)
  then show ?thesis using sys_inv_stale_login [OF assms(2)] by blast
next
  case (monitor t now err statm page_bytes report h')
  then show ?thesis using assms(2) by (simp add: sys_inv_dh)
next
  case (cleanup t now err w' h')
  have "w' = net sv \<or> w' = cleanup_inactive_sessions now (300 * second) (net sv)"
    using cleanup by (auto simp: on_cleanup_timer_def Let_def split: if_splits)
  then have "sys_inv cfg f (sv\<lparr>net := w'\<rparr>)" using assms(2) sys_inv_sweep [OF assms(2)] by auto
  then have "sys_inv cfg f (sv\<lparr>net := w'\<rparr>\<lparr>dh := h'\<rparr>)" by (simp only: sys_inv_dh)
  then show ?thesis using cleanup by simp
next
  case (written r err)
  have "nick_inv (net sv)" "\<And>q. q \<in> alive (net sv) \<Longrightarrow> read_inv (heap (net sv) q)"
    using assms(2) by (auto simp: sys_inv_def sys_core_def)
  with written show ?thesis
    using sys_inv_frame [OF assms(2) written(3) frame_on_write nicks_on_write]
    by (simp add: read_inv_on_write)
next
  case (schedule g)
  with assms(2) show ?thesis by (simp add: sys_inv_schedule)
next
  case (disconnect r)
  with sys_inv_disconnect [OF assms(2)] show ?thesis by blast
next
  case (destroy r)
  with assms(2) show ?thesis by (simp add: sys_inv_destroy)
qed

lemma sys_inv_step:
  "1 \<le> max_task_queue cfg \<Longrightarrow> sys_inv cfg f sv \<Longrightarrow> sys_step jl sv sv' \<Longrightarrow> sys_inv cfg f sv'"
  by (erule sys_stepE) (rule sys_inv_result)

lemma sys_inv_init: "sys_init cfg f sec sv \<Longrightarrow> sys_inv cfg f sv"
  by (auto simp: sys_init_def sys_inv_def sys_core_def server_ctor_def start_accept_def sm_inv_ctor nick_inv_def
      registry_sound_def registry_complete_def sm_find_ctor)

interpretation server_machine: inductive_invariant "sys_init cfg f sec" "sys_step jl"
    "\<lambda>sv. 1 \<le> max_task_queue cfg \<longrightarrow> sys_inv cfg f sv"
  for cfg :: config and f :: "string option" and jl :: "'j json_lib" and sec :: string
  by unfold_locales (auto intro: sys_inv_init sys_inv_step)

lemma reach_inv:
  "reach (sys_init cfg f sec) (sys_step jl) sv \<Longrightarrow> 1 \<le> max_task_queue cfg \<Longrightarrow> sys_inv cfg f sv"
  using server_machine.inv_reach by blast

section \<open>The data handler\<close>

text \<open>No step changes the secret, and none starts the cleanup timer.\<close>

definition handler_fixed :: "string \<Rightarrow> server \<Rightarrow> bool" where
  "handler_fixed sec sv \<longleftrightarrow> dh_secret (dh sv) = sec \<and> cleanup_timer (dh sv) = None"

lemma on_accept_dh: "on_accept ev now sv = (e, sv') \<Longrightarrow> dh sv' = dh sv"
  by (auto simp: on_accept_def start_accept_def accept_session_def Let_def
      split: accept_event.splits option.splits if_splits)

lemma on_monitor_dh:
  "on_monitor_timer err now statm page_bytes w d = (x, d') \<Longrightarrow> dh_secret d' = dh_secret d \<and> cleanup_timer d' = cleanup_timer d"
  by (auto simp: on_monitor_timer_def start_monitor_loop_def Let_def split: if_splits)

lemma handler_fixed_step: "handler_fixed sec sv \<Longrightarrow> sys_step jl sv sv' \<Longrightarrow> handler_fixed sec sv'"
  by (elim sys_stepE sys_resultE) (auto simp: handler_fixed_def dest: on_accept_dh on_monitor_dh)

interpretation handler_machine: inductive_invariant "sys_init cfg f sec" "sys_step jl" "handler_fixed sec"
  for cfg :: config and f :: "string option" and jl :: "'j json_lib" and sec :: string
proof unfold_locales
  show "handler_fixed sec sv" if "sys_init cfg f sec sv" for sv
    using that by (auto simp: handler_fixed_def sys_init_def server_ctor_def start_accept_def
        data_handler_ctor_def start_monitor_loop_def)
qed (rule handler_fixed_step)

section \<open>When the accept loop ends\<close>

lemma stopped_step:
  assumes "sys_step jl sv sv'" and "\<not> accepting sv"
  shows "\<not> accepting sv' \<and> next_ref sv' = next_ref sv"
  using assms by (auto elim!: sys_stepE sys_resultE)

lemma stopped_steps:
  assumes "(sys_step jl)\<^sup>*\<^sup>* sv sv'" and "\<not> accepting sv"
  shows "\<not> accepting sv' \<and> next_ref sv' = next_ref sv"
  using assms by (induction rule: rtranclp_induct) (auto dest: stopped_step)

section \<open>A small server for the witnesses\<close>

definition demo_socket :: "string \<Rightarrow> socket" where
  "demo_socket ip = \<lparr>sk_open = True, sk_peer = (ip, 5000), sk_connected = True, sk_close_fails = False, sk_reads = 0, sk_writes = [], sk_sent = []\<rparr>"

definition demo_server :: server where
  "demo_server = server_ctor (Some ''10.0.0.1'') (data_handler_ctor 8 ''s3'' 0) (demo_world\<lparr>strand_idle := \<lambda>_. True\<rparr>)"

definition demo_server1 :: server where
  "demo_server1 = snd (on_accept (Accepted (demo_socket ''10.0.0.1'')) 0 demo_server)"

lemma demo_server_init: "sys_init config_json (Some ''10.0.0.1'') ''s3'' demo_server"
  unfolding sys_init_def
  by (rule exI [of _ 4], rule exI [of _ "heap demo_world"], rule exI [of _ "\<lambda>_. True"],
      rule exI [of _ 8], rule exI [of _ 0])
    (simp add: demo_server_def demo_world_def)

lemma fresh_demo_socket: "fresh_socket (demo_socket ip)"
  by (simp add: fresh_socket_def demo_socket_def)

lemma demo_server1_reach: "reach (sys_init config_json (Some ''10.0.0.1'') ''s3'') (sys_step jl) demo_server1"
proof (rule reach_step)
  show "reach (sys_init config_json (Some ''10.0.0.1'') ''s3'') (sys_step jl) demo_server"
    by (rule reach_init) (rule demo_server_init)
  have "accepting demo_server" by (simp add: demo_server_def server_ctor_def start_accept_def)
  then show "sys_step jl demo_server demo_server1"
    unfolding demo_server1_def
    by (intro sys_stepI sys_result.accept [where now = 0 and ev = "Accepted (demo_socket ''10.0.0.1'')"])
      (auto simp: fresh_demo_socket prod_eq_iff)
qed

lemma accept_session_alive:
  "alive (net (accept_session sk now sv)) = insert (next_ref sv) (alive (net sv))"
  using frame_do_read [of "next_ref sv" "registered sk now sv" False]
  by (simp add: accept_session_def session_start_def registered_def handler_frame_def Let_def)

lemma demo_allowed: "is_allowed ''10.0.0.1'' (allowed_ip_mgr demo_server)"
proof -
  have "getlines ''10.0.0.1'' = [''10.0.0.1'']"
    by (simp add: getlines.simps newline_def)
  then show ?thesis
    by (simp add: demo_server_def server_ctor_def start_accept_def is_allowed_def allowed_after_load
        trim_def ws_def entry_def)
qed

lemma demo_server1_alt: "demo_server1 =
     start_accept (accept_session (demo_socket ''10.0.0.1'') 0 (demo_server\<lparr>accepting := False\<rparr>))"
proof -
  have "is_allowed ''10.0.0.1'' (allowed_ip_mgr (demo_server\<lparr>accepting := False\<rparr>))"
    using demo_allowed by simp
  then show ?thesis
    unfolding demo_server1_def on_accept_def Let_def by (simp add: demo_socket_def remote_endpoint_def)
qed

lemma demo_server_simps [simp]:
  "next_ref demo_server = 0" "session_counter demo_server = 0"
  "net demo_server = demo_world\<lparr>strand_idle := \<lambda>_. True\<rparr>"
  by (simp_all add: demo_server_def server_ctor_def start_accept_def)

lemma demo_server1_alive: "0 \<in> alive (net demo_server1)" and demo_server1_next: "next_ref demo_server1 = 1"
  by (simp_all add: demo_server1_alt start_accept_def accept_session_alive)
    (simp add: accept_session_def Let_def)

text \<open>Its session logs in as bob.\<close>

definition demo_server2 :: server where
  "demo_server2 = demo_server1\<lparr>net :=
     snd (read_callback tiny ''s3'' 0 (ReadOk (frame_message ''s3L'')) (net demo_server1))\<rparr>"

lemma demo_server1_net:
  "net demo_server1 = do_read False 0 ((make_session (demo_socket ''10.0.0.1'') 0 0 0
     (demo_world\<lparr>strand_idle := \<lambda>_. True\<rparr>))\<lparr>manager := snd (sm_add 0 0 (session_manager_ctor 4))\<rparr>)"
proof -
  let ?w = "make_session (demo_socket ''10.0.0.1'') 0 0 0 (demo_world\<lparr>strand_idle := \<lambda>_. True\<rparr>)"
  have "add_session 0 ?w = ?w\<lparr>manager := snd (sm_add 0 0 (session_manager_ctor 4))\<rparr>"
    by (simp add: add_session_alt sm_find_ctor)
  then show ?thesis
    by (simp add: demo_server1_alt start_accept_def accept_session_def session_start_def Let_def)
qed

lemma demo_server1_session:
  "heap (net demo_server1) 0 = start_read ((session_ctor (demo_socket ''10.0.0.1'') 0 0)
     \<lparr>read_pending := True, task_running := True\<rparr>)"
  and demo_server1_manager: "nickname_index (manager (net demo_server1)) = Map.empty"
  and demo_server1_handler: "handler_alive (net demo_server1)"
proof -
  let ?w = "(make_session (demo_socket ''10.0.0.1'') 0 0 0
     (demo_world\<lparr>strand_idle := \<lambda>_. True\<rparr>))\<lparr>manager := snd (sm_add 0 0 (session_manager_ctor 4))\<rparr>"
  have s: "sstate (heap ?w 0) = Handshaking" "\<not> read_pending (heap ?w 0)" "task_queue (heap ?w 0) = []"
    "\<not> task_running (heap ?w 0)" "runs_now False 0 ?w" "strand_jobs (heap ?w 0) = []"
    by (simp_all add: session_ctor_def runs_now_def make_session_def)
  show "heap (net demo_server1) 0 = start_read ((session_ctor (demo_socket ''10.0.0.1'') 0 0)
     \<lparr>read_pending := True, task_running := True\<rparr>)"
    unfolding demo_server1_net using s
    by (simp add: do_read_alt post_task_def post_task_job_def config_json_limits runs_now_def read_ops
        Let_def)
  show "nickname_index (manager (net demo_server1)) = Map.empty" "handler_alive (net demo_server1)"
    using frame_do_read [of 0 ?w False] unfolding demo_server1_net
    by (simp_all add: do_read_alt post_task_def post_task_job_def) (simp_all add: session_manager_ctor_def)
qed

lemma demo_server1_secret: "dh_secret (dh demo_server1) = ''s3''"
  by (simp add: demo_server1_alt start_accept_def accept_session_def demo_server_def server_ctor_def
      data_handler_ctor_def Let_def)

lemma demo_server2_reach:
  "reach (sys_init config_json (Some ''10.0.0.1'') ''s3'') (sys_step tiny) demo_server2"
  unfolding demo_server2_def demo_server1_secret [symmetric]
proof (rule reach_step [OF demo_server1_reach [of tiny, unfolded demo_server1_secret [symmetric]]], rule sys_stepI,
    rule sys_result.read [where res = "ReadOk (frame_message ''s3L'')", OF _ _ _ _ prod.collapse [symmetric]])
  show "0 < sk_reads (sock (heap (net demo_server1) 0))"
    by (simp add: demo_server1_session start_read_def)
qed (auto simp: demo_server1_alive frame_message_def)

lemma feed_one:
  "1 \<le> length m \<Longrightarrow> length m \<le> 4096 \<Longrightarrow> feed empty_msgbuf (frame_message m) = ([m], empty_msgbuf)"
  using parse_stream_frame [of m "[]"]
  by (simp add: feed_def extract_all_parse mb_append_def empty_msgbuf_def parse_stream.simps [of "[]"])

lemma tiny_login_dispatch:
  assumes "\<not> nickname_registered (heap w r)" and "nickname_index (manager w) = Map.empty"
  shows "dispatch tiny (message_dispatcher_ctor tiny ''s3'') r ''s3L'' w
    = return (post_write True r login_ok (login_commit ''bob'' r w))"
  using assms tiny_login_simps
  by (simp add: dispatch_def dispatch_type_def has_secret_prefix_def ctor_handlers login_handler_def
      find_session_by_nickname_def Let_def)

lemma demo_server2_bob:
  "0 \<in> alive (net demo_server2)" "nickname_registered (heap (net demo_server2) 0)"
  "\<not> closed (heap (net demo_server2) 0)" "nickname (heap (net demo_server2) 0) = ''bob''"
proof -
  let ?w = "net demo_server1" and ?d = "frame_message ''s3L''"
  let ?a = "after_messages tiny ''s3'' 0 ?d ?w"
  define w0 where "w0 = upd 0 (append_data ?d) (upd 0 read_done ?w)"
  define w1 where "w1 = login_commit ''bob'' 0 w0"
  have buf: "msg_buf (heap ?w 0) = empty_msgbuf"
    by (simp add: demo_server1_session start_read_def session_ctor_def)
  have f: "feed (msg_buf (heap ?w 0)) ?d = ([''s3L''], empty_msgbuf)" by (simp add: buf feed_one)
  have w0: "\<not> nickname_registered (heap w0 0)" "nickname_index (manager w0) = Map.empty" "handler_alive w0"
    "write_queue (heap w0 0) = []" "\<not> closed (heap w0 0)" "app_config w0 = config_json"
    using demo_server1_manager demo_server1_handler
    by (simp_all add: w0_def read_ops demo_server1_session session_ctor_def)
      (simp add: demo_server1_net do_read_alt post_task_def post_task_job_def)
  have "handle_one tiny ''s3'' 0 ''s3L'' w0 = post_write True 0 login_ok w1"
    using w0(3) tiny_login_dispatch [OF w0(1,2)]
    by (simp add: handle_one_def handle_packet_def data_handler_dispatch_def w1_def)
  then have a: "?a = set_buf 0 empty_msgbuf (post_write True 0 login_ok w1)"
    by (simp add: after_messages_def f flip: w0_def)
  have h1: "heap w1 0 = on_nickname_registered ((heap w0 0)\<lparr>nickname := ''bob''\<rparr>)" "app_config w1 = config_json"
    using w0(6) by (simp_all add: w1_def login_commit_def)
  have st: "nickname_registered (heap ?a 0)" "\<not> closed (heap ?a 0)" "nickname (heap ?a 0) = ''bob''"
    "sstate (heap ?a 0) = Ready" "app_config ?a = config_json"
    using w0(4,5) by (simp_all add: a h1 post_write_def runs_now_def on_nickname_registered_def)
      (simp add: write_ops config_json_limits)
  have inv: "read_inv (heap ?w 0)"
    using reach_inv [OF demo_server1_reach] demo_server1_alive by (simp add: config_json_limits sys_inv_def)
  have reading: "0 < sk_reads (sock (heap ?w 0))"
    by (simp add: demo_server1_session start_read_def)
  have v: "read_view (heap ?a 0) = (0, False, [], True, [])"
    using inv reading by (simp add: read_view_after_messages read_view_read_done)
  have n: "net demo_server2 = upd 0 run_next_task (do_read True 0 ?a)"
    by (simp add: demo_server2_def read_callback_ok' f empty_msgbuf_def)
  have h: "heap (net demo_server2) 0 = start_read ((heap ?a 0)\<lparr>read_pending := True\<rparr>)"
    unfolding n using do_read_next [OF v] st(4,5) by (simp add: config_json_limits)
  show "nickname_registered (heap (net demo_server2) 0)" "\<not> closed (heap (net demo_server2) 0)"
    "nickname (heap (net demo_server2) 0) = ''bob''"
    using st by (simp_all add: h start_read_def)
  show "0 \<in> alive (net demo_server2)"
    using frame_read_callback [of 0 ?w tiny "''s3''" "ReadOk ?d"] demo_server1_alive
    by (simp add: demo_server2_def handler_frame_def)
qed

section \<open>Properties\<close>

text \<open>
  C1. In every reachable state of the server, every live session is connected to an address that is
  a line of the whitelist file, and without a readable file no session ever exists. The address is
  the one of the connection, whatever has become of it; what the session reports as the client's
  is that address as long as its socket is open and the peer there, and unknown afterwards.
\<close>

theorem only_whitelisted_peers:
  assumes "reach (sys_init cfg f sec) (sys_step jl) sv" and "1 \<le> max_task_queue cfg"
    and "r \<in> alive (net sv)"
    and "s = heap (net sv) r" and "ip = fst (sk_peer (sock s))"
  shows "(\<exists>txt. f = Some txt \<and> ip \<in> trim ` set (getlines txt) \<and> entry ip)
    \<and> get_client_ip s = (if sk_open (sock s) \<and> sk_connected (sock s) then ip else ''unknown'')"
proof -
  have "session_good cfg f s"
    using reach_inv [OF assms(1,2)] assms(3,4) by (simp add: sys_inv_def sys_core_def)
  moreover have "allowed_ips (snd (ip_load None m)) = {}" for m by (simp add: ip_load_def)
  ultimately show ?thesis
    by (cases f) (auto simp: session_good_def get_client_ip_def remote_endpoint_def is_allowed_def allowed_after_load
        assms(5) split: prod.split)
qed

theorem only_whitelisted_peers_witness:
  "get_client_ip (heap (net demo_server1) 0) = ''10.0.0.1''"
proof -
  have "getlines ''10.0.0.1'' = [''10.0.0.1'']" by (simp add: getlines.simps newline_def)
  moreover have "sk_open (sock (heap (net demo_server1) 0))" "sk_connected (sock (heap (net demo_server1) 0))"
    by (simp_all add: demo_server1_session start_read_def demo_socket_def)
  ultimately show ?thesis
    using only_whitelisted_peers [OF demo_server1_reach _ demo_server1_alive refl refl]
    by (auto simp: config_json_limits trim_def ws_def)
qed

text \<open>
  C2. The server never goes deaf on an open session, and never reads twice: in every reachable
  state a live session has at most one read outstanding or waiting for its strand, its guard is
  set exactly when it has one, and an open session always has one.
\<close>

theorem open_session_always_reads:
  assumes "reach (sys_init cfg f sec) (sys_step jl) sv" and "1 \<le> max_task_queue cfg"
    and "r \<in> alive (net sv)" and "s = heap (net sv) r"
  shows "reads_pending s \<le> 1 \<and> (read_pending s \<longleftrightarrow> reads_pending s = 1)
    \<and> (reads_pending s = 1 \<or> closed s)"
proof -
  have "read_inv s" using reach_inv [OF assms(1,2)] assms(3,4) by (simp add: sys_inv_def)
  then show ?thesis by (auto simp: read_inv_def)
qed

theorem open_session_always_reads_witness: "reads_pending (heap (net demo_server1) 0) \<le> 1"
  using open_session_always_reads [OF demo_server1_reach _ demo_server1_alive refl]
  by (simp add: config_json_limits)

text \<open>
  C3. In every reachable state the registry names only live sessions, each under its own id, and
  until 2^32 connections have been accepted it names every open session.
\<close>

theorem registry_matches_open_sessions:
  assumes "reach (sys_init cfg f sec) (sys_step jl) sv" and "1 \<le> max_task_queue cfg" and "w = net sv"
  shows "(\<forall>i r. sm_find i (manager w) = Some r \<longrightarrow> r \<in> alive w \<and> session_id (heap w r) = i)
    \<and> (next_ref sv \<le> 2 ^ 32 \<longrightarrow> (\<forall>r \<in> alive w. \<not> closed (heap w r) \<longrightarrow>
          sm_find (session_id (heap w r)) (manager w) = Some r))"
proof -
  have "registry_sound w" "next_ref sv \<le> 2 ^ 32 \<longrightarrow> registry_complete w"
    using reach_inv [OF assms(1,2)] assms(3) by (simp_all add: sys_inv_def sys_core_def)
  then show ?thesis unfolding registry_sound_def registry_complete_def by blast
qed

theorem registry_matches_open_sessions_witness:
  "sm_find (session_id (heap (net demo_server1) 0)) (manager (net demo_server1)) = Some 0"
proof -
  have "\<not> closed (heap (net demo_server1) 0)"
    by (simp add: demo_server1_session start_read_def session_ctor_def)
  then show ?thesis
    using registry_matches_open_sessions [OF demo_server1_reach _ refl] demo_server1_alive demo_server1_next
    by (simp add: config_json_limits)
qed

text \<open>
  C4. In every reachable state of the server no two live open sessions are logged in under the
  same nickname, and the index leads from the nickname to its session.
\<close>

theorem server_nicknames_unique:
  assumes "reach (sys_init cfg f sec) (sys_step jl) sv" and "1 \<le> max_task_queue cfg" and "w = net sv"
    and "a \<in> alive w" and "nickname_registered (heap w a)" and "\<not> closed (heap w a)"
  shows "find_session_by_nickname (alive w) (nickname (heap w a)) (manager w) = Some a
    \<and> (\<forall>b \<in> alive w. nickname_registered (heap w b) \<and> \<not> closed (heap w b)
          \<and> nickname (heap w b) = nickname (heap w a) \<longrightarrow> b = a)"
proof -
  have n: "nick_inv w" using reach_inv [OF assms(1,2)] assms(3) by (simp add: sys_inv_def sys_core_def)
  then have "nickname_index (manager w) (nickname (heap w a)) = Some a"
    using assms(4-6) by (simp add: nick_inv_def)
  then have "find_session_by_nickname (alive w) (nickname (heap w a)) (manager w) = Some a"
    using assms(4) by (simp add: find_session_by_nickname_def weak_lock_def)
  moreover have "b = a" if "b \<in> alive w" "nickname_registered (heap w b)" "\<not> closed (heap w b)"
      "nickname (heap w b) = nickname (heap w a)" for b
    using n that \<open>nickname_index (manager w) (nickname (heap w a)) = Some a\<close>
    unfolding nick_inv_def by (metis option.inject)
  ultimately show ?thesis by blast
qed

theorem server_nicknames_unique_witness:
  "find_session_by_nickname (alive (net demo_server2)) ''bob'' (manager (net demo_server2)) = Some 0"
  using server_nicknames_unique [OF demo_server2_reach _ refl demo_server2_bob(1,2,3)] demo_server2_bob(4)
  by (simp add: config_json_limits)

text \<open>
  C18. In every reachable state, with a configured write queue of at least 2, every live session
  has at most one write outstanding, never pops an empty queue, and keeps its queue within the
  configured size.
\<close>

theorem server_writes_sound:
  assumes "reach (sys_init cfg f sec) (sys_step jl) sv" and "1 \<le> max_task_queue cfg"
    and "2 \<le> max_write_queue_size cfg" and "r \<in> alive (net sv)" and "s = heap (net sv) r"
  shows "length (sk_writes (sock s)) \<le> 1 \<and> \<not> ub s \<and> length (write_queue s) \<le> max_write_queue_size cfg"
  using reach_inv [OF assms(1,2)] assms(3-5)
  by (auto simp: sys_inv_def sys_core_def session_good_def write_inv_def)

theorem server_writes_sound_witness: "length (sk_writes (sock (heap (net demo_server1) 0))) \<le> 1"
  using server_writes_sound [OF demo_server1_reach _ _ demo_server1_alive refl]
  by (simp add: config_json_limits)

text \<open>
  C26. A peer that is gone when its connection is accepted makes \<open>remote_endpoint()\<close> throw in the
  accept handler, and so does closing a blocked connection when the close reports an error; the next
  accept is then never started: whatever happens afterwards, the server accepts no connection again.
\<close>

theorem accept_loop_ends:
  assumes "on_accept (Accepted sk) now sv = (e, sv1)" 
    and "remote_endpoint sk = None \<or> sk_close_fails sk \<and> \<not> is_allowed (fst (sk_peer sk)) (allowed_ip_mgr sv)"
    and "(sys_step jl)\<^sup>*\<^sup>* sv1 sv2"
  shows "e = Some StdException \<and> \<not> accepting sv2 \<and> next_ref sv2 = next_ref sv"
proof -
  have "sv1 = sv\<lparr>accepting := False\<rparr>" "e = Some StdException"
    using assms(1,2) by (auto simp: on_accept_def remote_endpoint_def Let_def split: option.splits if_splits)
  then show ?thesis using stopped_steps [OF assms(3)] by simp
qed

theorem accept_loop_ends_witness:
  "\<not> accepting (snd (on_accept (Accepted ((demo_socket [])\<lparr>sk_connected := False\<rparr>)) 0 demo_server))"
  using accept_loop_ends [of "(demo_socket [])\<lparr>sk_connected := False\<rparr>" 0 demo_server _ _ tiny,
      OF prod.collapse [symmetric] _ rtranclp.rtrancl_refl]
  by (simp add: remote_endpoint_def)

end
