(* ===== verification/Mysql_Pool.thy ===== *)
theory Mysql_Pool
  imports Prelude
begin

text \<open>
  The database connection pool (\<open>MySqlPool\<close>): a bounded FIFO of idle connections, filled by
  the constructor, borrowed with \<open>acquire\<close> (a new connection when none is idle) and given back
  with \<open>release\<close>. The MySQL connector is a parameter: a driver record whose calls read and
  update a state of the outside world, so that two calls may answer differently. The theory
  gives the functional behaviour of every operation, the contract of a bounded resource pool
  with its interpretation, and the ownership invariant of the pool with its borrowers.
\<close>

section \<open>State and operations\<close>

record ('c, 'w) driver =
  open_session :: "string \<Rightarrow> u32 \<Rightarrow> string \<Rightarrow> string \<Rightarrow> 'w \<Rightarrow> (exn + 'c) \<times> 'w"
  execute_sql :: "'c \<Rightarrow> string \<Rightarrow> 'w \<Rightarrow> exn option \<times> 'w"

record 'c mysql_pool =
  mp_host :: string
  mp_port :: u32
  mp_user :: string
  mp_pass :: string
  mp_schema :: string
  mp_capacity :: u64
  mp_pool :: "'c list"

definition new_connection :: "('c, 'w) driver \<Rightarrow> 'c mysql_pool \<Rightarrow> 'w \<Rightarrow> (exn + 'c) \<times> 'w" where
  "new_connection d p w =
     (case open_session d (mp_host p) (mp_port p) (mp_user p) (mp_pass p) w of
        (Inl e, w1) \<Rightarrow> (Inl e, w1)
      | (Inr c, w1) \<Rightarrow>
          if mp_schema p \<noteq> []
          then (case execute_sql d c (''USE '' @ mp_schema p) w1 of
                  (Some e, w2) \<Rightarrow> (Inl e, w2)
                | (None, w2) \<Rightarrow> (Inr c, w2))
          else (Inr c, w1))"

text \<open>
  The slot loop of the constructor: both \<open>catch\<close> clauses count a failure and go on, any other
  exception leaves the constructor. The result carries the two counters that are logged.
\<close>

fun init_slots :: "('c, 'w) driver \<Rightarrow> nat \<Rightarrow> 'c mysql_pool \<Rightarrow> nat \<Rightarrow> nat \<Rightarrow> 'w
    \<Rightarrow> (exn + 'c mysql_pool \<times> nat \<times> nat) \<times> 'w" where
  "init_slots d 0 p ok bad w = (Inr (p, ok, bad), w)"
| "init_slots d (Suc n) p ok bad w =
     (case new_connection d p w of
        (Inr c, w1) \<Rightarrow> init_slots d n (p\<lparr>mp_pool := mp_pool p @ [c]\<rparr>) (ok + 1) bad w1
      | (Inl MysqlxError, w1) \<Rightarrow> init_slots d n p ok (bad + 1) w1
      | (Inl StdException, w1) \<Rightarrow> init_slots d n p ok (bad + 1) w1
      | (Inl OtherException, w1) \<Rightarrow> (Inl OtherException, w1))"

definition mysql_pool_ctor :: "('c, 'w) driver \<Rightarrow> string \<Rightarrow> u32 \<Rightarrow> string \<Rightarrow> string \<Rightarrow> string
    \<Rightarrow> u64 \<Rightarrow> 'w \<Rightarrow> (exn + 'c mysql_pool \<times> nat \<times> nat) \<times> 'w" where
  "mysql_pool_ctor d host port user pass schema pool_size w =
     init_slots d (unat pool_size)
       \<lparr>mp_host = host, mp_port = port, mp_user = user, mp_pass = pass, mp_schema = schema,
        mp_capacity = pool_size, mp_pool = []\<rparr> 0 0 w"

definition pool_acquire :: "('c, 'w) driver \<Rightarrow> 'c mysql_pool \<Rightarrow> 'w
    \<Rightarrow> 'c option \<times> 'c mysql_pool \<times> 'w" where
  "pool_acquire d p w =
     (case mp_pool p of
        c # cs \<Rightarrow> (Some c, p\<lparr>mp_pool := cs\<rparr>, w)
      | [] \<Rightarrow> (case new_connection d p w of
                (Inr c, w1) \<Rightarrow> (Some c, p, w1)
              | (Inl e, w1) \<Rightarrow> (None, p, w1)))"

definition pool_release :: "'c option \<Rightarrow> 'c mysql_pool \<Rightarrow> 'c mysql_pool" where
  "pool_release session p =
     (case session of
        None \<Rightarrow> p
      | Some c \<Rightarrow> if length (mp_pool p) < unat (mp_capacity p)
                  then p\<lparr>mp_pool := mp_pool p @ [c]\<rparr> else p)"

section \<open>The constructor\<close>

text \<open>The outcomes of \<open>n\<close> connection attempts in a row, and the world after them.\<close>

fun attempts :: "('c, 'w) driver \<Rightarrow> 'c mysql_pool \<Rightarrow> nat \<Rightarrow> 'w \<Rightarrow> (exn + 'c) list \<times> 'w" where
  "attempts d p 0 w = ([], w)"
| "attempts d p (Suc n) w =
     (case new_connection d p w of (r, w1) \<Rightarrow>
        (case attempts d p n w1 of (rs, w2) \<Rightarrow> (r # rs, w2)))"

definition made :: "(exn + 'c) list \<Rightarrow> 'c list" where
  "made rs = [c. Inr c \<leftarrow> rs]"

lemma made_simps [simp]: "made [] = []" "made (Inr c # rs) = c # made rs" "made (Inl e # rs) = made rs"
  by (simp_all add: made_def)

lemma length_attempts: "length (fst (attempts d p n w)) = n"
  by (induction n arbitrary: w) (auto split: prod.splits, metis fst_conv)

lemma new_connection_pool [simp]:
  "new_connection d (p\<lparr>mp_pool := xs\<rparr>) w = new_connection d p w"
  by (simp add: new_connection_def split: prod.split sum.split)

lemma attempts_pool [simp]: "attempts d (p\<lparr>mp_pool := xs\<rparr>) n w = attempts d p n w"
  by (induction n arbitrary: w) simp_all

lemma length_made_le: "length (made rs) \<le> length rs"
  by (induction rs) (auto simp: made_def split: sum.splits)

lemma init_slots_attempts:
  assumes "attempts d p n w = (rs, w')" and "Inl OtherException \<notin> set rs"
  shows "init_slots d n p ok bad w =
    (Inr (p\<lparr>mp_pool := mp_pool p @ made rs\<rparr>, ok + length (made rs),
          bad + (length rs - length (made rs))), w')"
  using assms
proof (induction n arbitrary: p ok bad w rs)
  case 0
  then show ?case by simp
next
  case (Suc n)
  obtain r w1 where r: "new_connection d p w = (r, w1)" by (cases "new_connection d p w")
  obtain rs' where rs': "attempts d p n w1 = (rs', w')" and rs: "rs = r # rs'"
    using Suc.prems(1) r by (auto split: prod.splits)
  have no: "Inl OtherException \<notin> set rs'" using Suc.prems(2) rs by simp
  have len: "length (made rs') \<le> length rs'" by (rule length_made_le)
  show ?case
  proof (cases r)
    case (Inl e)
    then have "e \<noteq> OtherException" using Suc.prems(2) rs by auto
    then show ?thesis using Inl r rs Suc.IH [OF rs' no] len
      by (cases e) (simp_all add: Suc_diff_le)
  next
    case (Inr c)
    have "attempts d (p\<lparr>mp_pool := mp_pool p @ [c]\<rparr>) n w1 = (rs', w')" using rs' by simp
    from Suc.IH [OF this no] show ?thesis using Inr r rs by simp
  qed
qed

section \<open>The contract of a bounded pool\<close>

locale bounded_pool =
  fixes idle :: "'p \<Rightarrow> 'c list"
    and limit :: "'p \<Rightarrow> nat"
    and get :: "'p \<Rightarrow> 'w \<Rightarrow> 'c option \<times> 'p \<times> 'w"
    and put :: "'c option \<Rightarrow> 'p \<Rightarrow> 'p"
  assumes get_first: "idle p = c # cs \<Longrightarrow> \<exists>p'. get p w = (Some c, p', w) \<and> idle p' = cs"
    and get_empty: "idle p = [] \<Longrightarrow> get p w = (r, p', w') \<Longrightarrow> idle p' = []"
    and get_limit: "get p w = (r, p', w') \<Longrightarrow> limit p' = limit p"
    and put_none: "put None p = p"
    and put_room: "length (idle p) < limit p \<Longrightarrow> idle (put (Some c) p) = idle p @ [c]"
    and put_full: "limit p \<le> length (idle p) \<Longrightarrow> idle (put (Some c) p) = idle p"
    and put_limit: "limit (put r p) = limit p"
begin

lemma put_bound: "length (idle p) \<le> limit p \<Longrightarrow> length (idle (put r p)) \<le> limit (put r p)"
  by (cases r; cases "length (idle p) < limit p")
    (auto simp: put_none put_room put_full put_limit)

lemma get_bound:
  assumes "length (idle p) \<le> limit p" and "get p w = (r, p', w')"
  shows "length (idle p') \<le> limit p'"
proof (cases "idle p")
  case Nil
  then show ?thesis using get_empty assms(2) by simp
next
  case (Cons c cs)
  then have "idle p' = cs" using get_first [of p c cs w] assms(2) by auto
  then show ?thesis using Cons assms get_limit by fastforce
qed

lemma borrow_return:
  assumes "length (idle p) \<le> limit p" and "idle p = c # cs"
  shows "\<exists>p'. get p w = (Some c, p', w) \<and> idle (put (Some c) p') = cs @ [c]"
proof -
  obtain p' where g: "get p w = (Some c, p', w)" and i: "idle p' = cs"
    using get_first [OF assms(2)] by blast
  have "length (idle p') < limit p'" using assms i get_limit [OF g] by simp
  then show ?thesis using g i put_room by auto
qed

end

interpretation mysql: bounded_pool mp_pool "\<lambda>p. unat (mp_capacity p)" "pool_acquire d" pool_release
  for d :: "('c, 'w) driver"
  by unfold_locales
    (auto simp: pool_acquire_def pool_release_def split: list.splits prod.splits sum.splits option.splits)

section \<open>The pool and its borrowers\<close>

text \<open>
  A state of the whole: the pool, the connections held by clients (each in a \<open>unique_ptr\<close>), the
  outside world. Clients acquire, release what they hold, or destroy it.
\<close>

record ('c, 'w) pool_sys =
  ps_pool :: "'c mysql_pool"
  ps_lent :: "'c list"
  ps_world :: 'w

inductive pool_step :: "('c, 'w) driver \<Rightarrow> ('c, 'w) pool_sys \<Rightarrow> ('c, 'w) pool_sys \<Rightarrow> bool"
  for d :: "('c, 'w) driver" where
  borrow: "pool_acquire d (ps_pool s) (ps_world s) = (Some c, p', w') \<Longrightarrow>
     pool_step d s \<lparr>ps_pool = p', ps_lent = c # ps_lent s, ps_world = w'\<rparr>"
| borrow_fails: "pool_acquire d (ps_pool s) (ps_world s) = (None, p', w') \<Longrightarrow>
     pool_step d s \<lparr>ps_pool = p', ps_lent = ps_lent s, ps_world = w'\<rparr>"
| give_back: "c \<in> set (ps_lent s) \<Longrightarrow>
     pool_step d s (s\<lparr>ps_pool := pool_release (Some c) (ps_pool s), ps_lent := remove1 c (ps_lent s)\<rparr>)"
| destroy: "c \<in> set (ps_lent s) \<Longrightarrow> pool_step d s (s\<lparr>ps_lent := remove1 c (ps_lent s)\<rparr>)"

definition pool_init :: "('c, 'w) driver \<Rightarrow> ('c, 'w) pool_sys \<Rightarrow> bool" where
  "pool_init d s \<longleftrightarrow> ps_lent s = [] \<and>
     (\<exists>host port user pass schema n w ok bad.
        mysql_pool_ctor d host port user pass schema n w = (Inr (ps_pool s, ok, bad), ps_world s))"

text \<open>
  What the pool relies on in the connector: a new session is not one of those already issued,
  and what was issued stays issued.
\<close>

definition fresh_driver :: "('c, 'w) driver \<Rightarrow> ('w \<Rightarrow> 'c set) \<Rightarrow> bool" where
  "fresh_driver d issued \<longleftrightarrow>
     (\<forall>h po u pw w r w'. open_session d h po u pw w = (r, w') \<longrightarrow>
        issued w \<subseteq> issued w' \<and> (\<forall>c. r = Inr c \<longrightarrow> c \<notin> issued w \<and> c \<in> issued w')) \<and>
     (\<forall>c q w r w'. execute_sql d c q w = (r, w') \<longrightarrow> issued w \<subseteq> issued w')"

definition pool_inv :: "('w \<Rightarrow> 'c set) \<Rightarrow> ('c, 'w) pool_sys \<Rightarrow> bool" where
  "pool_inv issued s \<longleftrightarrow>
     distinct (mp_pool (ps_pool s) @ ps_lent s)
     \<and> set (mp_pool (ps_pool s) @ ps_lent s) \<subseteq> issued (ps_world s)
     \<and> length (mp_pool (ps_pool s)) \<le> unat (mp_capacity (ps_pool s))"

lemma new_connection_fresh:
  assumes "fresh_driver d issued" and "new_connection d p w = (r, w')"
  shows "issued w \<subseteq> issued w'" and "r = Inr c \<Longrightarrow> c \<notin> issued w \<and> c \<in> issued w'"
  using assms unfolding fresh_driver_def new_connection_def
  by (auto split: prod.splits sum.splits option.splits if_splits) blast+

lemma init_slots_inv:
  assumes "fresh_driver d issued"
  shows "init_slots d n p ok bad w = (Inr (p', ok', bad'), w') \<Longrightarrow>
     distinct (mp_pool p) \<Longrightarrow> set (mp_pool p) \<subseteq> issued w \<Longrightarrow>
     distinct (mp_pool p') \<and> set (mp_pool p') \<subseteq> issued w' \<and> mp_capacity p' = mp_capacity p
     \<and> length (mp_pool p') \<le> length (mp_pool p) + n"
proof (induction n arbitrary: p ok bad w)
  case 0
  then show ?case by simp
next
  case (Suc n)
  obtain r w1 where r: "new_connection d p w = (r, w1)" by (cases "new_connection d p w")
  note fresh = new_connection_fresh [OF assms r]
  show ?case
  proof (cases r)
    case (Inl e)
    with Suc.prems r have "init_slots d n p ok (bad + 1) w1 = (Inr (p', ok', bad'), w')"
      by (cases e) auto
    moreover have "set (mp_pool p) \<subseteq> issued w1" using Suc.prems(3) fresh(1) by blast
    ultimately show ?thesis using Suc.IH [of p ok "bad + 1" w1] Suc.prems(2) by simp
  next
    case (Inr c)
    let ?p = "p\<lparr>mp_pool := mp_pool p @ [c]\<rparr>"
    have "init_slots d n ?p (ok + 1) bad w1 = (Inr (p', ok', bad'), w')"
      using Suc.prems(1) r Inr by simp
    moreover have "distinct (mp_pool ?p)" "set (mp_pool ?p) \<subseteq> issued w1"
      using Suc.prems(2,3) fresh(1) fresh(2) [OF Inr] by auto
    ultimately show ?thesis using Suc.IH [of ?p "ok + 1" bad w1] by simp
  qed
qed

lemma pool_init_inv:
  assumes "fresh_driver d issued" and "pool_init d s"
  shows "pool_inv issued s"
  using assms init_slots_inv [OF assms(1)]
  by (fastforce simp: pool_init_def pool_inv_def mysql_pool_ctor_def)

lemma pool_acquire_inv:
  assumes "fresh_driver d issued" and "pool_inv issued s"
    and "pool_acquire d (ps_pool s) (ps_world s) = (r, p', w')"
  shows "pool_inv issued
    \<lparr>ps_pool = p', ps_lent = (case r of None \<Rightarrow> ps_lent s | Some c \<Rightarrow> c # ps_lent s), ps_world = w'\<rparr>"
proof (cases "mp_pool (ps_pool s)")
  case (Cons c cs)
  with assms(2,3) show ?thesis by (auto simp: pool_acquire_def pool_inv_def)
next
  case Nil
  obtain x w1 where x: "new_connection d (ps_pool s) (ps_world s) = (x, w1)"
    by (cases "new_connection d (ps_pool s) (ps_world s)")
  note fresh = new_connection_fresh [OF assms(1) x]
  show ?thesis
    using assms(2,3) Nil x fresh(1) fresh(2)
    by (cases x) (auto simp: pool_acquire_def pool_inv_def)
qed

lemma pool_step_inv:
  assumes "fresh_driver d issued" and "pool_inv issued s" and "pool_step d s t"
  shows "pool_inv issued t"
  using assms(3,2)
proof (induction rule: pool_step.induct)
  case (borrow s c p' w')
  from pool_acquire_inv [OF assms(1) borrow.prems borrow.hyps] show ?case by simp
next
  case (borrow_fails s p' w')
  from pool_acquire_inv [OF assms(1) borrow_fails.prems borrow_fails.hyps] show ?case by simp
next
  case (give_back c s)
  then have "length (mp_pool (pool_release (Some c) (ps_pool s)))
      \<le> unat (mp_capacity (pool_release (Some c) (ps_pool s)))"
    using mysql.put_bound [of "ps_pool s" "Some c"] by (simp add: pool_inv_def)
  with give_back show ?case
    by (auto simp: pool_inv_def pool_release_def dest: in_set_remove1 [THEN iffD1, rotated]
        notin_set_remove1 set_remove1_subset [THEN subsetD])
next
  case (destroy c s)
  then show ?case
    by (auto simp: pool_inv_def dest: set_remove1_subset [THEN subsetD])
qed

section \<open>A concrete driver\<close>

text \<open>Connections are numbers, the world is the next number; every third attempt fails.\<close>

definition counting_driver :: "(nat, nat) driver" where
  "counting_driver =
     \<lparr>open_session = (\<lambda>h po u pw w. if w mod 3 = 2 then (Inl MysqlxError, Suc w) else (Inr w, Suc w)),
      execute_sql = (\<lambda>c q w. (None, w))\<rparr>"

lemma counting_driver_fresh: "fresh_driver counting_driver (\<lambda>w. {..<w})"
  by (auto simp: fresh_driver_def counting_driver_def split: if_splits)

definition counting_pool :: "nat mysql_pool" where
  "counting_pool = \<lparr>mp_host = ''h'', mp_port = 33060, mp_user = ''u'', mp_pass = ''p'',
     mp_schema = ''mydb'', mp_capacity = 4, mp_pool = [0, 1, 3]\<rparr>"

lemma four_slots:
  "init_slots d 4 p ok bad w = init_slots d (Suc (Suc (Suc (Suc 0)))) p ok bad w"
  "attempts d p 4 w = attempts d p (Suc (Suc (Suc (Suc 0)))) w"
  by (simp_all only: eval_nat_numeral BitM.simps One_nat_def)

lemma counting_connection:
  "mp_schema p = ''mydb'' \<Longrightarrow> new_connection counting_driver p w =
     (if w mod 3 = 2 then (Inl MysqlxError, Suc w) else (Inr w, Suc w))"
  by (simp add: new_connection_def counting_driver_def)

lemma counting_ctor:
  "mysql_pool_ctor counting_driver ''h'' 33060 ''u'' ''p'' ''mydb'' 4 0 = (Inr (counting_pool, 3, 1), 4)"
  by (simp add: mysql_pool_ctor_def counting_pool_def counting_connection four_slots)

lemma counting_reach:
  "reach (pool_init counting_driver) (pool_step counting_driver)
     \<lparr>ps_pool = counting_pool\<lparr>mp_pool := [1, 3]\<rparr>, ps_lent = [0], ps_world = 4\<rparr>"
proof -
  let ?s = "\<lparr>ps_pool = counting_pool, ps_lent = [], ps_world = 4\<rparr> :: (nat, nat) pool_sys"
  have "pool_init counting_driver ?s"
    using counting_ctor by (auto simp: pool_init_def intro!: exI)
  then have "reach (pool_init counting_driver) (pool_step counting_driver) ?s"
    by (rule reach_init)
  moreover have "pool_step counting_driver ?s
      \<lparr>ps_pool = counting_pool\<lparr>mp_pool := [1, 3]\<rparr>, ps_lent = [0], ps_world = 4\<rparr>"
    using borrow [of counting_driver ?s 0 "counting_pool\<lparr>mp_pool := [1, 3]\<rparr>" 4]
    by (simp add: pool_acquire_def counting_pool_def)
  ultimately show ?thesis by (rule reach_step)
qed

section \<open>Properties\<close>

text \<open>
  With a connector that never issues the same session twice, in every state the pool and its
  clients can reach, no connection is idle twice, lent twice, or idle and lent at once, and the
  idle connections never exceed the capacity.
\<close>

theorem connections_exclusively_owned:
  assumes "fresh_driver d issued"
    and "reach (pool_init d) (pool_step d) s"
  shows "distinct (mp_pool (ps_pool s) @ ps_lent s)
    \<and> length (mp_pool (ps_pool s)) \<le> unat (mp_capacity (ps_pool s))"
proof -
  have "pool_inv issued s"
    using assms(2)
    by (induction rule: reach.induct)
      (auto intro: pool_init_inv [OF assms(1)] pool_step_inv [OF assms(1)])
  then show ?thesis by (simp add: pool_inv_def)
qed

theorem connections_exclusively_owned_witness:
  "distinct ([1, 3] @ [0 :: nat]) \<and> length [1, 3 :: nat] \<le> 4"
  using connections_exclusively_owned [OF counting_driver_fresh counting_reach]
  by (simp add: counting_pool_def)

text \<open>
  The constructor makes one attempt per slot; as long as only MySQL and standard exceptions
  are thrown it returns a pool that holds exactly the connections made, in order, and counts
  every slot once, as made or as failed.
\<close>

theorem constructor_fills_the_slots:
  assumes p: "p = \<lparr>mp_host = host, mp_port = port, mp_user = user, mp_pass = pass,
      mp_schema = schema, mp_capacity = n, mp_pool = []\<rparr>"
    and "attempts d p (unat n) w = (rs, w')" and "Inl OtherException \<notin> set rs"
  shows "mysql_pool_ctor d host port user pass schema n w =
      (Inr (p\<lparr>mp_pool := made rs\<rparr>, length (made rs), unat n - length (made rs)), w')"
  using init_slots_attempts [OF assms(2,3), of 0 0] length_attempts [of d p "unat n" w] assms(2)
  by (simp add: mysql_pool_ctor_def p)

theorem constructor_fills_the_slots_witness:
  "mysql_pool_ctor counting_driver ''h'' 33060 ''u'' ''p'' ''mydb'' 4 0 = (Inr (counting_pool, 3, 1), 4)"
  using constructor_fills_the_slots [where d = counting_driver and n = 4 and w = 0 and w' = 4
      and p = "counting_pool\<lparr>mp_pool := []\<rparr>" and rs = "[Inr 0, Inr 1, Inl MysqlxError, Inr 3]"
      and host = "''h''" and port = 33060 and user = "''u''" and pass = "''p''" and schema = "''mydb''"]
  by (simp add: counting_pool_def counting_connection four_slots)

text \<open>
  \<open>acquire\<close> answers without a connection only when none is idle and a new one cannot be
  made; an idle connection is handed out oldest first, without calling the connector, and giving
  it back puts it at the end of the queue.
\<close>

theorem acquire_then_release:
  assumes "length (mp_pool p) \<le> unat (mp_capacity p)"
  shows "((\<exists>p' w'. pool_acquire d p w = (None, p', w'))
      \<longleftrightarrow> mp_pool p = [] \<and> (\<exists>e w'. new_connection d p w = (Inl e, w')))
    \<and> (\<forall>c cs. mp_pool p = c # cs \<longrightarrow>
      (\<exists>p'. pool_acquire d p w = (Some c, p', w) \<and> mp_pool (pool_release (Some c) p') = cs @ [c]))"
  using mysql.borrow_return [OF assms]
  by (auto simp: pool_acquire_def split: list.splits prod.splits sum.splits)

theorem acquire_then_release_witness:
  "\<exists>p'. pool_acquire counting_driver counting_pool 7 = (Some 0, p', 7)
     \<and> mp_pool (pool_release (Some 0) p') = [1, 3, 0]"
  using acquire_then_release [of counting_pool counting_driver 7]
  by (simp add: counting_pool_def)

end
