(* ===== verification/Startup.thy ===== *)
theory Startup
  imports Server Mysql_Pool Utilities
begin

text \<open>
  The start of the program (\<open>main\<close>, \<open>getenv_or\<close>): what it reads from the environment, what makes
  it stop, and the state in which it starts to serve. The environment, the contents of the files,
  the number of hardware threads, the clock, whether the log file and the port can be opened, the
  JSON parser of the configuration and the MySQL connector are parameters, gathered in a record.
\<close>

section \<open>Reading the environment\<close>

definition getenv_or :: "env \<Rightarrow> string \<Rightarrow> string \<Rightarrow> string" where
  "getenv_or env k d = (case env k of Some v \<Rightarrow> v | None \<Rightarrow> d)"

text \<open>
  \<open>std::stoul\<close> in base 10 with a 64-bit \<open>unsigned long\<close>: leading white space, a sign, the longest
  run of digits; it throws when there is none or the value does not fit, and a minus sign negates
  modulo 2^64.
\<close>

definition stoul :: "string \<Rightarrow> exn + u64" where
  "stoul s =
     (let t = dropWhile c_isspace s;
          neg = (t \<noteq> [] \<and> hd t = CHR ''-'');
          u = (if t \<noteq> [] \<and> (hd t = CHR ''-'' \<or> hd t = CHR ''+'') then tl t else t);
          ds = takeWhile c_isdigit u in
      if ds = [] then Inl StdException
      else if 2 ^ 64 \<le> digits_value ds then Inl StdException
      else Inr (if neg then - word_of_nat (digits_value ds) else word_of_nat (digits_value ds)))"

section \<open>The main function\<close>

text \<open>
  \<open>Uncaught\<close>: an exception leaves \<open>main\<close>. \<open>Serving\<close>: the threads have been started, with the
  server, the number of threads and the database pool. The entry of the configuration that \<open>main\<close>
  writes for the database is read by nobody and left out.
\<close>

record 'w machine =
  environment :: env
  log_opens :: bool
  port_opens :: bool
  config_file :: "string option"
  whitelist_file :: "string option"
  parse_config :: "string \<Rightarrow> config option"
  hardware_concurrency :: u32
  clock :: int
  memory :: "sref \<Rightarrow> session"
  scheduler :: "sref \<Rightarrow> bool"
  database :: 'w

datatype 'c outcome =
    Uncaught
  | ExitCode nat
  | Serving server nat "'c mysql_pool"

definition main_prog :: "('c, 'w) driver \<Rightarrow> 'w machine \<Rightarrow> 'c outcome \<times> 'w" where
  "main_prog d mc =
     (let env = environment mc; w = database mc; hw = hardware_concurrency mc in
      case init_logger (log_opens mc) app_context_ctor of
        (Some e, ctx) \<Rightarrow> (Uncaught, w)
      | (None, ctx) \<Rightarrow>
     (case load_config (parse_config mc) (config_file mc) ctx of
        (Some e, ctx) \<Rightarrow> (Uncaught, w)
      | (None, ctx) \<Rightarrow>
     (let secret = get_env_secret env ''MY_SERVER_SECRET'' in
      if secret = [] then (ExitCode 0, w)
      else
       (let host = getenv_or env ''DB_HOST'' ''127.0.0.1'';
            port_str = getenv_or env ''DB_PORT'' ''33060'';
            user = getenv_or env ''DB_USER'' ''cppuser'';
            pass = getenv_or env ''DB_PASS'' ''cpppass'';
            schema = getenv_or env ''DB_NAME'' ''mydb'' in
        case stoul (getenv_or env ''DB_POOL_SIZE'' ''8'') of
          Inl e \<Rightarrow> (ExitCode 1, w)
        | Inr pool_size \<Rightarrow>
       (case stoul port_str of
          Inl e \<Rightarrow> (ExitCode 1, w)
        | Inr port \<Rightarrow>
       (case mysql_pool_ctor d host (ucast port) user pass schema pool_size w of
          (Inl e, w1) \<Rightarrow> (if e = OtherException then Uncaught else ExitCode 1, w1)
        | (Inr (pool, ok, bad), w1) \<Rightarrow>
            (let session_manager = session_manager_ctor (ucast (shard_count_for hw));
                 handler = data_handler_ctor hw secret (clock mc);
                 net = \<lparr>heap = memory mc, alive = {}, manager = session_manager,
                   app_config = ctx_config ctx, handler_alive = True, strand_idle = scheduler mc,
                   sql_log = []\<rparr>;
                 thread_count = (if hw = 0 then 4 else unat hw) in
             if \<not> port_opens mc then (ExitCode 1, w1)
             else (Serving (server_ctor (whitelist_file mc) handler net) thread_count pool, w1))))))))"

section \<open>Properties\<close>

lemma shard_count_for_bounds:
  assumes "unat hw < 2 ^ 30"
  shows "0 < unat (ucast (shard_count_for hw) :: u64)" and "unat (ucast (shard_count_for hw) :: u64) < 2 ^ 31"
proof -
  have e: "unat (ucast x :: u64) = unat x" for x :: u32
    by (simp add: unsigned_ucast_eq take_bit_nat_eq_self unsigned_less [of x, where ?'a = nat]
        less_trans [OF unsigned_less])
  have "unat (hw * 2) = unat hw * 2" using assms by (simp add: unat_word_ariths)
  then have "unat (shard_count_for hw) = max 4 (unat hw * 2)"
    by (simp add: shard_count_for_def max_def word_le_nat_alt)
  then show "0 < unat (ucast (shard_count_for hw) :: u64)" "unat (ucast (shard_count_for hw) :: u64) < 2 ^ 31"
    using assms by (simp_all add: e)
qed

text \<open>
  C22. The program serves only when its log file and its port open, with a readable configuration
  file and a non-empty secret in MY_SERVER_SECRET, and with at least one thread; what it then
  serves from is an initial state of the server for that configuration, whitelist and secret.
\<close>

theorem startup_establishes_server:
  assumes "main_prog d mc = (Serving sv n pool, w')" and "unat (hardware_concurrency mc) < 2 ^ 30"
  shows "log_opens mc \<and> port_opens mc \<and> 0 < n
    \<and> (\<exists>sec t cfg. environment mc ''MY_SERVER_SECRET'' = Some sec \<and> sec \<noteq> []
          \<and> config_file mc = Some t \<and> parse_config mc t = Some cfg \<and> sys_init cfg (whitelist_file mc) sec sv)"
proof -
  have lg: "log_opens mc" and pt: "port_opens mc"
    using assms(1) by (auto simp: main_prog_def init_logger_def app_context_ctor_def Let_def
        split: option.splits if_splits sum.splits prod.splits)
  obtain ctx where ctx: "init_logger (log_opens mc) app_context_ctor = (None, ctx)"
    using lg by (simp add: init_logger_def app_context_ctor_def)
  obtain t cfg where cfg: "config_file mc = Some t" "parse_config mc t = Some cfg"
    using assms(1) ctx by (auto simp: main_prog_def load_config_def Let_def split: option.splits)
  let ?hw = "hardware_concurrency mc" and ?sec = "get_env_secret (environment mc) ''MY_SERVER_SECRET''"
  have sec: "?sec \<noteq> []" "n = (if ?hw = 0 then 4 else unat ?hw)"
    and sv: "sv = server_ctor (whitelist_file mc) (data_handler_ctor ?hw ?sec (clock mc))
        \<lparr>heap = memory mc, alive = {}, manager = session_manager_ctor (ucast (shard_count_for ?hw)),
         app_config = cfg, handler_alive = True, strand_idle = scheduler mc, sql_log = []\<rparr>"
    using assms(1) cfg ctx
    by (auto simp: main_prog_def load_config_def Let_def split: if_splits sum.splits prod.splits)
  have "environment mc ''MY_SERVER_SECRET'' = Some ?sec"
    using sec(1) by (auto simp: get_env_secret_def split: option.splits)
  moreover have "0 < n" using sec(2) by (simp add: unat_gt_0)
  moreover have "sys_init cfg (whitelist_file mc) ?sec sv"
    unfolding sys_init_def using shard_count_for_bounds [OF assms(2)] sv by blast
  ultimately show ?thesis using cfg sec(1) lg pt by blast
qed

definition demo_env :: env where
  "demo_env = map_of [(''MY_SERVER_SECRET'', ''s3''), (''DB_HOST'', ''h''), (''DB_USER'', ''u''),
     (''DB_PASS'', ''p''), (''DB_POOL_SIZE'', ''4'')]"

definition demo_machine :: "nat machine" where
  "demo_machine = \<lparr>environment = demo_env, log_opens = True, port_opens = True, config_file = Some ''{}'',
     whitelist_file = Some ''10.0.0.1'', parse_config = (\<lambda>_. Some config_json), hardware_concurrency = 8,
     clock = 0, memory = (\<lambda>_. demo_session), scheduler = (\<lambda>_. False), database = 0\<rparr>"

lemma stoul_demo: "stoul ''4'' = Inr 4" "stoul ''33060'' = Inr 33060"
  by (simp_all add: stoul_def c_isspace_def c_isdigit_def digits_value_def)

lemma demo_start:
  "\<exists>sv. main_prog counting_driver demo_machine = (Serving sv 8 counting_pool, 4)"
  by (simp add: main_prog_def demo_machine_def init_logger_def app_context_ctor_def load_config_def
      demo_env_def get_env_secret_def getenv_or_def stoul_demo counting_ctor Let_def)

theorem startup_establishes_server_witness:
  "\<exists>sv. sys_init config_json (Some ''10.0.0.1'') ''s3'' sv"
proof -
  obtain sv where s: "main_prog counting_driver demo_machine = (Serving sv 8 counting_pool, 4)"
    using demo_start by blast
  have "environment demo_machine ''MY_SERVER_SECRET'' = Some ''s3''" by (simp add: demo_machine_def demo_env_def)
  then show ?thesis
    using startup_establishes_server [OF s] by (auto simp: demo_machine_def)
qed

section \<open>The worker threads\<close>

text \<open>
  The threads that run the event loop. A handler that throws ends the thread that runs it, since
  \<open>io.run()\<close> is inside the \<open>try\<close> of the thread and is not called again; which handlers do is what
  \<open>sys_result\<close> says. \<open>main\<close> waits for all threads: with none left the program ends.
\<close>

record process =
  serving :: server
  workers :: nat

inductive process_step :: "'j json_lib \<Rightarrow> process \<Rightarrow> process \<Rightarrow> bool" for jl where
  returned: "0 < workers p \<Longrightarrow> sys_result jl (serving p) None sv \<Longrightarrow>
     process_step jl p (p\<lparr>serving := sv\<rparr>)"
| thrown: "0 < workers p \<Longrightarrow> sys_result jl (serving p) (Some e) sv \<Longrightarrow>
     process_step jl p (p\<lparr>serving := sv, workers := workers p - 1\<rparr>)"

inductive_cases process_stepE: "process_step jl p q"

lemma on_accept_throws: "on_accept ev now sv = (Some e, sv') \<Longrightarrow> \<not> accepting sv'"
  by (auto simp: on_accept_def Let_def split: accept_event.splits option.splits if_splits)

lemma on_accept_returns: "on_accept ev now sv = (None, sv') \<Longrightarrow> accepting sv'"
  by (auto simp: on_accept_def start_accept_def Let_def split: accept_event.splits option.splits if_splits)

text \<open>The accept handler throws; the read handler does not, so nothing else does.\<close>

lemma read_throws_not: "read_callback jl sec r res w \<noteq> (Some e, w')"
  using read_callback_returns [of jl sec r res w] by auto

lemma result_thrown: "sys_result jl sv (Some e) sv' \<Longrightarrow> accepting sv \<and> \<not> accepting sv'"
  by (auto elim!: sys_resultE simp: read_throws_not dest: on_accept_throws)

lemma result_returned: "sys_result jl sv None sv' \<Longrightarrow> accepting sv' = accepting sv"
  by (auto elim!: sys_resultE dest: on_accept_returns)

text \<open>Every step of the server is a step of some thread, while there is one.\<close>

lemma sys_step_process:
  assumes "sys_step jl (serving p) sv" and "0 < workers p"
  obtains q where "process_step jl p q" "serving q = sv"
proof -
  obtain e where e: "sys_result jl (serving p) e sv" using assms(1) by (rule sys_stepE)
  show ?thesis
  proof (cases e)
    case None
    then show ?thesis using e that [OF process_step.returned [OF assms(2)]] by simp
  next
    case (Some x)
    then show ?thesis using e that [OF process_step.thrown [OF assms(2)]] by simp
  qed
qed

definition process_inv :: "nat \<Rightarrow> process \<Rightarrow> bool" where
  "process_inv n p \<longleftrightarrow> workers p = (if accepting (serving p) then n else n - 1)"

lemma process_inv_step: "process_inv n p \<Longrightarrow> process_step jl p q \<Longrightarrow> process_inv n q"
  by (elim process_stepE) (auto simp: process_inv_def dest: result_thrown result_returned)

lemma process_sys_step: "process_step jl p q \<Longrightarrow> sys_step jl (serving p) (serving q)"
  by (erule process_stepE) (auto intro: sys_stepI)

lemma process_steps:
  "(process_step jl)\<^sup>*\<^sup>* p q \<Longrightarrow> process_inv n p \<Longrightarrow> process_inv n q \<and> (sys_step jl)\<^sup>*\<^sup>* (serving p) (serving q)"
proof (induction rule: rtranclp_induct)
  case (step q r)
  then show ?case using process_inv_step [OF _ step.hyps(2)] process_sys_step [OF step.hyps(2)]
    by (auto intro: rtranclp.rtrancl_into_rtrancl)
qed simp

definition process_init :: "config \<Rightarrow> string option \<Rightarrow> string \<Rightarrow> nat \<Rightarrow> process \<Rightarrow> bool" where
  "process_init cfg f sec n p \<longleftrightarrow> sys_init cfg f sec (serving p) \<and> workers p = n"

interpretation process_machine: inductive_invariant "process_init cfg f sec n" "process_step jl"
    "\<lambda>p. process_inv n p \<and> reach (sys_init cfg f sec) (sys_step jl) (serving p)"
  for cfg :: config and f :: "string option" and sec :: string and n :: nat and jl :: "'j json_lib"
proof unfold_locales
  show "process_inv n p \<and> reach (sys_init cfg f sec) (sys_step jl) (serving p)" if "process_init cfg f sec n p" for p
  proof
    show "process_inv n p"
      using that by (auto simp: process_init_def process_inv_def sys_init_def server_ctor_def start_accept_def)
    show "reach (sys_init cfg f sec) (sys_step jl) (serving p)"
      using that by (simp add: process_init_def reach.reach_init)
  qed
qed (auto intro: process_inv_step reach.reach_step process_sys_step)

lemma process_stuck: "(\<nexists>q. process_step jl p q) \<longleftrightarrow> workers p = 0"
proof
  assume stuck: "\<nexists>q. process_step jl p q"
  show "workers p = 0"
  proof (rule ccontr)
    assume "workers p \<noteq> 0"
    then have "process_step jl p (p\<lparr>serving := (serving p)\<lparr>net := (net (serving p))\<lparr>strand_idle := \<lambda>_. True\<rparr>\<rparr>\<rparr>)"
      by (intro process_step.returned sys_result.schedule) auto
    with stuck show False by blast
  qed
qed (auto elim: process_stepE)

lemma main_serving:
  assumes "main_prog d mc = (Serving sv n pool, w')"
  shows "0 < n \<and> accepting sv"
proof -
  let ?hw = "hardware_concurrency mc"
  have "n = (if ?hw = 0 then 4 else unat ?hw)" "accepting sv"
    using assms by (auto simp: main_prog_def server_ctor_def start_accept_def Let_def
        split: if_splits sum.splits prod.splits option.splits)
  then show ?thesis by (simp add: unat_gt_0)
qed

text \<open>
  C27. Of the \<open>n\<close> threads that \<open>main\<close> starts at most one is ever lost: no read handler lets an exception
  out, so it is the one that runs the accept handler for a peer that has already gone (or for a
  blocked one whose connection does not close properly), after which none is accepted. All others go on serving, in states that the server
  reaches anyway; but where the hardware has a single thread, that peer ends the program.
\<close>

theorem at_most_one_thread_ends:
  assumes "main_prog d mc = (Serving sv n pool, w')"
    and "(process_step jl)\<^sup>*\<^sup>* \<lparr>serving = sv, workers = n\<rparr> p"
  shows "workers p = (if accepting (serving p) then n else n - 1) \<and> (sys_step jl)\<^sup>*\<^sup>* sv (serving p)
    \<and> ((\<nexists>q. process_step jl p q) \<longleftrightarrow> n = 1 \<and> \<not> accepting (serving p))"
proof -
  have start: "0 < n" "accepting sv" using main_serving [OF assms(1)] by auto
  then have "process_inv n p \<and> (sys_step jl)\<^sup>*\<^sup>* sv (serving p)"
    using process_steps [OF assms(2), of n] by (simp add: process_inv_def)
  moreover have "(\<nexists>q. process_step jl p q) \<longleftrightarrow> workers p = 0" by (rule process_stuck)
  ultimately show ?thesis using start(1) by (auto simp: process_inv_def)
qed

definition lone_machine :: "nat machine" where
  "lone_machine = demo_machine\<lparr>hardware_concurrency := 1\<rparr>"

lemma lone_start: "\<exists>sv. main_prog counting_driver lone_machine = (Serving sv 1 counting_pool, 4)"
  by (simp add: main_prog_def lone_machine_def demo_machine_def init_logger_def app_context_ctor_def load_config_def
      demo_env_def get_env_secret_def getenv_or_def stoul_demo counting_ctor Let_def)

theorem at_most_one_thread_ends_witness:
  "\<exists>sv p. main_prog counting_driver lone_machine = (Serving sv 1 counting_pool, 4)
     \<and> (process_step tiny)\<^sup>*\<^sup>* \<lparr>serving = sv, workers = 1\<rparr> p \<and> (\<nexists>q. process_step tiny p q)"
proof -
  obtain sv where s: "main_prog counting_driver lone_machine = (Serving sv 1 counting_pool, 4)"
    using lone_start by blast
  let ?sk = "(demo_socket [])\<lparr>sk_connected := False\<rparr>" and ?p = "\<lparr>serving = sv, workers = 1\<rparr>"
  let ?q = "\<lparr>serving = sv\<lparr>accepting := False\<rparr>, workers = 0\<rparr>"
  have "process_step tiny ?p (?p\<lparr>serving := sv\<lparr>accepting := False\<rparr>, workers := workers ?p - 1\<rparr>)"
    by (rule process_step.thrown [OF _ sys_result.accept [where ev = "Accepted ?sk" and now = 0 and e = "Some StdException"]])
      (use main_serving [OF s] in \<open>auto simp: fresh_socket_def demo_socket_def on_accept_def remote_endpoint_def\<close>)
  then have q: "(process_step tiny)\<^sup>*\<^sup>* ?p ?q" by simp
  then have "\<nexists>r. process_step tiny ?q r" using at_most_one_thread_ends [OF s q] by simp
  with s q show ?thesis by blast
qed

text \<open>
  Without a configuration file the program ends with an uncaught exception before it looks at
  the secret: the empty configuration that \<open>load_config\<close> puts in place as a fallback is never used.
\<close>

theorem missing_config_aborts:
  "main_prog d (mc\<lparr>config_file := None\<rparr>) = (Uncaught, database mc)
   \<and> load_config parse None ctx = (Some StdException, ctx\<lparr>ctx_config := Map.empty\<rparr>)"
  by (simp add: main_prog_def load_config_def Let_def split: prod.split option.split)

text \<open>A number that the program prints is read back as it is.\<close>

lemma stoul_digits:
  assumes "ds \<noteq> []" and "list_all c_isdigit ds" and "digits_value ds < 2 ^ 64"
  shows "stoul ds = Inr (word_of_nat (digits_value ds))"
    and "stoul (CHR ''-'' # ds) = Inr (- word_of_nat (digits_value ds))"
proof -
  have d: "c_isdigit c \<Longrightarrow> \<not> c_isspace c \<and> c \<noteq> CHR ''-'' \<and> c \<noteq> CHR ''+''" for c
    by (auto simp: c_isdigit_def c_isspace_def)
  have tw: "takeWhile c_isdigit ds = ds" using assms(2) by (simp add: list_all_iff)
  have dw: "dropWhile c_isspace ds = ds" using assms(1,2) d by (cases ds) auto
  have "hd ds \<noteq> CHR ''-''" "hd ds \<noteq> CHR ''+''" using assms(1,2) d by (cases ds; auto)+
  then show "stoul ds = Inr (word_of_nat (digits_value ds))"
    using assms(1,3) tw dw by (simp add: stoul_def Let_def del: takeWhile_eq_all_conv)
  show "stoul (CHR ''-'' # ds) = Inr (- word_of_nat (digits_value ds))"
    using assms(1,3) tw by (simp add: stoul_def Let_def c_isspace_def del: takeWhile_eq_all_conv)
qed

lemma stoul_to_string: "n < 2 ^ 64 \<Longrightarrow> stoul (to_string n) = Inr (word_of_nat n)"
  using stoul_digits(1) [OF to_string_nonempty to_string_digits, of n] by (simp add: digits_value_to_string)

text \<open>
  A decimal number of the environment is taken modulo 2^64, with a minus sign negated, and the
  port is then cut to 32 bits: no range of ports is enforced.
\<close>

theorem environment_numbers_wrap:
  assumes "ds \<noteq> []" and "list_all c_isdigit ds" and "digits_value ds < 2 ^ 64"
  shows "stoul ds = Inr (word_of_nat (digits_value ds))
    \<and> stoul (CHR ''-'' # ds) = Inr (- word_of_nat (digits_value ds))
    \<and> unat (ucast (word_of_nat (digits_value ds) :: u64) :: u32) = digits_value ds mod 2 ^ 32"
proof -
  have "unat (ucast (word_of_nat (digits_value ds) :: u64) :: u32) = digits_value ds mod 2 ^ 32"
    by (simp add: unsigned_ucast_eq unat_of_nat take_bit_eq_mod mod_mod_cancel)
  with stoul_digits [OF assms] show ?thesis by blast
qed

theorem environment_numbers_wrap_witness: "stoul ''-1'' = Inr (- 1)"
  using environment_numbers_wrap [of "''1''"] by (simp add: c_isdigit_def digits_value_def)

end
