(* ===== verification/Settling.thy ===== *)
theory Settling
  imports Server
begin

text \<open>
  What the server does on its own between two inputs: closures waiting for a strand run and
  outstanding writes complete. This work is finite and bounded by what is queued, and when it is
  done every reply posted to an open session has been written. The theory ends with the way of
  one login through all the components, from the bytes that arrive to the reply that leaves.
\<close>

section \<open>Internal steps\<close>

text \<open>The steps of the running server that need no new connection and no new bytes.\<close>

inductive internal_step :: "server \<Rightarrow> server \<Rightarrow> bool" where
  run_job: "r \<in> alive (net sv) \<Longrightarrow> strand_jobs (heap (net sv) r) \<noteq> [] \<Longrightarrow>
     internal_step sv (sv\<lparr>net := run_strand_job r (net sv)\<rparr>)"
| complete_write: "r \<in> alive (net sv) \<Longrightarrow> sk_writes (sock (heap (net sv) r)) \<noteq> [] \<Longrightarrow>
     internal_step sv (sv\<lparr>net := on_write err r (net sv)\<rparr>)"

inductive_cases internal_stepE: "internal_step sv sv'"

lemma internal_sys_step: "internal_step sv sv' \<Longrightarrow> sys_step jl sv sv'"
  by (induction rule: internal_step.induct) (auto intro: sys_stepI sys_result.strand sys_result.written)

section \<open>The work of a session\<close>

text \<open>
  A queued closure may enqueue a message and start its write, so it weighs more than both.
\<close>

definition session_work :: "session \<Rightarrow> nat" where
  "session_work s = 4 * length (strand_jobs s) + 2 * length (write_queue s) + length (sk_writes (sock s))"

definition server_work :: "server \<Rightarrow> nat" where
  "server_work sv = (\<Sum>r \<in> alive (net sv). session_work (heap (net sv) r))"

lemma work_close_fields [simp]: "session_work (close_fields s) = session_work s"
  by (simp add: session_work_def)

lemma work_post: "session_work (post_write_job cfg m s) \<le> session_work s + 3"
  by (auto simp: session_work_def write_ops split: list.splits)

lemma work_push [simp]: "session_work (push_task t s) = session_work s"
  by (simp add: session_work_def read_ops Let_def split: list.split)

lemma work_callback:
  "write_callback err s = (s', c) \<Longrightarrow> sk_writes (sock s) \<noteq> [] \<Longrightarrow> session_work s' < session_work s"
  by (auto simp: session_work_def write_ops split: list.splits if_splits)

lemma run_strand_job_other: "q \<noteq> r \<Longrightarrow> heap (run_strand_job r w) q = heap w q"
  by (auto simp: run_strand_job_def post_task_job_def close_session_other split: list.split strand_job.split)

lemma run_strand_job_work:
  assumes "strand_jobs (heap w r) \<noteq> []"
  shows "session_work (heap (run_strand_job r w) r) < session_work (heap w r)"
proof -
  obtain j js where j: "strand_jobs (heap w r) = j # js" using assms by (cases "strand_jobs (heap w r)") auto
  let ?s = "(heap w r)\<lparr>strand_jobs := js\<rparr>"
  have lt: "session_work ?s + 4 = session_work (heap w r)" by (simp add: session_work_def j)
  show ?thesis
  proof (cases j)
    case (JobTask t)
    then show ?thesis using lt j
      by (simp add: run_strand_job_def post_task_job_def close_session_heap)
  next
    case (JobWrite m)
    then show ?thesis using lt j work_post [of "app_config w" m ?s]
      by (simp add: run_strand_job_def)
  qed
qed

lemma on_write_work:
  assumes "sk_writes (sock (heap w r)) \<noteq> []"
  shows "session_work (heap (on_write err r w) r) < session_work (heap w r)"
proof -
  obtain s' c where cb: "write_callback err (heap w r) = (s', c)" by (cases "write_callback err (heap w r)")
  with work_callback [OF cb assms] show ?thesis by (simp add: on_write_heap [OF cb])
qed

lemma on_write_other: "q \<noteq> r \<Longrightarrow> heap (on_write err r w) q = heap w q"
  by (cases "write_callback err (heap w r)") (simp add: on_write_heap)

lemma run_strand_job_alive: "alive (run_strand_job r w) = alive w"
  using frame_run_strand_job [of r w] by (simp add: handler_frame_def)

lemma work_sum_less:
  assumes "finite A" and "r \<in> A" and "session_work (h' r) < session_work (h r)"
    and "\<And>q. q \<noteq> r \<Longrightarrow> h' q = h q"
  shows "(\<Sum>q \<in> A. session_work (h' q)) < (\<Sum>q \<in> A. session_work (h q))"
proof (rule sum_strict_mono_ex1 [OF assms(1)])
  show "\<forall>q \<in> A. session_work (h' q) \<le> session_work (h q)"
    using assms(3,4) by (metis le_less)
  show "\<exists>q \<in> A. session_work (h' q) < session_work (h q)" using assms(2,3) by blast
qed

lemma internal_step_alive: "internal_step sv sv' \<Longrightarrow> alive (net sv') = alive (net sv)"
  by (erule internal_stepE) (simp_all add: run_strand_job_alive)

lemma internal_step_work:
  "internal_step sv sv' \<Longrightarrow> finite (alive (net sv)) \<Longrightarrow> server_work sv' < server_work sv"
  by (elim internal_stepE)
    (auto simp: server_work_def run_strand_job_alive run_strand_job_other on_write_other run_strand_job_work
      on_write_work intro!: work_sum_less)

lemma internal_steps_alive: "internal_step\<^sup>*\<^sup>* sv sv' \<Longrightarrow> alive (net sv') = alive (net sv)"
proof (induction rule: rtranclp_induct)
  case (step t u)
  then show ?case using internal_step_alive [of t u] by simp
qed simp

interpretation internal: measured_steps internal_step
    "\<lambda>sv. sys_inv cfg f sv \<and> 1 \<le> max_task_queue cfg" server_work
  for cfg :: config and f :: "string option"
proof unfold_locales
  fix s t :: server
  assume inv: "sys_inv cfg f s \<and> 1 \<le> max_task_queue cfg" and step: "internal_step s t"
  show "sys_inv cfg f t \<and> 1 \<le> max_task_queue cfg"
    using inv sys_inv_step [OF _ _ internal_sys_step [OF step]] by blast
  have "alive (net s) \<subseteq> {..< next_ref s}" using inv by (auto simp: sys_inv_def sys_core_def)
  then show "server_work t < server_work s"
    using internal_step_work [OF step] finite_subset by blast
qed

lemma settled_quiet:
  assumes "\<nexists>t. internal_step sv t" and "r \<in> alive (net sv)"
  shows "strand_jobs (heap (net sv) r) = [] \<and> sk_writes (sock (heap (net sv) r)) = []"
  using assms internal_step.intros by blast

section \<open>Properties\<close>

text \<open>
  C5. Between two inputs the server does finitely much: from every reachable state, no matter in
  which order queued closures run and writes complete or fail, at most as many such steps are
  possible as the work queued bounds, some state where none is left is reached, and in each such
  state nothing waits for a strand, no write is outstanding and every message posted to an open
  session has been written or has failed with the session closed.
\<close>

theorem server_settles:
  assumes "reach (sys_init cfg f sec) (sys_step jl) sv" and "1 \<le> max_task_queue cfg"
    and "2 \<le> max_write_queue_size cfg"
  shows "(\<forall>n t. (internal_step ^^ n) sv t \<longrightarrow> n \<le> server_work sv)
    \<and> (\<exists>t. internal_step\<^sup>*\<^sup>* sv t \<and> (\<nexists>u. internal_step t u))
    \<and> (\<forall>t. internal_step\<^sup>*\<^sup>* sv t \<and> (\<nexists>u. internal_step t u) \<longrightarrow>
         (\<forall>r \<in> alive (net t). strand_jobs (heap (net t) r) = [] \<and> sk_writes (sock (heap (net t) r)) = []
            \<and> (closed (heap (net t) r) \<or> write_queue (heap (net t) r) = [])))"
proof -
  have inv: "sys_inv cfg f sv \<and> 1 \<le> max_task_queue cfg" using reach_inv [OF assms(1,2)] assms(2) by blast
  have "n \<le> server_work sv" if "(internal_step ^^ n) sv t" for n t
    using internal.steps_bound [OF that inv] by simp
  moreover note internal.steps_end [OF inv]
  moreover have "closed (heap (net t) r) \<or> write_queue (heap (net t) r) = []"
    if "internal_step\<^sup>*\<^sup>* sv t" "\<nexists>u. internal_step t u" "r \<in> alive (net t)" for t r
  proof -
    have "sys_inv cfg f t" using internal.steps_inv [OF that(1) inv] by simp
    then have "write_inv cfg (heap (net t) r)"
      using that(3) assms(3) by (auto simp: sys_inv_def sys_core_def session_good_def)
    then show ?thesis using settled_quiet [OF that(2,3)] by (auto simp: write_inv_def)
  qed
  ultimately show ?thesis using settled_quiet by blast
qed

theorem server_settles_witness:
  "\<exists>t. internal_step\<^sup>*\<^sup>* demo_server2 t \<and> strand_jobs (heap (net t) 0) = []
     \<and> sk_writes (sock (heap (net t) 0)) = []"
proof -
  obtain t where t: "internal_step\<^sup>*\<^sup>* demo_server2 t" "\<nexists>u. internal_step t u"
    using server_settles [OF demo_server2_reach] by (auto simp: config_json_limits)
  have "0 \<in> alive (net t)" using internal_steps_alive [OF t(1)] demo_server2_bob(1) by simp
  then show ?thesis
    using server_settles [OF demo_server2_reach] t by (auto simp: config_json_limits)
qed

end
