(* ===== verification/Mutexes.thy ===== *)
theory Mutexes
  imports Prelude
begin

text \<open>
  Threads and mutexes. A call that takes mutexes is a program of four kinds of steps; the steps
  of several threads interleave in any order. The theory gives the meaning of a program that runs
  alone, the steps of a system of threads, and two contracts: calls that take their mutexes in
  one order always finish, and calls that run alone do what their description says.
\<close>

section \<open>Programs\<close>

text \<open>
  \<open>Act f k\<close> reads the shared state and changes it by \<open>f\<close> in one step; what it read decides how it
  goes on.
\<close>

datatype ('m, 's) prog =
    Done
  | Lock 'm "('m, 's) prog"
  | Unlock 'm "('m, 's) prog"
  | Act "'s \<Rightarrow> 's" "'s \<Rightarrow> ('m, 's) prog"

abbreviation read_state :: "('s \<Rightarrow> ('m, 's) prog) \<Rightarrow> ('m, 's) prog" where
  "read_state k \<equiv> Act (\<lambda>s. s) k"

abbreviation modify :: "('s \<Rightarrow> 's) \<Rightarrow> ('m, 's) prog \<Rightarrow> ('m, 's) prog" where
  "modify f p \<equiv> Act f (\<lambda>_. p)"

text \<open>
  A program that runs with no other thread, holding the mutexes of a set: \<open>None\<close> when it locks a
  \<open>std::mutex\<close> that it holds or unlocks one that it does not hold.
\<close>

primrec run_alone :: "('m, 's) prog \<Rightarrow> 'm set \<Rightarrow> 's \<Rightarrow> 's option" where
  "run_alone Done = (\<lambda>h s. Some s)"
| "run_alone (Lock m p) = (\<lambda>h s. if m \<in> h then None else run_alone p (insert m h) s)"
| "run_alone (Unlock m p) = (\<lambda>h s. if m \<in> h then run_alone p (h - {m}) s else None)"
| "run_alone (Act f k) = (\<lambda>h s. run_alone (k s) h (f s))"

section \<open>Systems of threads\<close>

record ('m, 's) threads =
  shared :: 's
  owner :: "'m \<Rightarrow> nat option"
  progs :: "('m, 's) prog list"

definition start_threads :: "'s \<Rightarrow> ('m, 's) prog list \<Rightarrow> ('m, 's) threads" where
  "start_threads s ps = \<lparr>shared = s, owner = Map.empty, progs = ps\<rparr>"

text \<open>The next step of one thread, if it can make one.\<close>

definition thread_step :: "nat \<Rightarrow> ('m, 's) threads \<Rightarrow> ('m, 's) threads option" where
  "thread_step i c =
     (if i < length (progs c) then
        (case progs c ! i of
           Done \<Rightarrow> None
         | Lock m p \<Rightarrow> if owner c m = None
             then Some (c\<lparr>owner := (owner c)(m \<mapsto> i), progs := (progs c)[i := p]\<rparr>) else None
         | Unlock m p \<Rightarrow> if owner c m = Some i
             then Some (c\<lparr>owner := (owner c)(m := None), progs := (progs c)[i := p]\<rparr>) else None
         | Act f k \<Rightarrow> Some (c\<lparr>shared := f (shared c), progs := (progs c)[i := k (shared c)]\<rparr>))
      else None)"

inductive conc_step :: "('m, 's) threads \<Rightarrow> ('m, 's) threads \<Rightarrow> bool" where
  conc_step: "thread_step i c = Some c' \<Longrightarrow> conc_step c c'"

inductive_cases conc_stepE: "conc_step c c'"

text \<open>A schedule names the thread that makes each step.\<close>

primrec run_schedule :: "nat list \<Rightarrow> ('m, 's) threads \<Rightarrow> ('m, 's) threads option" where
  "run_schedule [] c = Some c"
| "run_schedule (i # is) c = (case thread_step i c of None \<Rightarrow> None | Some c' \<Rightarrow> run_schedule is c')"

lemma run_schedule_steps: "run_schedule is c = Some c' \<Longrightarrow> conc_step\<^sup>*\<^sup>* c c'"
  by (induction "is" arbitrary: c)
    (auto split: option.splits intro: converse_rtranclp_into_rtranclp conc_step.intros)

definition all_done :: "('m, 's) threads \<Rightarrow> bool" where
  "all_done c \<longleftrightarrow> (\<forall>p \<in> set (progs c). p = Done)"

lemma thread_stepE:
  assumes "thread_step i c = Some c'"
  obtains m p where "i < length (progs c)" "progs c ! i = Lock m p" "owner c m = None"
      "c' = c\<lparr>owner := (owner c)(m \<mapsto> i), progs := (progs c)[i := p]\<rparr>"
  | m p where "i < length (progs c)" "progs c ! i = Unlock m p" "owner c m = Some i"
      "c' = c\<lparr>owner := (owner c)(m := None), progs := (progs c)[i := p]\<rparr>"
  | f k where "i < length (progs c)" "progs c ! i = Act f k"
      "c' = c\<lparr>shared := f (shared c), progs := (progs c)[i := k (shared c)]\<rparr>"
  using assms by (auto simp: thread_step_def split: if_splits prog.splits)

section \<open>Every run is finite\<close>

inductive next_prog :: "('m, 's) prog \<Rightarrow> ('m, 's) prog \<Rightarrow> bool" where
  "next_prog p (Lock m p)"
| "next_prog p (Unlock m p)"
| "next_prog (k s) (Act f k)"

inductive_simps next_prog_simps:
  "next_prog q Done" "next_prog q (Lock m p)" "next_prog q (Unlock m p)" "next_prog q (Act f k)"

lemma wf_next_prog: "wf {(q, p). next_prog q p}"
proof (rule wfI_pf)
  fix A :: "('m, 's) prog set"
  assume a: "A \<subseteq> {(q, p). next_prog q p} `` A"
  have "p \<notin> A" for p
    by (induction p) (use a in \<open>auto simp: next_prog_simps dest!: subsetD\<close>)
  then show "A = {}" by blast
qed

lemma conc_step_progs:
  assumes "conc_step c c'"
  shows "(mset (progs c'), mset (progs c)) \<in> mult1 {(q, p). next_prog q p}"
proof -
  from assms obtain i where "thread_step i c = Some c'" by (rule conc_stepE)
  then obtain q where i: "i < length (progs c)" and q: "next_prog q (progs c ! i)"
    and c': "progs c' = (progs c)[i := q]"
    by (cases rule: thread_stepE) (auto intro: next_prog.intros)
  then have "mset (progs c) = add_mset (progs c ! i) (mset (progs c) - {#progs c ! i#})"
    and "mset (progs c') = (mset (progs c) - {#progs c ! i#}) + {#q#}"
    by (simp_all add: mset_update)
  then show ?thesis unfolding mult1_def using q by fastforce
qed

lemma conc_step_wf: "wf {(c', c). conc_step c c'}"
proof (rule wf_subset)
  show "wf (inv_image (mult1 {(q, p). next_prog q p}) (\<lambda>c :: ('a, 'b) threads. mset (progs c)))"
    by (intro wf_inv_image wf_mult1 wf_next_prog)
qed (auto simp: in_inv_image intro: conc_step_progs)

lemma no_infinite_run: "\<nexists>run. \<forall>n. conc_step (run n) (run (Suc n))"
  using conc_step_wf unfolding wf_iff_no_infinite_down_chain by simp

lemma conc_steps_end: "\<exists>c'. conc_step\<^sup>*\<^sup>* c c' \<and> (\<nexists>d. conc_step c' d)"
proof (induction c rule: wf_induct_rule [OF conc_step_wf])
  case (1 c)
  then show ?case
    by (cases "\<exists>d. conc_step c d") (blast intro: converse_rtranclp_into_rtranclp)+
qed

section \<open>Taking mutexes in order\<close>

text \<open>
  \<open>ordered rank h p\<close>: whatever it reads, a program that holds the mutexes \<open>h\<close> locks only mutexes
  of a higher rank than all it holds, unlocks only what it holds, and holds none at its end.
\<close>

primrec ordered :: "('m \<Rightarrow> nat) \<Rightarrow> ('m, 's) prog \<Rightarrow> 'm set \<Rightarrow> bool" where
  "ordered rank Done = (\<lambda>h. h = {})"
| "ordered rank (Lock m p) = (\<lambda>h. (\<forall>x \<in> h. rank x < rank m) \<and> ordered rank p (insert m h))"
| "ordered rank (Unlock m p) = (\<lambda>h. m \<in> h \<and> ordered rank p (h - {m}))"
| "ordered rank (Act f k) = (\<lambda>h. \<forall>s. ordered rank (k s) h)"

definition held :: "('m, 's) threads \<Rightarrow> nat \<Rightarrow> 'm set" where
  "held c i = {m. owner c m = Some i}"

definition all_ordered :: "('m \<Rightarrow> nat) \<Rightarrow> ('m, 's) threads \<Rightarrow> bool" where
  "all_ordered rank c \<longleftrightarrow> (\<forall>i < length (progs c). ordered rank (progs c ! i) (held c i))
     \<and> (\<forall>m i. owner c m = Some i \<longrightarrow> i < length (progs c))"

lemma held_simps:
  "held (c\<lparr>progs := x\<rparr>) = held c" "held (c\<lparr>shared := y\<rparr>) = held c"
  "owner c m = None \<Longrightarrow> held (c\<lparr>owner := (owner c)(m \<mapsto> i)\<rparr>) j = (if j = i then insert m (held c j) else held c j)"
  "owner c m = Some i \<Longrightarrow> held (c\<lparr>owner := (owner c)(m := None)\<rparr>) j = (if j = i then held c j - {m} else held c j)"
  by (auto simp: held_def)

lemma all_ordered_start:
  assumes "\<forall>p \<in> set ps. ordered rank p {}"
  shows "all_ordered rank (start_threads s ps)"
proof -
  have "held (start_threads s ps) i = {}" for i by (simp add: held_def start_threads_def)
  with assms show ?thesis by (simp add: all_ordered_def) (simp add: start_threads_def)
qed

lemma all_ordered_step:
  assumes "all_ordered rank c" and "conc_step c c'"
  shows "all_ordered rank c'"
proof -
  from assms(2) obtain i where "thread_step i c = Some c'" by (rule conc_stepE)
  then show ?thesis
  proof (cases rule: thread_stepE)
    case (1 m p)
    then have "ordered rank p (insert m (held c i))" using assms(1) by (force simp: all_ordered_def)
    with 1 assms(1) show ?thesis by (auto simp: all_ordered_def held_simps nth_list_update)
  next
    case (2 m p)
    then have "ordered rank p (held c i - {m})" using assms(1) by (force simp: all_ordered_def)
    with 2 assms(1) show ?thesis by (auto simp: all_ordered_def held_simps nth_list_update)
  next
    case (3 f k)
    then have "ordered rank (k (shared c)) (held c i)" using assms(1) by (force simp: all_ordered_def)
    with 3 assms(1) show ?thesis by (auto simp: all_ordered_def held_simps nth_list_update)
  qed
qed

lemma all_ordered_steps: "conc_step\<^sup>*\<^sup>* c d \<Longrightarrow> all_ordered rank c \<Longrightarrow> all_ordered rank d"
  by (induction rule: rtranclp_induct) (auto intro: all_ordered_step)

lemma all_ordered_progress:
  assumes inv: "all_ordered rank c" and stuck: "\<nexists>d. conc_step c d"
  shows "all_done c"
proof (rule ccontr)
  assume "\<not> all_done c"
  define B where "B = {i. i < length (progs c) \<and> progs c ! i \<noteq> Done}"
  have B: "B \<noteq> {}" "finite B"
    using \<open>\<not> all_done c\<close> by (auto simp: B_def all_done_def in_set_conv_nth)
  have waits: "\<exists>m p j. progs c ! i = Lock m p \<and> owner c m = Some j" if "i \<in> B" for i
  proof -
    have "thread_step i c = None" using stuck conc_step.intros by (meson not_None_eq)
    then show ?thesis using that inv
      by (auto simp: B_def thread_step_def all_ordered_def held_def split: prog.splits if_splits)
  qed
  define aim where "aim i = (case progs c ! i of Lock m p \<Rightarrow> rank m | _ \<Rightarrow> 0)" for i
  obtain i where i: "i \<in> B" "\<And>j. j \<in> B \<Longrightarrow> aim j \<le> aim i"
    using that Max_in [of "aim ` B"] Max_ge [of "aim ` B"] B by fastforce
  obtain m p j where m: "progs c ! i = Lock m p" "owner c m = Some j" using waits [OF i(1)] by blast
  have j: "j < length (progs c)" "ordered rank (progs c ! j) (held c j)" "m \<in> held c j"
    using inv m(2) by (auto simp: all_ordered_def held_def)
  then have "j \<in> B" by (auto simp: B_def)
  then obtain m' p' where m': "progs c ! j = Lock m' p'" using waits by blast
  with j have "rank m < rank m'" by simp
  then have "aim i < aim j" by (simp add: aim_def m(1) m')
  with i(2) [OF \<open>j \<in> B\<close>] show False by simp
qed

lemma all_done_free:
  assumes "all_ordered rank c" and "all_done c"
  shows "owner c = Map.empty"
proof
  fix m
  show "owner c m = None"
  proof (cases "owner c m")
    case (Some i)
    then have "i < length (progs c)" "ordered rank (progs c ! i) (held c i)" "m \<in> held c i"
      using assms(1) by (auto simp: all_ordered_def held_def)
    moreover from this(1) have "progs c ! i = Done" using assms(2) by (simp add: all_done_def)
    ultimately show ?thesis by simp
  qed simp
qed

text \<open>
  A program that runs alone is a thread that nobody disturbs: while no other thread holds a
  mutex, it can run to its end.
\<close>

lemma run_alone_steps:
  assumes "run_alone p h s = Some s'" and "ordered rank p h" and "i < length (progs c)" and "progs c ! i = p"
    and "shared c = s" and "owner c = (\<lambda>m. if m \<in> h then Some i else None)"
  shows "conc_step\<^sup>*\<^sup>* c \<lparr>shared = s', owner = Map.empty, progs = (progs c)[i := Done]\<rparr>"
  using assms
proof (induction p arbitrary: h s c)
  case Done
  then have "c = \<lparr>shared = s', owner = Map.empty, progs = (progs c)[i := Done]\<rparr>"
    using list_update_id [of "progs c" i] by (cases c) (auto simp: fun_eq_iff)
  then show ?case by (metis rtranclp.rtrancl_refl)
next
  case (Lock m p)
  let ?d = "c\<lparr>owner := (owner c)(m \<mapsto> i), progs := (progs c)[i := p]\<rparr>"
  have "thread_step i c = Some ?d" using Lock.prems by (auto simp: thread_step_def split: if_splits)
  moreover have "conc_step\<^sup>*\<^sup>* ?d \<lparr>shared = s', owner = Map.empty, progs = (progs ?d)[i := Done]\<rparr>"
    by (rule Lock.IH [of "insert m h" s]) (use Lock.prems in \<open>auto simp: fun_eq_iff split: if_splits\<close>)
  ultimately show ?case by (auto intro: converse_rtranclp_into_rtranclp conc_step.intros)
next
  case (Unlock m p)
  let ?d = "c\<lparr>owner := (owner c)(m := None), progs := (progs c)[i := p]\<rparr>"
  have "thread_step i c = Some ?d" using Unlock.prems by (auto simp: thread_step_def split: if_splits)
  moreover have "conc_step\<^sup>*\<^sup>* ?d \<lparr>shared = s', owner = Map.empty, progs = (progs ?d)[i := Done]\<rparr>"
    by (rule Unlock.IH [of "h - {m}" s]) (use Unlock.prems in \<open>auto simp: fun_eq_iff split: if_splits\<close>)
  ultimately show ?case by (auto intro: converse_rtranclp_into_rtranclp conc_step.intros)
next
  case (Act f k)
  let ?d = "c\<lparr>shared := f (shared c), progs := (progs c)[i := k (shared c)]\<rparr>"
  have "thread_step i c = Some ?d" using Act.prems by (simp add: thread_step_def)
  moreover have "conc_step\<^sup>*\<^sup>* ?d \<lparr>shared = s', owner = Map.empty, progs = (progs ?d)[i := Done]\<rparr>"
    by (rule Act.IH [of "k s" h "f s"]) (use Act.prems in auto)
  ultimately show ?case by (auto intro: converse_rtranclp_into_rtranclp conc_step.intros)
qed

section \<open>Calls\<close>

text \<open>
  A call is given as the program it makes of what follows it; a script is a list of calls.
\<close>

definition script :: "('c \<Rightarrow> ('m, 's) prog \<Rightarrow> ('m, 's) prog) \<Rightarrow> 'c list \<Rightarrow> ('m, 's) prog" where
  "script call cs = foldr call cs Done"

lemma script_simps [simp]: "script call [] = Done" "script call (c # cs) = call c (script call cs)"
  by (simp_all add: script_def)

text \<open>
  The contract of calls that respect one order of the mutexes: each, started with no mutex held,
  leaves none. Threads that make only such calls never block each other for ever.
\<close>

locale ordered_calls =
  fixes rank :: "'m \<Rightarrow> nat"
    and call :: "'c \<Rightarrow> ('m, 's) prog \<Rightarrow> ('m, 's) prog"
    and allowed :: "'c \<Rightarrow> bool"
  assumes call_ordered: "allowed c \<Longrightarrow> ordered rank p {} \<Longrightarrow> ordered rank (call c p) {}"
begin

lemma script_ordered: "list_all allowed cs \<Longrightarrow> ordered rank (script call cs) {}"
  by (induction cs) (simp_all add: call_ordered)

lemma scripts_ordered:
  assumes "\<forall>cs \<in> set scripts. list_all allowed cs"
  shows "all_ordered rank (start_threads s (map (script call) scripts))"
  by (rule all_ordered_start) (use assms in \<open>auto intro: script_ordered\<close>)

lemma scripts_inv:
  assumes "\<forall>cs \<in> set scripts. list_all allowed cs"
    and "conc_step\<^sup>*\<^sup>* (start_threads s (map (script call) scripts)) c"
  shows "all_ordered rank c"
  by (rule all_ordered_steps [OF assms(2) scripts_ordered [OF assms(1)]])

lemma scripts_complete:
  assumes "\<forall>cs \<in> set scripts. list_all allowed cs"
    and "conc_step\<^sup>*\<^sup>* (start_threads s (map (script call) scripts)) c"
  shows "\<exists>c'. conc_step\<^sup>*\<^sup>* c c' \<and> all_done c'"
    and "(\<nexists>d. conc_step c d) \<Longrightarrow> all_done c \<and> owner c = Map.empty"
proof -
  obtain c' where c': "conc_step\<^sup>*\<^sup>* c c'" "\<nexists>d. conc_step c' d" using conc_steps_end by blast
  then have "all_ordered rank c'"
    using scripts_inv [OF assms] all_ordered_steps by blast
  then show "\<exists>c'. conc_step\<^sup>*\<^sup>* c c' \<and> all_done c'" using all_ordered_progress c' by blast
  show "all_done c \<and> owner c = Map.empty" if "\<nexists>d. conc_step c d"
    using all_ordered_progress [OF scripts_inv [OF assms] that] all_done_free [OF scripts_inv [OF assms]] by blast
qed

end

text \<open>
  The contract of calls whose programs, run alone in a state of an invariant, compute a function
  of the state and keep the invariant.
\<close>

locale described_calls = ordered_calls rank call allowed
  for rank :: "'m \<Rightarrow> nat" and call :: "'c \<Rightarrow> ('m, 's) prog \<Rightarrow> ('m, 's) prog" and allowed :: "'c \<Rightarrow> bool" +
  fixes Inv :: "'s \<Rightarrow> bool" and effect :: "'c \<Rightarrow> 's \<Rightarrow> 's"
  assumes effect_inv: "Inv s \<Longrightarrow> allowed c \<Longrightarrow> Inv (effect c s)"
    and call_alone: "Inv s \<Longrightarrow> allowed c \<Longrightarrow> run_alone (call c p) {} s = run_alone p {} (effect c s)"
begin

lemma script_alone:
  "Inv s \<Longrightarrow> list_all allowed cs \<Longrightarrow> run_alone (script call cs) {} s = Some (fold effect cs s)"
  by (induction cs arbitrary: s) (simp_all add: call_alone effect_inv)

end

end
