(* ===== verification/Bucket_Threads.thy ===== *)
theory Bucket_Threads
  imports Mutexes World
begin

text \<open>
  The mutexes of the registry (\<open>SessionManager\<close>), one per bucket and one for the nickname index,
  and the operations on one bucket, \<open>add_session\<close>, \<open>remove_session\<close> and \<open>find_session\<close>, step by step
  as they lock, read, change and unlock it. A program takes what follows the call as an argument,
  a function of what the call returns.
\<close>

section \<open>The mutexes\<close>

datatype mutex = NicknameMutex | SessionMutex nat

text \<open>
  \<open>register_nickname\<close> closes a session, and so locks a bucket, while it holds the index; nothing
  holds a bucket and locks anything else.
\<close>

primrec mutex_rank :: "mutex \<Rightarrow> nat" where
  "mutex_rank NicknameMutex = 0"
| "mutex_rank (SessionMutex k) = 1"

section \<open>Operations on one bucket\<close>

definition shard_of :: "cint \<Rightarrow> 'z world_scheme \<Rightarrow> nat" where
  "shard_of sid w = shard_index (get_shard (manager w) sid)"

definition bucket_update :: "cint \<Rightarrow> ((cint \<times> sref) list \<Rightarrow> (cint \<times> sref) list) \<Rightarrow> 'z world_scheme
    \<Rightarrow> 'z world_scheme" where
  "bucket_update sid f w = w\<lparr>manager := set_bucket (manager w) sid (f (bucket (manager w) sid))\<rparr>"

text \<open>The parts of \<open>add_session\<close>, \<open>remove_session\<close> and \<open>find_session\<close> that run with the bucket locked.\<close>

definition insert_locked :: "nat \<Rightarrow> cint \<Rightarrow> sref \<Rightarrow> (mutex, 'z world_scheme) prog
    \<Rightarrow> (mutex, 'z world_scheme) prog" where
  "insert_locked sh sid r p = modify (bucket_update sid (AList.update sid r)) (Unlock (SessionMutex sh) p)"

definition add_locked :: "nat \<Rightarrow> cint \<Rightarrow> sref \<Rightarrow> (sref option \<Rightarrow> (mutex, 'z world_scheme) prog)
    \<Rightarrow> (mutex, 'z world_scheme) prog" where
  "add_locked sh sid r k =
     read_state (\<lambda>w. case map_of (bucket (manager w) sid) sid of
         None \<Rightarrow> insert_locked sh sid r (k None)
       | Some q \<Rightarrow> modify (bucket_update sid (AList.delete sid)) (insert_locked sh sid r (k (Some q))))"

definition add_entry_prog :: "cint \<Rightarrow> sref \<Rightarrow> (sref option \<Rightarrow> (mutex, 'z world_scheme) prog)
    \<Rightarrow> (mutex, 'z world_scheme) prog" where
  "add_entry_prog sid r k =
     read_state (\<lambda>w. Lock (SessionMutex (shard_of sid w)) (add_locked (shard_of sid w) sid r k))"

definition remove_locked :: "nat \<Rightarrow> cint \<Rightarrow> (sref option \<Rightarrow> (mutex, 'z world_scheme) prog)
    \<Rightarrow> (mutex, 'z world_scheme) prog" where
  "remove_locked sh sid k =
     read_state (\<lambda>w. case map_of (bucket (manager w) sid) sid of
         None \<Rightarrow> Unlock (SessionMutex sh) (k None)
       | Some q \<Rightarrow> modify (bucket_update sid (AList.delete sid)) (Unlock (SessionMutex sh) (k (Some q))))"

definition remove_session_prog :: "cint \<Rightarrow> (sref option \<Rightarrow> (mutex, 'z world_scheme) prog)
    \<Rightarrow> (mutex, 'z world_scheme) prog" where
  "remove_session_prog sid k =
     read_state (\<lambda>w. Lock (SessionMutex (shard_of sid w)) (remove_locked (shard_of sid w) sid k))"

definition find_locked :: "nat \<Rightarrow> cint \<Rightarrow> (sref option \<Rightarrow> (mutex, 'z world_scheme) prog)
    \<Rightarrow> (mutex, 'z world_scheme) prog" where
  "find_locked sh sid k =
     read_state (\<lambda>w. Unlock (SessionMutex sh) (k (map_of (bucket (manager w) sid) sid)))"

definition find_session_prog :: "cint \<Rightarrow> (sref option \<Rightarrow> (mutex, 'z world_scheme) prog)
    \<Rightarrow> (mutex, 'z world_scheme) prog" where
  "find_session_prog sid k =
     read_state (\<lambda>w. Lock (SessionMutex (shard_of sid w)) (find_locked (shard_of sid w) sid k))"

section \<open>The order of the mutexes\<close>

lemma bucket_ops_ordered:
  assumes "\<forall>x \<in> h. mutex_rank x < 1" and "\<And>x. ordered mutex_rank (k x) h"
  shows "ordered mutex_rank (add_entry_prog sid r k) h"
    and "ordered mutex_rank (remove_session_prog sid k) h"
    and "ordered mutex_rank (find_session_prog sid k) h"
proof -
  have "SessionMutex sh \<notin> h" for sh using assms(1) by force
  then show "ordered mutex_rank (add_entry_prog sid r k) h"
    "ordered mutex_rank (remove_session_prog sid k) h" "ordered mutex_rank (find_session_prog sid k) h"
    using assms by (simp_all add: add_entry_prog_def add_locked_def insert_locked_def remove_session_prog_def
        remove_locked_def find_session_prog_def find_locked_def split: option.split)
qed

section \<open>A call that runs alone\<close>

lemma bucket_update_sm: "manager (bucket_update sid f w) = set_bucket (manager w) sid (f (bucket (manager w) sid))"
  by (simp add: bucket_update_def)

lemma run_remove:
  assumes "\<forall>x \<in> h. mutex_rank x < 1"
  shows "run_alone (remove_session_prog sid k) h w =
    run_alone (k (fst (sm_remove sid (manager w)))) h (w\<lparr>manager := snd (sm_remove sid (manager w))\<rparr>)"
proof -
  have "SessionMutex sh \<notin> h" for sh using assms by force
  then show ?thesis
    by (simp add: remove_session_prog_def remove_locked_def sm_remove_def bucket_update_def Let_def
        split: option.split)
qed

lemma set_bucket_twice: "set_bucket (set_bucket m i b) i c = set_bucket m i c"
  by (simp add: set_bucket_def get_shard_def)

lemma run_add_entry:
  assumes "sm_inv (manager w)"
  shows "run_alone (add_entry_prog sid r k) {} w =
    run_alone (k (fst (sm_add sid r (manager w)))) {} (w\<lparr>manager := snd (sm_add sid r (manager w))\<rparr>)"
proof -
  have "bucket (set_bucket (manager w) sid b) sid = b" for b
    using assms by (simp add: bucket_set_bucket sm_inv_def)
  then show ?thesis
    by (simp add: add_entry_prog_def add_locked_def insert_locked_def sm_add_def bucket_update_def
        Let_def set_bucket_twice split: option.split)
qed

end
