(* ===== verification/Manager_Threads.thy ===== *)
theory Manager_Threads
  imports Bucket_Threads Data_Handler
begin

text \<open>
  The operations of the registry (\<open>SessionManager\<close>) on several buckets or on the nickname index, and
  the operations that call it, step by step as they lock and unlock its mutexes. Threads run them
  concurrently. The theory proves that, except for \<open>unregister_nickname\<close>, they finish whatever
  the schedule, and that each of them, run alone, is the operation of the other theories.
\<close>

section \<open>Closing and adding a session\<close>

type_synonym call_prog = "(mutex, world) prog"

text \<open>The flag is exchanged in one step; the later changes of the session are steps of their own.\<close>

definition close_session_prog :: "sref \<Rightarrow> call_prog \<Rightarrow> call_prog" where
  "close_session_prog r p =
     Act (upd r (\<lambda>s. s\<lparr>closed := True\<rparr>)) (\<lambda>w. if closed (heap w r) then p else
     modify (upd r (\<lambda>s. s\<lparr>sstate := Closed\<rparr>))
     (modify (upd r (\<lambda>s. s\<lparr>sock := (sock s)\<lparr>sk_open := False\<rparr>\<rparr>))
     (read_state (\<lambda>w. if handler_alive w
        then remove_session_prog (session_id (heap w r)) (\<lambda>_. p) else p))))"

definition add_session_prog :: "sref \<Rightarrow> call_prog \<Rightarrow> call_prog" where
  "add_session_prog r p =
     read_state (\<lambda>w. add_entry_prog (session_id (heap w r)) r (\<lambda>replaced.
       case replaced of
         None \<Rightarrow> p
       | Some q \<Rightarrow> read_state (\<lambda>w. if \<not> closed (heap w q) then close_session_prog q p else p)))"

section \<open>Visiting all buckets\<close>

text \<open>Each bucket is locked, read and unlocked in turn.\<close>

primrec visit_shards :: "nat list \<Rightarrow> (world \<Rightarrow> (cint \<times> sref) list \<Rightarrow> 'a \<Rightarrow> 'a) \<Rightarrow> 'a \<Rightarrow> ('a \<Rightarrow> call_prog)
    \<Rightarrow> call_prog" where
  "visit_shards [] f a k = k a"
| "visit_shards (sh # shs) f a k =
     Lock (SessionMutex sh) (read_state (\<lambda>w. Unlock (SessionMutex sh)
       (visit_shards shs f (f w (session_buckets (manager w) ! sh) a) k)))"

definition visit_all_shards :: "(world \<Rightarrow> (cint \<times> sref) list \<Rightarrow> 'a \<Rightarrow> 'a) \<Rightarrow> 'a \<Rightarrow> ('a \<Rightarrow> call_prog)
    \<Rightarrow> call_prog" where
  "visit_all_shards f a k =
     read_state (\<lambda>w. visit_shards [0..<unat (shard_count (manager w))] f a k)"

definition session_count_prog :: "(nat \<Rightarrow> call_prog) \<Rightarrow> call_prog" where
  "session_count_prog k = visit_all_shards (\<lambda>w b n. n + length b) 0 k"

definition get_total_session_count_prog :: "(nat \<Rightarrow> call_prog) \<Rightarrow> call_prog" where
  "get_total_session_count_prog k = visit_all_shards (\<lambda>w b n. n + length b) 0 k"

definition for_each_session_prog :: "(sref \<Rightarrow> call_prog \<Rightarrow> call_prog) \<Rightarrow> call_prog \<Rightarrow> call_prog" where
  "for_each_session_prog fn p =
     visit_all_shards (\<lambda>w b acc. acc @ map snd b) [] (\<lambda>sessions. foldr fn sessions p)"

definition cleanup_inactive_sessions_prog :: "int \<Rightarrow> int \<Rightarrow> call_prog \<Rightarrow> call_prog" where
  "cleanup_inactive_sessions_prog now max_idle_time p =
     visit_all_shards (\<lambda>w b acc. acc @ filter (\<lambda>r. max_idle_time < now - last_alive_time (heap w r)) (map snd b)) []
       (\<lambda>to_close. foldr close_session_prog to_close p)"

section \<open>The nickname index\<close>

definition index_nickname :: "string \<Rightarrow> sref \<Rightarrow> world \<Rightarrow> world" where
  "index_nickname n r w = w\<lparr>manager := (manager w)\<lparr>nickname_index := (nickname_index (manager w))(n \<mapsto> r)\<rparr>\<rparr>"

definition register_nickname_prog :: "string \<Rightarrow> sref \<Rightarrow> call_prog \<Rightarrow> call_prog" where
  "register_nickname_prog n r p =
     (let finish = modify (index_nickname n r) (Unlock NicknameMutex p) in
      Lock NicknameMutex (read_state (\<lambda>w.
        case nickname_index (manager w) n of
          None \<Rightarrow> finish
        | Some q \<Rightarrow> (case weak_lock (alive w) q of
              None \<Rightarrow> finish
            | Some prev \<Rightarrow>
                if prev \<noteq> r
                then modify (post_write False prev kicked_notice) (close_session_prog prev finish)
                else finish))))"

definition find_session_by_nickname_prog :: "string \<Rightarrow> (sref option \<Rightarrow> call_prog) \<Rightarrow> call_prog" where
  "find_session_by_nickname_prog n k =
     Lock NicknameMutex (read_state (\<lambda>w. Unlock NicknameMutex
       (k (find_session_by_nickname (alive w) n (manager w)))))"

definition drop_expired :: "world \<Rightarrow> world" where
  "drop_expired w = w\<lparr>manager := (manager w)\<lparr>nickname_index := (\<lambda>n.
     case nickname_index (manager w) n of None \<Rightarrow> None | Some r \<Rightarrow> weak_lock (alive w) r)\<rparr>\<rparr>"

definition cleanup_expired_nicknames_prog :: "call_prog \<Rightarrow> call_prog" where
  "cleanup_expired_nicknames_prog p =
     Lock NicknameMutex (modify drop_expired (Unlock NicknameMutex p))"

definition erase_own_nickname :: "string \<Rightarrow> sref \<Rightarrow> world \<Rightarrow> world" where
  "erase_own_nickname n r w =
     (case nickname_index (manager w) n of
        None \<Rightarrow> w
      | Some q \<Rightarrow> if weak_lock (alive w) q = Some r
          then w\<lparr>manager := (manager w)\<lparr>nickname_index := (nickname_index (manager w))(n := None)\<rparr>\<rparr> else w)"

definition unregister_nickname_prog :: "string \<Rightarrow> sref \<Rightarrow> call_prog \<Rightarrow> call_prog" where
  "unregister_nickname_prog n r p =
     Lock NicknameMutex (modify (erase_own_nickname n r)
       (cleanup_expired_nicknames_prog (Unlock NicknameMutex p)))"

section \<open>Callers of the registry\<close>

text \<open>The login handler after it has read a nickname that is not empty.\<close>

definition login_commit_prog :: "string \<Rightarrow> sref \<Rightarrow> call_prog \<Rightarrow> call_prog" where
  "login_commit_prog n r p =
     modify (upd r (\<lambda>s. s\<lparr>nickname := n\<rparr>))
    (modify (upd r (\<lambda>s. s\<lparr>nickname_registered := True\<rparr>))
    (modify (upd r (\<lambda>s. s\<lparr>sstate := Ready\<rparr>))
    (modify (upd r (\<lambda>s. s\<lparr>login_timer := None\<rparr>))
    (register_nickname_prog n r p))))"

definition login_prog :: "string \<Rightarrow> sref \<Rightarrow> call_prog \<Rightarrow> call_prog" where
  "login_prog n r p =
     find_session_by_nickname_prog n (\<lambda>found.
       if found \<noteq> None then modify (post_write True r nickname_in_use) p
       else login_commit_prog n r (modify (post_write True r login_ok) p))"

text \<open>The sweep of unauthenticated sessions reads the state of one session at a time.\<close>

primrec collect_unauth :: "sref list \<Rightarrow> sref list \<Rightarrow> (sref list \<Rightarrow> call_prog) \<Rightarrow> call_prog" where
  "collect_unauth [] acc k = k acc"
| "collect_unauth (r # rs) acc k =
     read_state (\<lambda>w. collect_unauth rs (if unauthenticated (heap w r) then acc @ [r] else acc) k)"

definition cleanup_unauth_sessions_prog ::
    "((sref \<Rightarrow> int) \<Rightarrow> sref list \<Rightarrow> sref list) \<Rightarrow> nat \<Rightarrow> call_prog \<Rightarrow> call_prog" where
  "cleanup_unauth_sessions_prog srt max_unauth p =
     visit_all_shards (\<lambda>w b acc. acc @ map snd b) [] (\<lambda>sessions.
       collect_unauth sessions [] (\<lambda>us.
         if max_unauth < length us
         then read_state (\<lambda>w. foldr close_session_prog
           (take (length us - max_unauth) (srt (\<lambda>r. last_alive_time (heap w r)) us)) p)
         else p))"

datatype manager_call =
    AddSession sref
  | RemoveSession cint
  | FindSession cint
  | CountSessions
  | TotalSessions
  | RegisterNickname string sref
  | UnregisterNickname string sref
  | FindByNickname string
  | CleanupNicknames
  | CleanupInactive int int
  | CleanupUnauth "(sref \<Rightarrow> int) \<Rightarrow> sref list \<Rightarrow> sref list" nat
  | CloseSession sref
  | Login string sref

primrec call_prog_of :: "manager_call \<Rightarrow> call_prog \<Rightarrow> call_prog" where
  "call_prog_of (AddSession r) p = add_session_prog r p"
| "call_prog_of (RemoveSession sid) p = remove_session_prog sid (\<lambda>_. p)"
| "call_prog_of (FindSession sid) p = find_session_prog sid (\<lambda>_. p)"
| "call_prog_of CountSessions p = session_count_prog (\<lambda>_. p)"
| "call_prog_of TotalSessions p = get_total_session_count_prog (\<lambda>_. p)"
| "call_prog_of (RegisterNickname n r) p = register_nickname_prog n r p"
| "call_prog_of (UnregisterNickname n r) p = unregister_nickname_prog n r p"
| "call_prog_of (FindByNickname n) p = find_session_by_nickname_prog n (\<lambda>_. p)"
| "call_prog_of CleanupNicknames p = cleanup_expired_nicknames_prog p"
| "call_prog_of (CleanupInactive now limit) p = cleanup_inactive_sessions_prog now limit p"
| "call_prog_of (CleanupUnauth srt n) p = cleanup_unauth_sessions_prog srt n p"
| "call_prog_of (CloseSession r) p = close_session_prog r p"
| "call_prog_of (Login n r) p = login_prog n r p"

primrec returning :: "manager_call \<Rightarrow> bool" where
  "returning (AddSession r) = True"
| "returning (RemoveSession sid) = True"
| "returning (FindSession sid) = True"
| "returning CountSessions = True"
| "returning TotalSessions = True"
| "returning (RegisterNickname n r) = True"
| "returning (UnregisterNickname n r) = False"
| "returning (FindByNickname n) = True"
| "returning CleanupNicknames = True"
| "returning (CleanupInactive now limit) = True"
| "returning (CleanupUnauth srt n) = True"
| "returning (CloseSession r) = True"
| "returning (Login n r) = True"

text \<open>What each call does to the world, in the definitions of the other theories.\<close>

primrec call_effect :: "manager_call \<Rightarrow> world \<Rightarrow> world" where
  "call_effect (AddSession r) w = add_session r w"
| "call_effect (RemoveSession sid) w = remove_session sid w"
| "call_effect (FindSession sid) w = w"
| "call_effect CountSessions w = w"
| "call_effect TotalSessions w = w"
| "call_effect (RegisterNickname n r) w = register_nickname n r w"
| "call_effect (UnregisterNickname n r) w = w"
| "call_effect (FindByNickname n) w = w"
| "call_effect CleanupNicknames w =
     (case cleanup_expired_nicknames False (alive w) (manager w) of
        None \<Rightarrow> w | Some m \<Rightarrow> w\<lparr>manager := m\<rparr>)"
| "call_effect (CleanupInactive now limit) w = cleanup_inactive_sessions now limit w"
| "call_effect (CleanupUnauth srt n) w = cleanup_unauth_sessions srt n w"
| "call_effect (CloseSession r) w = close_session r w"
| "call_effect (Login n r) w =
     (if find_session_by_nickname (alive w) n (manager w) \<noteq> None
      then post_write True r nickname_in_use w
      else post_write True r login_ok (login_commit n r w))"

section \<open>The order of the mutexes\<close>

lemma close_session_ordered:
  "\<forall>x \<in> h. mutex_rank x < 1 \<Longrightarrow> ordered mutex_rank p h \<Longrightarrow> ordered mutex_rank (close_session_prog r p) h"
  by (simp add: close_session_prog_def bucket_ops_ordered(2))

lemma foldr_ordered:
  "(\<And>r p. ordered mutex_rank p {} \<Longrightarrow> ordered mutex_rank (fn r p) {}) \<Longrightarrow> ordered mutex_rank p {} \<Longrightarrow>
     ordered mutex_rank (foldr fn rs p) {}"
  by (induction rs) simp_all

lemma visit_shards_ordered:
  "(\<And>a. ordered mutex_rank (k a) {}) \<Longrightarrow> ordered mutex_rank (visit_shards shs f a k) {}"
  by (induction shs arbitrary: a) simp_all

lemma visit_all_ordered:
  "(\<And>a. ordered mutex_rank (k a) {}) \<Longrightarrow> ordered mutex_rank (visit_all_shards f a k) {}"
  by (simp add: visit_all_shards_def visit_shards_ordered)

lemma collect_unauth_ordered:
  "(\<And>a. ordered mutex_rank (k a) {}) \<Longrightarrow> ordered mutex_rank (collect_unauth rs acc k) {}"
  by (induction rs arbitrary: acc) simp_all

lemma nickname_ops_ordered:
  "ordered mutex_rank p {} \<Longrightarrow> ordered mutex_rank (register_nickname_prog n r p) {}"
  "(\<And>x. ordered mutex_rank (k x) {}) \<Longrightarrow> ordered mutex_rank (find_session_by_nickname_prog n k) {}"
  "ordered mutex_rank p {} \<Longrightarrow> ordered mutex_rank (cleanup_expired_nicknames_prog p) {}"
  by (simp_all add: register_nickname_prog_def find_session_by_nickname_prog_def
      cleanup_expired_nicknames_prog_def Let_def close_session_ordered split: option.split)

lemma login_commit_ordered:
  "ordered mutex_rank p {} \<Longrightarrow> ordered mutex_rank (login_commit_prog n r p) {}"
  by (simp add: login_commit_prog_def nickname_ops_ordered)

lemmas programs_ordered = bucket_ops_ordered [where h = "{}", simplified] close_session_ordered
  foldr_ordered visit_all_ordered collect_unauth_ordered nickname_ops_ordered login_commit_ordered

lemma call_prog_ordered:
  "returning c \<Longrightarrow> ordered mutex_rank p {} \<Longrightarrow> ordered mutex_rank (call_prog_of c p) {}"
  by (cases c) (simp_all add: add_session_prog_def session_count_prog_def get_total_session_count_prog_def
      cleanup_inactive_sessions_prog_def cleanup_unauth_sessions_prog_def login_prog_def programs_ordered
      split: option.split)

section \<open>A call that runs alone\<close>

lemma upd_upd: "upd r f (upd r g w) = upd r (\<lambda>s. f (g s)) w"
  by (simp add: upd_def)

lemma upd_ident: "f (heap w r) = heap w r \<Longrightarrow> upd r f w = w"
  by (simp add: upd_def)

lemma run_close:
  assumes "\<forall>x \<in> h. mutex_rank x < 1"
  shows "run_alone (close_session_prog r p) h w = run_alone p h (close_session r w)"
proof (cases "closed (heap w r)")
  case True
  then have "(heap w r)\<lparr>closed := True\<rparr> = heap w r" by (cases "heap w r") simp
  with True show ?thesis by (simp add: close_session_prog_def close_session_def upd_ident)
next
  case False
  have "upd r (\<lambda>s. s\<lparr>sock := (sock s)\<lparr>sk_open := False\<rparr>\<rparr>)
      (upd r (\<lambda>s. s\<lparr>sstate := Closed\<rparr>) (upd r (\<lambda>s. s\<lparr>closed := True\<rparr>) w)) = upd r close_fields w"
    by (simp add: upd_def close_fields_def)
  with False show ?thesis
    by (simp add: close_session_prog_def close_session_def run_remove [OF assms] remove_session_def)
qed

lemma run_add_session:
  assumes "sm_inv (manager w)"
  shows "run_alone (add_session_prog r p) {} w = run_alone p {} (add_session r w)"
  using assms
  by (simp add: add_session_prog_def run_add_entry run_close add_session_def Let_def split: prod.split option.split)

lemma run_visit:
  "run_alone (visit_shards shs f a k) {} w =
     run_alone (k (fold (f w) (map ((!) (session_buckets (manager w))) shs) a)) {} w"
  by (induction shs arbitrary: a) simp_all

lemma run_visit_all:
  assumes "sm_inv (manager w)"
  shows "run_alone (visit_all_shards f a k) {} w =
    run_alone (k (fold (f w) (session_buckets (manager w)) a)) {} w"
proof -
  have "map ((!) (session_buckets (manager w))) [0..<unat (shard_count (manager w))] = session_buckets (manager w)"
    using assms map_nth [of "session_buckets (manager w)"] by (simp add: sm_inv_def shards_ok_def)
  then show ?thesis by (simp add: visit_all_shards_def run_visit)
qed

lemma fold_collect: "fold (\<lambda>b acc. acc @ g b) bs acc = acc @ concat (map g bs)"
  by (induction bs arbitrary: acc) simp_all

lemma filter_sessions:
  "concat (map (\<lambda>b. filter P (map snd b)) (session_buckets m)) = filter P (sm_sessions m)"
  by (simp add: sm_sessions_def filter_concat comp_def)

lemma run_foldr:
  assumes "\<And>r p w. run_alone (fn r p) {} w = run_alone p {} (g r w)"
  shows "run_alone (foldr fn rs p) {} w = run_alone p {} (fold g rs w)"
  by (induction rs arbitrary: w) (simp_all add: assms)

lemma run_close_all: "run_alone (foldr close_session_prog rs p) {} w = run_alone p {} (close_all rs w)"
  by (simp add: close_all_def run_foldr run_close)

lemma run_collect_unauth:
  "run_alone (collect_unauth rs acc k) {} w =
     run_alone (k (acc @ filter (\<lambda>r. unauthenticated (heap w r)) rs)) {} w"
  by (induction rs arbitrary: acc) simp_all

lemma run_register:
  "run_alone (register_nickname_prog n r p) {} w = run_alone p {} (register_nickname n r w)"
  by (simp add: register_nickname_prog_def register_nickname_def index_nickname_def run_close Let_def
      split: option.split)

lemma run_find_nickname:
  "run_alone (find_session_by_nickname_prog n k) {} w =
     run_alone (k (find_session_by_nickname (alive w) n (manager w))) {} w"
  by (simp add: find_session_by_nickname_prog_def)

lemma run_cleanup_nicknames:
  "run_alone (cleanup_expired_nicknames_prog p) {} w = run_alone p {} (drop_expired w)"
  by (simp add: cleanup_expired_nicknames_prog_def)

lemma registered_steps:
  "upd r (\<lambda>s. s\<lparr>login_timer := None\<rparr>) (upd r (\<lambda>s. s\<lparr>sstate := Ready\<rparr>)
     (upd r (\<lambda>s. s\<lparr>nickname_registered := True\<rparr>) w)) = upd r on_nickname_registered w"
  by (simp add: upd_def on_nickname_registered_def)

lemma run_login_commit:
  "run_alone (login_commit_prog n r p) {} w = run_alone p {} (login_commit n r w)"
  by (simp add: login_commit_prog_def run_register registered_steps login_commit_def)

lemma run_login:
  "run_alone (login_prog n r p) {} w = run_alone p {} (call_effect (Login n r) w)"
  by (simp add: login_prog_def run_find_nickname run_login_commit)

lemma call_prog_alone:
  assumes "sm_inv (manager w)" and "returning c"
  shows "run_alone (call_prog_of c p) {} w = run_alone p {} (call_effect c w)"
proof (cases c)
  case (CleanupUnauth srt n)
  then show ?thesis using assms(1)
    by (simp add: cleanup_unauth_sessions_prog_def run_visit_all fold_collect run_collect_unauth run_close_all
        cleanup_unauth_sessions_def unauth_sessions_def sm_sessions_def Let_def)
next
  case (CleanupInactive now limit)
  then show ?thesis using assms(1)
    by (simp add: cleanup_inactive_sessions_prog_def run_visit_all fold_collect run_close_all
        cleanup_inactive_sessions_def filter_sessions)
qed (use assms in \<open>simp_all add: run_add_session run_remove remove_session_def run_register run_find_nickname
    session_count_prog_def get_total_session_count_prog_def run_visit_all find_session_prog_def find_locked_def
    run_cleanup_nicknames cleanup_expired_nicknames_def drop_expired_def run_close run_login
    del: call_effect.simps(13)\<close>)

lemma close_all_sm_inv: "sm_inv (manager w) \<Longrightarrow> sm_inv (manager (close_all rs w))"
  unfolding close_all_def by (induction rs arbitrary: w) (simp_all add: close_session_sm_inv)

lemma call_effect_sm_inv: "sm_inv (manager w) \<Longrightarrow> sm_inv (manager (call_effect c w))"
  by (cases c) (simp_all add: add_session_sm_inv reg.remove_inv register_nickname_sm_inv close_all_sm_inv
      cleanup_expired_nicknames_def cleanup_inactive_sessions_def cleanup_unauth_sessions_def Let_def
      close_session_sm_inv login_commit_def)

interpretation mgr: described_calls mutex_rank call_prog_of returning "\<lambda>w. sm_inv (manager w)" call_effect
  by unfold_locales (simp_all add: call_prog_ordered call_prog_alone call_effect_sm_inv)

section \<open>The call that never returns\<close>

text \<open>
  The three places at which a thread in \<open>unregister_nickname\<close> can be: before its lock, and the two
  steps it can still make while it owns the mutex.
\<close>

definition unregistering :: "nat \<Rightarrow> string \<Rightarrow> sref \<Rightarrow> call_prog \<Rightarrow> (mutex, world) threads \<Rightarrow> bool" where
  "unregistering i n r p c \<longleftrightarrow> i < length (progs c)
     \<and> (progs c ! i = unregister_nickname_prog n r p
        \<or> owner c NicknameMutex = Some i
          \<and> progs c ! i \<in> {modify (erase_own_nickname n r) (cleanup_expired_nicknames_prog (Unlock NicknameMutex p)),
               cleanup_expired_nicknames_prog (Unlock NicknameMutex p)})"

lemma unregistering_step:
  assumes "unregistering i n r p c" and "conc_step c d"
  shows "unregistering i n r p d
    \<and> (owner c NicknameMutex = Some i \<longrightarrow> owner d NicknameMutex = Some i)"
proof -
  from assms(2) obtain j where "thread_step j c = Some d" by (rule conc_stepE)
  then show ?thesis
    using assms(1) by (cases rule: thread_stepE; cases "j = i")
      (auto simp: unregistering_def unregister_nickname_prog_def cleanup_expired_nicknames_prog_def)
qed

lemma unregistering_steps:
  "conc_step\<^sup>*\<^sup>* c d \<Longrightarrow> unregistering i n r p c \<Longrightarrow> unregistering i n r p d
     \<and> (owner c NicknameMutex = Some i \<longrightarrow> owner d NicknameMutex = Some i)"
  by (induction rule: rtranclp_induct) (use unregistering_step in blast)+

lemma blocked_stays:
  assumes "conc_step\<^sup>*\<^sup>* c d" and "unregistering i n r p c" and "owner c NicknameMutex = Some i"
    and "j \<noteq> i" and "progs c ! j = Lock NicknameMutex q"
  shows "progs d ! j = Lock NicknameMutex q"
  using assms(1)
proof (induction rule: rtranclp_induct)
  case (step d e)
  have "owner d NicknameMutex = Some i" using unregistering_steps [OF step.hyps(1) assms(2)] assms(3) by blast
  moreover from step.hyps(2) obtain k where k: "thread_step k d = Some e" by (rule conc_stepE)
  ultimately show ?case
    using step.IH by (cases rule: thread_stepE [OF k]; cases "k = j") auto
qed (rule assms(5))

text \<open>
  C35. A thread that calls \<open>unregister_nickname\<close> never returns from it, under any schedule and
  whatever the other threads run. Once it has the mutex of the nickname index it keeps it, so
  every thread that is about to register or look up a nickname stays where it is.
\<close>

theorem unregister_blocks_all_logins:
  assumes "i < length ps" and "ps ! i = unregister_nickname_prog n r p"
    and "conc_step\<^sup>*\<^sup>* (start_threads w ps) c"
  shows "progs c ! i \<noteq> Done
    \<and> (owner c NicknameMutex = Some i \<longrightarrow> (\<forall>d. conc_step\<^sup>*\<^sup>* c d \<longrightarrow> owner d NicknameMutex = Some i
         \<and> (\<forall>j m q k k'. j \<noteq> i \<and> progs c ! j \<in> {register_nickname_prog m q k, find_session_by_nickname_prog m k'}
              \<longrightarrow> progs d ! j = progs c ! j)))"
proof -
  have u: "unregistering i n r p c"
    using unregistering_steps [OF assms(3)] assms(1,2) by (simp add: unregistering_def start_threads_def)
  have "progs c ! i \<noteq> Done"
    using u by (auto simp: unregistering_def unregister_nickname_prog_def cleanup_expired_nicknames_prog_def)
  moreover have "progs d ! j = progs c ! j"
    if o: "owner c NicknameMutex = Some i" and st: "conc_step\<^sup>*\<^sup>* c d" and ne: "j \<noteq> i"
      and at: "progs c ! j \<in> {register_nickname_prog m q k, find_session_by_nickname_prog m k'}" for d j m q k k'
  proof -
    obtain x where "progs c ! j = Lock NicknameMutex x"
      using at by (auto simp: register_nickname_prog_def find_session_by_nickname_prog_def Let_def)
    with blocked_stays [OF st u o ne] show ?thesis by simp
  qed
  moreover note unregistering_steps [OF _ u]
  ultimately show ?thesis by blast
qed

definition hanging_threads :: "call_prog list" where
  "hanging_threads = [script call_prog_of [UnregisterNickname ''bob'' 1], script call_prog_of [Login ''amy'' 2]]"

theorem unregister_blocks_all_logins_witness:
  "\<exists>c. run_schedule [0, 0] (start_threads demo_world hanging_threads) = Some c
     \<and> owner c NicknameMutex = Some 0 \<and> progs c ! 0 \<noteq> Done"
proof -
  obtain c where c: "run_schedule [0, 0] (start_threads demo_world hanging_threads) = Some c"
      "owner c NicknameMutex = Some 0"
    by (auto simp: hanging_threads_def start_threads_def thread_step_def unregister_nickname_prog_def)
  have "hanging_threads ! 0 = unregister_nickname_prog ''bob'' 1 Done" by (simp add: hanging_threads_def)
  then have "progs c ! 0 \<noteq> Done"
    using unregister_blocks_all_logins [of 0 hanging_threads _ _ _ demo_world, OF _ _ run_schedule_steps [OF c(1)]]
    by (simp add: hanging_threads_def)
  with c show ?thesis by blast
qed

end
