(* ===== verification/Handler_Threads.thy ===== *)
theory Handler_Threads
  imports Manager_Threads
begin

text \<open>
  The handlers of the sessions as programs of threads: the completion of a read with all the packets
  it brings, the completion of a write, a closure that waited for the strand, the first read of
  an accepted connection. Each step changes one thing that others can see: a flag or the state of a
  session, its socket, the registry. What only the strand of a session touches (its receive buffer,
  its queues and the guard of its reads) may change in one step. The theory proves that each
  handler, run alone, is the handler of the other theories, and that threads that run any of them
  and any calls of the registry always finish.
\<close>

section \<open>Reads\<close>

text \<open>The closure that \<open>do_read\<close> posts runs now, waits for the strand, or finds the queue full.\<close>

definition post_task_now :: "bool \<Rightarrow> sref \<Rightarrow> world \<Rightarrow> world" where
  "post_task_now inside r w =
     (if \<not> runs_now inside r w then upd r (queue_job (JobTask ReadSome)) w
      else if max_task_queue (app_config w) \<le> length (task_queue (heap w r)) then w
      else upd r (push_task ReadSome) w)"

definition post_task_prog :: "bool \<Rightarrow> sref \<Rightarrow> call_prog \<Rightarrow> call_prog" where
  "post_task_prog inside r p =
     Act (post_task_now inside r) (\<lambda>w.
       if runs_now inside r w \<and> max_task_queue (app_config w) \<le> length (task_queue (heap w r))
       then close_session_prog r p else p)"

text \<open>The state is read before the guard is taken.\<close>

definition do_read_prog :: "bool \<Rightarrow> sref \<Rightarrow> call_prog \<Rightarrow> call_prog" where
  "do_read_prog inside r p =
     read_state (\<lambda>w. if sstate (heap w r) = Closed then p
       else Act (upd r (\<lambda>s. s\<lparr>read_pending := True\<rparr>)) (\<lambda>w.
         if read_pending (heap w r) then p else post_task_prog inside r p))"

section \<open>Packets\<close>

text \<open>The second argument of a handler's continuation: whether it has thrown.\<close>

type_synonym 'j handler_prog = "sref \<Rightarrow> 'j \<Rightarrow> (bool \<Rightarrow> call_prog) \<Rightarrow> call_prog"

definition login_handler_prog :: "'j json_lib \<Rightarrow> 'j handler_prog" where
  "login_handler_prog jl r msg k =
     (case value_string jl msg ''nickname'' [] of
        None \<Rightarrow> k True
      | Some n \<Rightarrow>
          if n = [] then modify (post_write True r nickname_required) (k False)
          else login_prog n r (k False))"

definition insert_handler_prog :: "'j json_lib \<Rightarrow> 'j handler_prog" where
  "insert_handler_prog jl r msg k =
     (case dump jl msg of
        None \<Rightarrow> k True
      | Some _ \<Rightarrow>
     (case value_string jl msg ''table'' [] of
        None \<Rightarrow> k True
      | Some table \<Rightarrow>
     (case value_json jl msg ''values'' (empty_object jl) of
        None \<Rightarrow> k True
      | Some vals \<Rightarrow>
     (case dump jl vals of
        None \<Rightarrow> k True
      | Some _ \<Rightarrow>
     (case insert_query jl table vals of
        None \<Rightarrow> k True
      | Some query \<Rightarrow>
          modify (\<lambda>w. w\<lparr>sql_log := sql_log w @ [query]\<rparr>) (modify (post_write True r insert_ok) (k False)))))))"

definition handler_progs :: "'j json_lib \<Rightarrow> string \<Rightarrow> 'j handler_prog option" where
  "handler_progs jl = [''login'' \<mapsto> login_handler_prog jl, ''insert'' \<mapsto> insert_handler_prog jl]"

definition dispatch_type_prog :: "'j json_lib \<Rightarrow> 'j handler_prog" where
  "dispatch_type_prog jl r msg k =
     (case value_string jl msg ''type'' [] of
        None \<Rightarrow> k True
      | Some t \<Rightarrow>
          (case handler_progs jl t of
             Some h \<Rightarrow> h r msg k
           | None \<Rightarrow> modify (post_write True r unknown_type) (k False)))"

definition dispatch_prog :: "'j json_lib \<Rightarrow> string \<Rightarrow> sref \<Rightarrow> string \<Rightarrow> (bool \<Rightarrow> call_prog) \<Rightarrow> call_prog" where
  "dispatch_prog jl sec r packet k =
     (let has = has_secret_prefix sec packet in
      read_state (\<lambda>w.
      if \<not> nickname_registered (heap w r)
      then if \<not> has then close_session_prog r (k False)
        else (case jparse jl (drop (length sec) packet) of
            None \<Rightarrow> close_session_prog r (k False)
          | Some msg \<Rightarrow>
              (case value_string jl msg ''type'' [] of
                 None \<Rightarrow> k True
               | Some t \<Rightarrow> if t \<noteq> ''login'' then close_session_prog r (k False)
                           else dispatch_type_prog jl r msg k))
      else (case jparse jl (if has then drop (length sec) packet else packet) of
            None \<Rightarrow> close_session_prog r (k False)
          | Some msg \<Rightarrow>
              (case value_string jl msg ''type'' [] of
                 None \<Rightarrow> k True
               | Some t \<Rightarrow> if t = ''keepalive'' \<and> \<not> has then close_session_prog r (k False)
                           else dispatch_type_prog jl r msg k))))"

definition report_failure_prog :: "sref \<Rightarrow> call_prog \<Rightarrow> call_prog" where
  "report_failure_prog r p =
     modify (upd r (\<lambda>s. s\<lparr>message := parsing_failed\<rparr>)) (modify (post_write True r parsing_failed) p)"

definition handle_packet_prog :: "'j json_lib \<Rightarrow> string \<Rightarrow> sref \<Rightarrow> string \<Rightarrow> call_prog \<Rightarrow> call_prog" where
  "handle_packet_prog jl sec r packet p =
     read_state (\<lambda>w. if handler_alive w
       then dispatch_prog jl sec r packet (\<lambda>thrown. if thrown then report_failure_prog r p else p) else p)"

text \<open>The buffer is the session's own: its contents are an argument of the loop.\<close>

function read_loop_prog :: "'j json_lib \<Rightarrow> string \<Rightarrow> sref \<Rightarrow> msgbuf \<Rightarrow> call_prog \<Rightarrow> call_prog" where
  "read_loop_prog jl sec r mb p =
     (case extract_message mb of
        (None, mb') \<Rightarrow> modify (set_buf r mb') p
      | (Some m, mb') \<Rightarrow> modify (set_buf r mb') (handle_packet_prog jl sec r m (read_loop_prog jl sec r mb' p)))"
  by pat_completeness auto
termination
  by (relation "measure (\<lambda>(jl, sec, r, mb, p). length (mb_buffer mb))") (auto dest: extract_message_shorter [OF sym])

declare read_loop_prog.simps [simp del]

definition read_callback_prog :: "'j json_lib \<Rightarrow> string \<Rightarrow> sref \<Rightarrow> read_result \<Rightarrow> call_prog \<Rightarrow> call_prog" where
  "read_callback_prog jl sec r res p =
     (let next = modify (upd r run_next_task) p in
      modify (upd r read_done)
     (case res of
        ReadOk d \<Rightarrow>
          modify (upd r (append_data d))
         (read_state (\<lambda>w. read_loop_prog jl sec r (msg_buf (heap w r)) (read_state (\<lambda>w.
            if was_last_clear_by_invalid_length (msg_buf (heap w r)) then close_session_prog r p
            else do_read_prog True r next))))
      | ReadEof \<Rightarrow> close_session_prog r next
      | ReadReset \<Rightarrow> close_session_prog r next
      | ReadAborted \<Rightarrow> next
      | ReadError \<Rightarrow> close_session_prog r next))"

section \<open>Writes and waiting closures\<close>

definition on_write_prog :: "bool \<Rightarrow> sref \<Rightarrow> call_prog \<Rightarrow> call_prog" where
  "on_write_prog err r p =
     Act (upd r (\<lambda>s. fst (write_callback err s))) (\<lambda>w.
       if snd (write_callback err (heap w r)) then close_session_prog r p else p)"

definition strand_job_now :: "sref \<Rightarrow> world \<Rightarrow> world" where
  "strand_job_now r w =
     (case strand_jobs (heap w r) of
        [] \<Rightarrow> w
      | JobTask t # js \<Rightarrow>
          (let w1 = upd r (\<lambda>s. s\<lparr>strand_jobs := js\<rparr>) w in
           if max_task_queue (app_config w) \<le> length (task_queue (heap w r)) then w1 else upd r (push_task t) w1)
      | JobWrite m # js \<Rightarrow> upd r (\<lambda>s. post_write_job (app_config w) m (s\<lparr>strand_jobs := js\<rparr>)) w)"

definition strand_job_prog :: "sref \<Rightarrow> call_prog \<Rightarrow> call_prog" where
  "strand_job_prog r p =
     Act (strand_job_now r) (\<lambda>w.
       case strand_jobs (heap w r) of
         JobTask t # js \<Rightarrow>
           if max_task_queue (app_config w) \<le> length (task_queue (heap w r)) then close_session_prog r p else p
       | _ \<Rightarrow> p)"

section \<open>All that threads run\<close>

datatype server_call =
    OnRead sref read_result
  | OnWrite bool sref
  | StrandJob sref
  | StartRead sref
  | Registry manager_call

primrec server_prog :: "'j json_lib \<Rightarrow> string \<Rightarrow> server_call \<Rightarrow> call_prog \<Rightarrow> call_prog" where
  "server_prog jl sec (OnRead r res) p = read_callback_prog jl sec r res p"
| "server_prog jl sec (OnWrite err r) p = on_write_prog err r p"
| "server_prog jl sec (StrandJob r) p = strand_job_prog r p"
| "server_prog jl sec (StartRead r) p = do_read_prog False r p"
| "server_prog jl sec (Registry c) p = call_prog_of c p"

primrec server_effect :: "'j json_lib \<Rightarrow> string \<Rightarrow> server_call \<Rightarrow> world \<Rightarrow> world" where
  "server_effect jl sec (OnRead r res) w = snd (read_callback jl sec r res w)"
| "server_effect jl sec (OnWrite err r) w = on_write err r w"
| "server_effect jl sec (StrandJob r) w = run_strand_job r w"
| "server_effect jl sec (StartRead r) w = do_read False r w"
| "server_effect jl sec (Registry c) w = call_effect c w"

primrec server_returning :: "server_call \<Rightarrow> bool" where
  "server_returning (OnRead r res) = True"
| "server_returning (OnWrite err r) = True"
| "server_returning (StrandJob r) = True"
| "server_returning (StartRead r) = True"
| "server_returning (Registry c) = returning c"

section \<open>The order of the mutexes\<close>

lemma close_free: "ordered mutex_rank p {} \<Longrightarrow> ordered mutex_rank (close_session_prog r p) {}"
  by (simp add: close_session_ordered)

lemma login_ordered: "ordered mutex_rank p {} \<Longrightarrow> ordered mutex_rank (login_prog n r p) {}"
  by (simp add: login_prog_def nickname_ops_ordered login_commit_ordered)

lemma dispatch_ordered:
  assumes "\<And>x. ordered mutex_rank (k x) {}"
  shows "ordered mutex_rank (dispatch_prog jl sec r packet k) {}"
proof -
  have "ordered mutex_rank (dispatch_type_prog jl r msg k) {}" for msg
    using assms by (auto simp: dispatch_type_prog_def handler_progs_def login_handler_prog_def insert_handler_prog_def
        login_ordered split: option.split)
  then show ?thesis using assms by (auto simp: dispatch_prog_def Let_def close_free split: option.split)
qed

lemma handle_packet_ordered:
  "ordered mutex_rank p {} \<Longrightarrow> ordered mutex_rank (handle_packet_prog jl sec r packet p) {}"
  by (auto simp: handle_packet_prog_def report_failure_prog_def intro!: dispatch_ordered)

lemma read_loop_ordered: "ordered mutex_rank p {} \<Longrightarrow> ordered mutex_rank (read_loop_prog jl sec r mb p) {}"
proof (induction jl sec r mb p rule: read_loop_prog.induct)
  case (1 jl sec r mb p)
  then show ?case
    by (subst read_loop_prog.simps) (auto simp: handle_packet_ordered split: prod.split option.split)
qed

lemma do_read_ordered: "ordered mutex_rank p {} \<Longrightarrow> ordered mutex_rank (do_read_prog inside r p) {}"
  by (simp add: do_read_prog_def post_task_prog_def close_free)

lemma server_prog_ordered:
  "server_returning c \<Longrightarrow> ordered mutex_rank p {} \<Longrightarrow> ordered mutex_rank (server_prog jl sec c p) {}"
  by (cases c) (auto simp: read_callback_prog_def on_write_prog_def strand_job_prog_def close_free do_read_ordered
      read_loop_ordered call_prog_ordered Let_def split: read_result.split list.split strand_job.split)

section \<open>A handler that runs alone\<close>

lemma run_close_free: "run_alone (close_session_prog r p) {} w = run_alone p {} (close_session r w)"
  by (simp add: run_close)

lemma run_dispatch_prog:
  "run_alone (dispatch_prog jl sec r packet k) {} w =
     (case dispatch jl (message_dispatcher_ctor jl sec) r packet w of (e, w1) \<Rightarrow> run_alone (k (e \<noteq> None)) {} w1)"
proof -
  have "run_alone (dispatch_type_prog jl r msg k) {} w =
      (case dispatch_type jl (message_dispatcher_ctor jl sec) r msg w of (e, w1) \<Rightarrow> run_alone (k (e \<noteq> None)) {} w1)" for msg
    by (auto simp: dispatch_type_prog_def dispatch_type_def handler_progs_def ctor_handlers login_handler_prog_def
        login_handler_def insert_handler_prog_def insert_handler_def run_login split: option.split)
  then show ?thesis
    by (auto simp: dispatch_prog_def dispatch_def run_close_free Let_def split: option.split)
qed

lemma run_handle_packet:
  "run_alone (handle_packet_prog jl sec r m p) {} w = run_alone p {} (handle_one jl sec r m w)"
  by (auto simp: handle_packet_prog_def handle_one_def handle_packet_def data_handler_dispatch_def run_dispatch_prog
      report_failure_prog_def report_failure_def split: prod.split option.split)

lemma run_read_loop:
  "run_alone (read_loop_prog jl sec r mb p) {} w =
     (case extract_all mb of (ms, mb') \<Rightarrow> run_alone p {} (set_buf r mb' (fold (handle_one jl sec r) ms w)))"
proof (induction jl sec r mb p arbitrary: w rule: read_loop_prog.induct)
  case (1 jl sec r mb p)
  obtain o1 mb1 where x: "extract_message mb = (o1, mb1)" by (cases "extract_message mb")
  show ?case
  proof (cases o1)
    case None
    with x show ?thesis by (simp add: read_loop_prog.simps [of jl sec r mb] extract_all.simps [of mb])
  next
    case (Some m)
    with x show ?thesis
      using "1.IH" [OF x [symmetric] Some]
      by (simp add: read_loop_prog.simps [of jl sec r mb] extract_all.simps [of mb] run_handle_packet
          handle_one_buf fold_set_buf split: prod.split)
  qed
qed

lemma run_do_read: "run_alone (do_read_prog inside r p) {} w = run_alone p {} (do_read inside r w)"
proof -
  have eq: "upd r (\<lambda>_. (heap w r)\<lparr>read_pending := True\<rparr>) w = upd r (\<lambda>s. s\<lparr>read_pending := True\<rparr>) w" by (simp add: upd_def)
  show ?thesis
    by (simp add: eq do_read_prog_def do_read_def try_acquire_read_def post_task_prog_def post_task_now_def post_task_def
        post_task_job_def run_close_free)
qed

lemma run_read_callback:
  "run_alone (read_callback_prog jl sec r res p) {} w = run_alone p {} (snd (read_callback jl sec r res w))"
proof (cases res)
  case (ReadOk d)
  then show ?thesis
    by (simp add: read_callback_prog_def read_callback_def run_read_loop read_loop_fold run_close_free run_do_read
        Let_def split: prod.split)
qed (simp_all add: read_callback_prog_def read_callback_def run_close_free)

lemma run_on_write: "run_alone (on_write_prog err r p) {} w = run_alone p {} (on_write err r w)"
  by (simp add: on_write_prog_def on_write_def run_close_free upd_def Let_def split: prod.split)

lemma run_strand_job_prog: "run_alone (strand_job_prog r p) {} w = run_alone p {} (run_strand_job r w)"
  by (simp add: strand_job_prog_def strand_job_now_def run_strand_job_def post_task_job_def run_close_free Let_def
      split: list.split strand_job.split)

lemma server_prog_alone:
  assumes "sm_inv (manager w)" and "server_returning c"
  shows "run_alone (server_prog jl sec c p) {} w = run_alone p {} (server_effect jl sec c w)"
  using assms by (cases c) (simp_all add: run_read_callback run_on_write run_strand_job_prog run_do_read call_prog_alone)

lemma frame_sm_inv: "handler_frame r w w' \<Longrightarrow> sm_inv (manager w) \<Longrightarrow> sm_inv (manager w')"
  by (simp add: handler_frame_def)

lemma server_effect_sm_inv:
  assumes "sm_inv (manager w)"
  shows "sm_inv (manager (server_effect jl sec c w))"
proof (cases c)
  case (StartRead r)
  with assms show ?thesis using frame_sm_inv [OF frame_do_read] by simp
qed (use assms frame_sm_inv [OF frame_read_callback] frame_sm_inv [OF frame_on_write]
    frame_sm_inv [OF frame_run_strand_job] call_effect_sm_inv in simp_all)

interpretation srv: described_calls mutex_rank "server_prog jl sec" server_returning "\<lambda>w. sm_inv (manager w)"
    "server_effect jl sec" for jl :: "'j json_lib" and sec :: string
  by unfold_locales (simp_all add: server_prog_ordered server_prog_alone server_effect_sm_inv)

section \<open>Properties\<close>

text \<open>
  C16. No deadlock. Threads that run any handlers of any sessions (reads with all their packets, writes,
  waiting closures) and any calls of the registry (\<open>unregister_nickname\<close> apart), interleaved in any
  way at the level of single locks and single changes, always have an end in reach where all are
  done; a state in which no thread can move is such an end, with every mutex free; and no run goes
  on for ever.
\<close>

theorem server_threads_complete:
  assumes "\<forall>cs \<in> set scripts. list_all server_returning cs"
    and "conc_step\<^sup>*\<^sup>* (start_threads w (map (script (server_prog jl sec)) scripts)) c"
  shows "(\<exists>c'. conc_step\<^sup>*\<^sup>* c c' \<and> all_done c')
    \<and> ((\<nexists>d. conc_step c d) \<longrightarrow> all_done c \<and> owner c = Map.empty)
    \<and> (\<nexists>run. run 0 = c \<and> (\<forall>n. conc_step (run n) (run (Suc n))))"
  using srv.scripts_complete [OF assms] no_infinite_run by blast

definition demo_scripts :: "server_call list list" where
  "demo_scripts = [[OnRead 1 (ReadOk (frame_message (''s3'' @ ''L''))), OnWrite False 1], [Registry (Login ''bob'' 2)],
     [Registry (AddSession 3), StartRead 3, Registry (CleanupInactive 9 5)]]"

theorem server_threads_complete_witness:
  "\<exists>c. conc_step\<^sup>*\<^sup>* (start_threads demo_world (map (script (server_prog tiny ''s3'')) demo_scripts)) c \<and> all_done c"
proof -
  have "\<forall>cs \<in> set demo_scripts. list_all server_returning cs" by (simp add: demo_scripts_def)
  then show ?thesis using server_threads_complete [OF _ rtranclp.rtrancl_refl] by blast
qed

end
