(* ===== verification/Protocol.thy ===== *)
theory Protocol
  imports Reader
begin

text \<open>
  What one client sees of the server, as a small abstract machine: a connection is anonymous,
  named or gone, and each packet yields replies, statements for the log and the next state. The
  read loop with its buffers, table of handlers, registry and queues implements it.
\<close>

section \<open>The abstract protocol\<close>

text \<open>The second component of a state is the set of the names in use.\<close>

datatype client = Anonymous | Named string | Gone

type_synonym spec_state = "client \<times> string set"
type_synonym spec_result = "spec_state \<times> bytes list \<times> string list"

definition spec_login :: "'j json_lib \<Rightarrow> 'j \<Rightarrow> spec_state \<Rightarrow> spec_result" where
  "spec_login jl msg st =
     (case value_string jl msg ''nickname'' [] of
        None \<Rightarrow> (st, [parsing_failed], [])
      | Some n \<Rightarrow>
          if n = [] then (st, [nickname_required], [])
          else if n \<in> snd st then (st, [nickname_in_use], [])
          else ((Named n, insert n (snd st)), [login_ok], []))"

definition insert_text :: "'j json_lib \<Rightarrow> 'j \<Rightarrow> string option" where
  "insert_text jl msg =
     (case value_json jl msg ''values'' (empty_object jl) of
        None \<Rightarrow> None
      | Some vals \<Rightarrow>
          (if dump jl msg = None \<or> dump jl vals = None then None
           else case value_string jl msg ''table'' [] of
                  None \<Rightarrow> None
                | Some table \<Rightarrow> insert_query jl table vals))"

definition spec_insert :: "'j json_lib \<Rightarrow> 'j \<Rightarrow> spec_state \<Rightarrow> spec_result" where
  "spec_insert jl msg st =
     (case insert_text jl msg of
        None \<Rightarrow> (st, [parsing_failed], [])
      | Some q \<Rightarrow> (st, [insert_ok], [q]))"

definition spec_typed :: "'j json_lib \<Rightarrow> string \<Rightarrow> 'j \<Rightarrow> spec_state \<Rightarrow> spec_result" where
  "spec_typed jl t msg st =
     (if t = ''login'' then spec_login jl msg st
      else if t = ''insert'' then spec_insert jl msg st
      else (st, [unknown_type], []))"

fun spec_step :: "'j json_lib \<Rightarrow> string \<Rightarrow> spec_state \<Rightarrow> string \<Rightarrow> spec_result" where
  "spec_step jl sec (Gone, T) p = ((Gone, T), [], [])"
| "spec_step jl sec (Anonymous, T) p =
     (if \<not> has_secret_prefix sec p then ((Gone, T), [], [])
      else case jparse jl (drop (length sec) p) of
        None \<Rightarrow> ((Gone, T), [], [])
      | Some msg \<Rightarrow>
          (case value_string jl msg ''type'' [] of
             None \<Rightarrow> ((Anonymous, T), [parsing_failed], [])
           | Some t \<Rightarrow> if t = ''login'' then spec_login jl msg (Anonymous, T) else ((Gone, T), [], [])))"
| "spec_step jl sec (Named m, T) p =
     (case jparse jl (if has_secret_prefix sec p then drop (length sec) p else p) of
        None \<Rightarrow> ((Gone, T), [], [])
      | Some msg \<Rightarrow>
          (case value_string jl msg ''type'' [] of
             None \<Rightarrow> ((Named m, T), [parsing_failed], [])
           | Some t \<Rightarrow>
               if t = ''keepalive'' \<and> \<not> has_secret_prefix sec p then ((Gone, T), [], [])
               else spec_typed jl t msg (Named m, T)))"

fun spec_run :: "'j json_lib \<Rightarrow> string \<Rightarrow> spec_state \<Rightarrow> string list \<Rightarrow> spec_result" where
  "spec_run jl sec st [] = (st, [], [])"
| "spec_run jl sec st (p # ps) =
     (case spec_step jl sec st p of (st1, rs, qs) \<Rightarrow>
        (case spec_run jl sec st1 ps of (st2, rs', qs') \<Rightarrow> (st2, rs @ rs', qs @ qs')))"

text \<open>Only the last packet may end the connection.\<close>

fun stays_open :: "'j json_lib \<Rightarrow> string \<Rightarrow> spec_state \<Rightarrow> string list \<Rightarrow> bool" where
  "stays_open jl sec st [] = True"
| "stays_open jl sec st (p # ps) =
     (ps = [] \<or> fst (fst (spec_step jl sec st p)) \<noteq> Gone \<and> stays_open jl sec (fst (spec_step jl sec st p)) ps)"

section \<open>What a server state means to the client\<close>

definition client_of :: "session \<Rightarrow> client" where
  "client_of s = (if closed s then Gone else if nickname_registered s then Named (nickname s) else Anonymous)"

definition names_in_use :: "world \<Rightarrow> string set" where
  "names_in_use w = {n. find_session_by_nickname (alive w) n (manager w) \<noteq> None}"

text \<open>The view that the abstract machine has of a world, and what a handler may add to it.\<close>

definition answers :: "sref \<Rightarrow> world \<Rightarrow> spec_result \<Rightarrow> world \<Rightarrow> bool" where
  "answers r w res w' \<longleftrightarrow>
     (client_of (heap w' r), names_in_use w') = fst res
     \<and> write_queue (heap w' r) = write_queue (heap w r) @ fst (snd res)
     \<and> sql_log w' = sql_log w @ snd (snd res)"

definition room_for :: "nat \<Rightarrow> sref \<Rightarrow> world \<Rightarrow> bool" where
  "room_for n r w \<longleftrightarrow> length (write_queue (heap w r)) + n \<le> max_write_queue_size (app_config w)"

section \<open>One packet\<close>

lemma post_reply:
  assumes "room_for 1 r w"
  shows "write_queue (heap (post_write True r m w) r) = write_queue (heap w r) @ [m]"
    and "client_of (heap (post_write True r m w) r) = client_of (heap w r)"
    and "names_in_use (post_write True r m w) = names_in_use w"
proof -
  show "write_queue (heap (post_write True r m w) r) = write_queue (heap w r) @ [m]"
    using assms by (auto simp: room_for_def post_write_def runs_now_def write_ops split: list.splits)
  have "closed (heap (post_write True r m w) r) = closed (heap w r)"
    using assms by (auto simp: room_for_def post_write_def runs_now_def write_ops split: list.splits)
  then show "client_of (heap (post_write True r m w) r) = client_of (heap w r)"
    by (simp add: client_of_def)
  show "names_in_use (post_write True r m w) = names_in_use w" by (simp add: names_in_use_def)
qed

lemma answers_post:
  "room_for 1 r w \<Longrightarrow> answers r w ((client_of (heap w r), names_in_use w), [m], []) (post_write True r m w)"
  by (simp add: answers_def post_reply)

lemma answers_failure:
  "room_for 1 r w \<Longrightarrow> answers r w ((client_of (heap w r), names_in_use w), [parsing_failed], []) (report_failure r w)"
  using post_reply [of r "upd r (\<lambda>s. s\<lparr>message := parsing_failed\<rparr>) w" parsing_failed]
  by (simp add: report_failure_def answers_def room_for_def client_of_def names_in_use_def)

lemma answers_close: "answers r w ((Gone, names_in_use w), [], []) (close_session r w)"
  by (simp add: answers_def client_of_def names_in_use_def close_session_heap find_session_by_nickname_def)

text \<open>A nickname that nobody holds is entered in the index and nobody is closed.\<close>

lemma register_free:
  assumes "find_session_by_nickname (alive w) n (manager w) = None"
  shows "register_nickname n r w = w\<lparr>manager := (manager w)\<lparr>nickname_index := (nickname_index (manager w))(n \<mapsto> r)\<rparr>\<rparr>"
  using assms
  by (auto simp: register_nickname_def find_session_by_nickname_def Let_def split: option.splits)

lemma answers_login:
  assumes "room_for 1 r w" and "r \<in> alive w" and "\<not> closed (heap w r)" and "n \<notin> names_in_use w"
  shows "answers r w ((Named n, insert n (names_in_use w)), [login_ok], [])
    (post_write True r login_ok (login_commit n r w))"
proof -
  let ?f = "\<lambda>s. on_nickname_registered (s\<lparr>nickname := n\<rparr>)"
  have free: "find_session_by_nickname (alive (upd r ?f w)) n (manager (upd r ?f w)) = None"
    using assms(4) by (simp add: names_in_use_def)
  have c: "login_commit n r w = (upd r ?f w)\<lparr>manager := (manager w)\<lparr>nickname_index :=
      (nickname_index (manager w))(n \<mapsto> r)\<rparr>\<rparr>"
    unfolding login_commit_upd register_free [OF free] by simp
  have v: "client_of (heap (login_commit n r w) r) = Named n" "sql_log (login_commit n r w) = sql_log w"
    "write_queue (heap (login_commit n r w) r) = write_queue (heap w r)"
    "app_config (login_commit n r w) = app_config w"
    using assms(3) by (simp_all add: c client_of_def on_nickname_registered_def)
  have "names_in_use (login_commit n r w) = insert n (names_in_use w)"
    using assms(2) by (auto simp: c names_in_use_def find_session_by_nickname_def weak_lock_def)
  moreover have "room_for 1 r (login_commit n r w)" using assms(1) v(3,4) by (simp add: room_for_def)
  ultimately show ?thesis using v by (simp add: answers_def post_reply)
qed

text \<open>
  A session that is already named may log in again under another name; its old name then stays in
  use as long as the session lives, although nobody is found under it with that name.
\<close>

lemma second_login_keeps_old_name:
  assumes "r \<in> alive w" and "nickname_registered (heap w r)" and "\<not> closed (heap w r)" and "nick_inv w"
    and "n \<notin> names_in_use w" and "room_for 1 r w"
    and "w' = post_write True r login_ok (login_commit n r w)"
  shows "nickname (heap w' r) = n \<and> nickname (heap w r) \<noteq> n \<and> nickname (heap w r) \<in> names_in_use w'"
proof -
  have "find_session_by_nickname (alive w) (nickname (heap w r)) (manager w) = Some r"
    using assms(1-4) by (simp add: nick_inv_def find_session_by_nickname_def weak_lock_def)
  then have old: "nickname (heap w r) \<in> names_in_use w" by (simp add: names_in_use_def)
  have a: "answers r w ((Named n, insert n (names_in_use w)), [login_ok], []) w'"
    using answers_login [OF assms(6,1,3,5)] assms(7) by simp
  then have "client_of (heap w' r) = Named n" "names_in_use w' = insert n (names_in_use w)"
    by (simp_all add: answers_def)
  then show ?thesis using old assms(5) by (auto simp: client_of_def split: if_splits)
qed

text \<open>The outcome of a handler: it returns, or what it threw is answered.\<close>

definition settle_result :: "sref \<Rightarrow> result \<Rightarrow> world" where
  "settle_result r res = (case res of (None, w1) \<Rightarrow> w1 | (Some e, w1) \<Rightarrow> report_failure r w1)"

lemma handle_one_settled:
  "handler_alive w \<Longrightarrow>
     handle_one jl sec r p w = settle_result r (dispatch jl (message_dispatcher_ctor jl sec) r p w)"
  by (simp add: handle_one_def handle_packet_def data_handler_dispatch_def settle_result_def)

lemma settle_simps [simp]:
  "settle_result r (None, w) = w" "settle_result r (Some e, w) = report_failure r w"
  by (simp_all add: settle_result_def)

lemma login_answers:
  assumes "room_for 1 r w" and "r \<in> alive w" and "\<not> closed (heap w r)"
  shows "answers r w (spec_login jl msg (client_of (heap w r), names_in_use w))
    (settle_result r (login_handler jl r msg w))"
proof -
  have "find_session_by_nickname (alive w) n (manager w) = None \<longleftrightarrow> n \<notin> names_in_use w" for n
    by (simp add: names_in_use_def)
  then show ?thesis
    using assms
    by (simp add: spec_login_def login_handler_def answers_post answers_failure answers_login split: option.split)
qed

lemma insert_answers:
  assumes "room_for 1 r w"
  shows "answers r w (spec_insert jl msg (client_of (heap w r), names_in_use w))
    (settle_result r (insert_handler jl r msg w))"
proof -
  have "answers r w ((client_of (heap w r), names_in_use w), [insert_ok], [q])
      (post_write True r insert_ok (w\<lparr>sql_log := sql_log w @ [q]\<rparr>))" for q
    using post_reply [of r "w\<lparr>sql_log := sql_log w @ [q]\<rparr>" insert_ok] assms
    by (simp add: answers_def room_for_def names_in_use_def)
  then show ?thesis
    using assms answers_failure [OF assms]
    by (auto simp: spec_insert_def insert_text_def insert_handler_def split: option.split)
qed

lemma typed_answers:
  assumes "room_for 1 r w" and "r \<in> alive w" and "\<not> closed (heap w r)"
    and "value_string jl msg ''type'' [] = Some t"
  shows "answers r w (spec_typed jl t msg (client_of (heap w r), names_in_use w))
    (settle_result r (dispatch_type jl (message_dispatcher_ctor jl sec) r msg w))"
  using assms login_answers [OF assms(1-3), of jl msg] insert_answers [OF assms(1), of jl msg] answers_post [OF assms(1)]
  by (simp add: spec_typed_def dispatch_type_def ctor_handlers)

lemma packet_answers:
  assumes "room_for 1 r w" and "r \<in> alive w" and "handler_alive w" and "client_of (heap w r) \<noteq> Gone"
  shows "answers r w (spec_step jl sec (client_of (heap w r), names_in_use w) p) (handle_one jl sec r p w)"
proof -
  have o: "\<not> closed (heap w r)" using assms(4) by (auto simp: client_of_def)
  note a = typed_answers [OF assms(1,2) o] answers_failure [OF assms(1)] answers_close [of r w]
  show ?thesis
  proof (cases "nickname_registered (heap w r)")
    case True
    then have c: "client_of (heap w r) = Named (nickname (heap w r))" using o by (simp add: client_of_def)
    with a True show ?thesis
      by (auto simp: handle_one_settled [OF assms(3)] dispatch_def Let_def split: option.split)
  next
    case False
    then have c: "client_of (heap w r) = Anonymous" using o by (simp add: client_of_def)
    have "answers r w (spec_login jl msg (Anonymous, names_in_use w))
        (settle_result r (dispatch_type jl (message_dispatcher_ctor jl sec) r msg w))"
      if "value_string jl msg ''type'' [] = Some ''login''" for msg
      using a(1) [OF that, of sec] by (simp add: spec_typed_def c)
    with a(2,3) c False show ?thesis
      by (auto simp: handle_one_settled [OF assms(3)] dispatch_def Let_def split: option.split)
  qed
qed

section \<open>A read full of packets\<close>

lemma spec_step_short: "length (fst (snd (spec_step jl sec st p))) \<le> 1"
proof -
  have l: "length (fst (snd (spec_login jl msg st'))) \<le> 1" for msg st'
    by (simp add: spec_login_def split: option.split)
  have "length (fst (snd (spec_typed jl t msg st'))) \<le> 1" for t msg st'
    using l by (simp add: spec_typed_def spec_insert_def split: option.split)
  then show ?thesis
    using l by (cases "(jl, sec, st, p)" rule: spec_step.cases) (simp_all split: option.split)
qed

lemma frame_keeps:
  "handler_frame r w w' \<Longrightarrow> alive w' = alive w \<and> app_config w' = app_config w \<and> handler_alive w' = handler_alive w"
  by (simp add: handler_frame_def)

lemma packets_answer:
  "r \<in> alive w \<Longrightarrow> handler_alive w \<Longrightarrow> client_of (heap w r) \<noteq> Gone
     \<Longrightarrow> stays_open jl sec (client_of (heap w r), names_in_use w) ps \<Longrightarrow> room_for (length ps) r w
     \<Longrightarrow> answers r w (spec_run jl sec (client_of (heap w r), names_in_use w) ps) (fold (handle_one jl sec r) ps w)"
proof (induction ps arbitrary: w)
  case Nil
  then show ?case by (simp add: answers_def)
next
  case (Cons p ps)
  let ?w1 = "handle_one jl sec r p w" and ?st = "(client_of (heap w r), names_in_use w)"
  obtain st1 rs qs where st1: "spec_step jl sec ?st p = (st1, rs, qs)" by (cases "spec_step jl sec ?st p")
  have "room_for 1 r w" using Cons.prems(5) by (simp add: room_for_def)
  then have one: "answers r w (st1, rs, qs) ?w1"
    using packet_answers [of r w jl sec p] Cons.prems(1-3) st1 by simp
  then have view: "(client_of (heap ?w1 r), names_in_use ?w1) = st1" by (simp add: answers_def)
  have k: "alive ?w1 = alive w" "app_config ?w1 = app_config w" "handler_alive ?w1 = handler_alive w"
    using frame_keeps [OF handle_one_frame] by blast+
  have "length rs \<le> 1" using spec_step_short [of jl sec ?st p] st1 by simp
  then have room: "room_for (length ps) r ?w1"
    using Cons.prems(5) one k(2) by (simp add: room_for_def answers_def)
  show ?case
  proof (cases "ps = []")
    case True
    with one st1 show ?thesis by simp
  next
    case False
    then have "fst st1 \<noteq> Gone" "stays_open jl sec st1 ps" using Cons.prems(4) st1 by simp_all
    then have "answers r ?w1 (spec_run jl sec st1 ps) (fold (handle_one jl sec r) ps ?w1)"
      using Cons.IH [of ?w1] Cons.prems(1,2) view k room by auto
    with one st1 show ?thesis
      by (auto simp: answers_def split: prod.split)
  qed
qed

lemma set_buf_view:
  "client_of (heap (set_buf r mb w) q) = client_of (heap w q)" "names_in_use (set_buf r mb w) = names_in_use w"
  by (simp_all add: client_of_def names_in_use_def)

section \<open>Properties\<close>

text \<open>
  C8. The read loop implements the abstract protocol: for a live open session with room in its
  write queue, the messages in the receive buffer, of which only the last may end the connection,
  put into the write queue exactly the replies of the protocol, log exactly its statements, and
  leave the session, the names in use and the buffer as the protocol and the framing say.
\<close>

theorem server_speaks_protocol:
  assumes "r \<in> alive w" and "handler_alive w" and "\<not> closed (heap w r)"
    and "extract_all (msg_buf (heap w r)) = (ms, mb)"
    and "stays_open jl sec (client_of (heap w r), names_in_use w) ms"
    and "length (write_queue (heap w r)) + length ms \<le> max_write_queue_size (app_config w)"
    and "spec_run jl sec (client_of (heap w r), names_in_use w) ms = (st', replies, statements)"
    and "w' = snd (read_loop jl sec r w)"
  shows "(client_of (heap w' r), names_in_use w') = st'
    \<and> write_queue (heap w' r) = write_queue (heap w r) @ replies
    \<and> sql_log w' = sql_log w @ statements \<and> msg_buf (heap w' r) = mb"
proof -
  have "client_of (heap w r) \<noteq> Gone" using assms(3) by (simp add: client_of_def)
  then have a: "answers r w (st', replies, statements) (fold (handle_one jl sec r) ms w)"
    using packets_answer [of r w jl sec ms] assms(1,2,5-7) by (simp add: room_for_def)
  have "w' = set_buf r mb (fold (handle_one jl sec r) ms w)"
    using assms(4,8) by (simp add: read_loop_fold)
  with a show ?thesis
    using set_buf_view [of r mb] by (simp add: answers_def del: upd_simps(1)) simp
qed

text \<open>Bob logs in and inserts a row in one read.\<close>

definition bobs_world :: world where
  "bobs_world = upd 2 (append_data (frame_message ''s3L'' @ frame_message ''I'')) (demo_world\<lparr>alive := {2}\<rparr>)"

theorem server_speaks_protocol_witness:
  "write_queue (heap (snd (read_loop tiny ''s3'' 2 bobs_world)) 2) = [login_ok, insert_ok]"
proof -
  let ?st = "(client_of (heap bobs_world 2), names_in_use bobs_world)"
  have st: "?st = (Anonymous, {})"
    by (simp add: bobs_world_def append_data_def client_of_def names_in_use_def find_session_by_nickname_def
        session_manager_ctor_def)
  have ms: "extract_all (msg_buf (heap bobs_world 2)) = ([''s3L'', ''I''], empty_msgbuf)"
    using parse_stream_frames [of "[''s3L'', ''I'']"]
    by (simp add: bobs_world_def append_data_def mb_append_def extract_all_parse empty_msgbuf_def)
  have run: "\<exists>q. spec_run tiny ''s3'' ?st [''s3L'', ''I''] = ((Named ''bob'', {''bob''}), [login_ok, insert_ok], [q])"
    unfolding st
    by (simp add: has_secret_prefix_def spec_login_def spec_typed_def spec_insert_def tiny_def tiny_parse_def tiny_is_string_def
        insert_text_def insert_query_def value_text_def)
  have op: "stays_open tiny ''s3'' ?st [''s3L'', ''I'']"
    unfolding st by (simp add: has_secret_prefix_def spec_login_def tiny_def tiny_parse_def tiny_is_string_def)
  have w: "2 \<in> alive bobs_world" "handler_alive bobs_world" "\<not> closed (heap bobs_world 2)"
    "write_queue (heap bobs_world 2) = []" "app_config bobs_world = config_json"
    by (simp_all add: bobs_world_def append_data_def)
  from run obtain q where "spec_run tiny ''s3'' ?st [''s3L'', ''I''] = ((Named ''bob'', {''bob''}), [login_ok, insert_ok], [q])" ..
  from server_speaks_protocol [OF w(1-3) ms op _ this refl] show ?thesis
    by (simp add: w(4,5) config_json_limits)
qed

end
