(* ===== verification/Protocol_Threads.thy ===== *)
theory Protocol_Threads
  imports Handler_Threads Protocol
begin

text \<open>
  The whole way of a client's bytes, step by step: a thread that runs the reads of a session, with the
  framing, the dispatcher, the registry and the queues, one change at a time, does what the
  abstract protocol says, however the network has cut the bytes.
\<close>

section \<open>One thread\<close>

text \<open>A single thread has one next step at most, so all its complete runs have the same end.\<close>

lemma one_thread_step: "conc_step c d \<Longrightarrow> length (progs c) = 1 \<Longrightarrow> thread_step 0 c = Some d \<and> length (progs d) = 1"
  by (auto elim!: conc_stepE simp: thread_step_def split: if_splits prog.splits)

lemma all_done_stuck: "all_done c \<Longrightarrow> \<not> conc_step c d"
  by (auto elim!: conc_stepE thread_stepE simp: all_done_def) (metis nth_mem prog.distinct)+

lemma one_thread_unique:
  assumes "conc_step\<^sup>*\<^sup>* c d" and "conc_step\<^sup>*\<^sup>* c e" and "length (progs c) = 1" and "all_done d" and "all_done e"
  shows "d = e"
  using assms
proof (induction rule: converse_rtranclp_induct)
  case base
  then show ?case using all_done_stuck by (metis converse_rtranclpE)
next
  case (step c c1)
  from step.prems(1) have "conc_step\<^sup>*\<^sup>* c1 e"
  proof (cases rule: converse_rtranclpE)
    case base
    then show ?thesis using step.hyps(1) step.prems(4) all_done_stuck by blast
  next
    case (step y)
    then show ?thesis
      using one_thread_step [OF \<open>conc_step c c1\<close>] one_thread_step [OF \<open>conc_step c y\<close>] \<open>length (progs c) = 1\<close> by simp
  qed
  then show ?case using step.IH one_thread_step [OF step.hyps(1)] step.prems by blast
qed

lemma one_thread_end:
  assumes "run_alone p {} s = Some s'" and "ordered rank p {}"
    and "conc_step\<^sup>*\<^sup>* (start_threads s [p]) c" and "all_done c"
  shows "shared c = s'"
proof -
  have "conc_step\<^sup>*\<^sup>* (start_threads s [p]) \<lparr>shared = s', owner = Map.empty, progs = [p][0 := Done]\<rparr>"
    using run_alone_steps [OF assms(1,2), of 0 "start_threads s [p]"] by (simp add: start_threads_def)
  then have "c = \<lparr>shared = s', owner = Map.empty, progs = [p][0 := Done]\<rparr>"
    by (rule one_thread_unique [OF assms(3)]) (simp_all add: start_threads_def assms(4), simp add: all_done_def)
  then show ?thesis by simp
qed

section \<open>Runs of the protocol\<close>

lemma spec_gone: "fst st = Gone \<Longrightarrow> spec_run jl sec st ps = (st, [], [])"
  by (induction ps) (cases st; simp)+

lemma spec_stays_open: "fst (fst (spec_run jl sec st ps)) \<noteq> Gone \<Longrightarrow> stays_open jl sec st ps"
proof (induction ps arbitrary: st)
  case (Cons p ps)
  obtain st1 rs qs where s: "spec_step jl sec st p = (st1, rs, qs)" by (cases "spec_step jl sec st p")
  have "fst (fst (spec_run jl sec st1 ps)) \<noteq> Gone" using Cons.prems s by (simp split: prod.splits)
  then show ?case using Cons.IH [of st1] spec_gone [of st1 jl sec ps] s by auto
qed simp

lemma spec_run_append:
  "spec_run jl sec st (ps @ ps') =
     (case spec_run jl sec st ps of (st1, rs, qs) \<Rightarrow>
        (case spec_run jl sec st1 ps' of (st2, rs', qs') \<Rightarrow> (st2, rs @ rs', qs @ qs')))"
  by (induction ps arbitrary: st) (simp_all split: prod.split)

lemma spec_run_length: "length (fst (snd (spec_run jl sec st ps))) \<le> length ps"
proof (induction ps arbitrary: st)
  case (Cons p ps)
  obtain st1 rs qs where s: "spec_step jl sec st p = (st1, rs, qs)" by (cases "spec_step jl sec st p")
  then have "length rs \<le> 1" using spec_step_short [of jl sec st p] by simp
  moreover obtain st2 rs' qs' where "spec_run jl sec st1 ps = (st2, rs', qs')" by (cases "spec_run jl sec st1 ps")
  ultimately show ?case using Cons.IH [of st1] s by simp
qed simp

section \<open>One read\<close>

text \<open>A session that waits for bytes, with less than a packet in its buffer.\<close>

definition reading :: "sref \<Rightarrow> world \<Rightarrow> bool" where
  "reading r w \<longleftrightarrow> r \<in> alive w \<and> handler_alive w \<and> \<not> closed (heap w r) \<and> read_inv (heap w r)
     \<and> 0 < sk_reads (sock (heap w r)) \<and> 1 \<le> max_task_queue (app_config w)
     \<and> \<not> mb_invalid (msg_buf (heap w r))
     \<and> parse_stream (mb_buffer (msg_buf (heap w r))) = ([], Some (mb_buffer (msg_buf (heap w r))))"

lemma do_read_shared:
  assumes "read_view (heap w r) = (0, False, [], True, [])" and "1 \<le> max_task_queue (app_config w)"
  shows "manager (do_read True r w) = manager w" and "sql_log (do_read True r w) = sql_log w"
  using assms
  by (simp_all add: read_view_def do_read_alt post_task_def post_task_job_def runs_now_def try_acquire_read_def)

lemma read_answers:
  assumes w: "reading r w" and b: "parse_stream (mb_buffer (msg_buf (heap w r)) @ d) = (ms, Some rest)"
    and run: "spec_run jl sec (client_of (heap w r), names_in_use w) ms = (st', rs, qs)" "fst st' \<noteq> Gone"
    and room: "length (write_queue (heap w r)) + length ms \<le> max_write_queue_size (app_config w)"
    and w': "w' = snd (read_callback jl sec r (ReadOk d) w)"
  shows "answers r w (st', rs, qs) w'" and "reading r w'" and "mb_buffer (msg_buf (heap w' r)) = rest"
    and "app_config w' = app_config w"
proof -
  define w0 where "w0 = upd r (append_data d) (upd r read_done w)"
  define v where "v = fold (handle_one jl sec r) ms w0"
  let ?a = "after_messages jl sec r d w"
  obtain mb where fd: "feed (msg_buf (heap w r)) d = (ms, mb)" "\<not> mb_invalid mb" "mb_buffer mb = rest"
    using recv.feed_msgs [of "msg_buf (heap w r)" d] recv.feed_dead [of "msg_buf (heap w r)" d]
      recv.feed_pending [of "msg_buf (heap w r)" d rest] b by (cases "feed (msg_buf (heap w r)) d") auto
  have a: "?a = set_buf r mb v" by (simp add: after_messages_def fd(1) v_def w0_def)
  have w0: "client_of (heap w0 r) = client_of (heap w r)" "names_in_use w0 = names_in_use w" "alive w0 = alive w"
    "handler_alive w0 = handler_alive w" "write_queue (heap w0 r) = write_queue (heap w r)" "app_config w0 = app_config w"
    "sql_log w0 = sql_log w"
    by (simp_all add: w0_def client_of_def names_in_use_def read_ops)
  have "stays_open jl sec (client_of (heap w r), names_in_use w) ms"
    by (rule spec_stays_open) (simp add: run)
  moreover have "client_of (heap w r) \<noteq> Gone" using w by (simp add: reading_def client_of_def)
  ultimately have "answers r w0 (st', rs, qs) v"
    unfolding v_def
    using packets_answer [of r w0 jl sec ms] w run(1) room by (simp add: w0 reading_def room_for_def)
  then have ans: "answers r w (st', rs, qs) v" by (simp add: answers_def w0)
  have v: "read_view (heap ?a r) = (0, False, [], True, [])"
    using w by (simp add: reading_def read_view_after_messages read_view_read_done)
  have fr: "alive ?a = alive w" "app_config ?a = app_config w" "handler_alive ?a = handler_alive w"
      "session_kept (app_config w) (heap w r) (heap ?a r)"
    using frame_after_messages [of r w jl sec d] by (auto simp: handler_frame_def)
  have "client_of (heap v r) \<noteq> Gone" using ans run(2) by (auto simp: answers_def)
  then have o: "\<not> closed (heap ?a r)" by (auto simp: a client_of_def)
  have cfg: "1 \<le> max_task_queue (app_config ?a)" using w fr(2) by (simp add: reading_def)
  have st: "sstate (heap ?a r) \<noteq> Closed"
    using w o fr(4) by (auto simp: reading_def read_inv_def session_kept_def closed_ok_def)
  have n: "w' = upd r run_next_task (do_read True r ?a)" using fd by (simp add: w' read_callback_ok')
  have s: "heap w' r = start_read ((heap ?a r)\<lparr>read_pending := True\<rparr>)"
    unfolding n using do_read_next [OF v cfg] st by simp
  have sh: "manager w' = manager ?a" "sql_log w' = sql_log ?a"
    using do_read_shared [OF v cfg] by (simp_all add: n)
  have kept: "alive w' = alive w" "app_config w' = app_config w" "handler_alive w' = handler_alive w"
    using frame_read_callback [of r w jl sec "ReadOk d"] by (simp_all add: w' handler_frame_def)
  show "app_config w' = app_config w" by (rule kept(2))
  show rest: "mb_buffer (msg_buf (heap w' r)) = rest"
    by (simp add: s a start_read_def fd(3))
  show "answers r w (st', rs, qs) w'"
  proof -
    have "client_of (heap w' r) = client_of (heap v r)" "write_queue (heap w' r) = write_queue (heap v r)"
      by (simp_all add: s a start_read_def client_of_def)
    moreover have "names_in_use w' = names_in_use v" using sh(1) kept(1) fr(1) by (simp add: a names_in_use_def)
    ultimately show ?thesis using ans sh(2) by (simp add: answers_def a)
  qed
  have "read_inv (heap w' r)"
    unfolding w' by (rule read_inv_callback_self) (use w in \<open>auto simp: reading_def\<close>)
  moreover have "0 < sk_reads (sock (heap w' r))" "\<not> closed (heap w' r)" "\<not> mb_invalid (msg_buf (heap w' r))"
    using o fd(2) by (simp_all add: s a start_read_def)
  ultimately show "reading r w'"
    using w kept rest parse_stream_rest [OF b] by (simp add: reading_def)
qed

section \<open>All reads\<close>

lemma reads_answer:
  assumes "reading r w" and "parse_stream (mb_buffer (msg_buf (heap w r)) @ concat ds) = (ms, Some rest)"
    and "spec_run jl sec (client_of (heap w r), names_in_use w) ms = (st', rs, qs)" and "fst st' \<noteq> Gone"
    and "length (write_queue (heap w r)) + length ms \<le> max_write_queue_size (app_config w)"
    and "w' = fold (\<lambda>d w. snd (read_callback jl sec r (ReadOk d) w)) ds w"
  shows "answers r w (st', rs, qs) w' \<and> reading r w' \<and> mb_buffer (msg_buf (heap w' r)) = rest"
  using assms
proof (induction ds arbitrary: w ms rs qs)
  case Nil
  then have "ms = [] \<and> rest = mb_buffer (msg_buf (heap w r))" by (auto simp: reading_def)
  then show ?case using Nil by (auto simp: answers_def)
next
  case (Cons d ds)
  let ?b = "mb_buffer (msg_buf (heap w r))" and ?w1 = "snd (read_callback jl sec r (ReadOk d) w)"
  obtain ms1 r1 where p1: "parse_stream (?b @ d) = (ms1, Some r1)"
    and p2: "parse_stream (r1 @ concat ds) = (drop (length ms1) ms, Some rest)" and ms: "ms = ms1 @ drop (length ms1) ms"
    using Cons.prems(2) recv.parse_append [of "?b @ d" "concat ds"]
    by (auto split: prod.splits option.splits)
  let ?ms2 = "drop (length ms1) ms"
  obtain st1 rs1 qs1 where s1: "spec_run jl sec (client_of (heap w r), names_in_use w) ms1 = (st1, rs1, qs1)"
    by (cases "spec_run jl sec (client_of (heap w r), names_in_use w) ms1")
  obtain st2 rs2 qs2 where s2: "spec_run jl sec st1 ?ms2 = (st2, rs2, qs2)" by (cases "spec_run jl sec st1 ?ms2")
  have out: "st' = st2" "rs = rs1 @ rs2" "qs = qs1 @ qs2"
    using Cons.prems(3) spec_run_append [of jl sec _ ms1 ?ms2] s1 s2 ms by (metis case_prod_conv prod.inject)+
  have open1: "fst st1 \<noteq> Gone" using Cons.prems(4) spec_gone [of st1 jl sec ?ms2] s2 out(1) by auto
  have "length (write_queue (heap w r)) + length ms1 \<le> max_write_queue_size (app_config w)"
    using Cons.prems(5) ms by (metis add_leD1 add.assoc length_append)
  note one = read_answers [OF Cons.prems(1) p1 s1 open1 this refl]
  have view: "(client_of (heap ?w1 r), names_in_use ?w1) = st1"
    "length (write_queue (heap ?w1 r)) = length (write_queue (heap w r)) + length rs1"
    using one(1) by (simp_all add: answers_def)
  have "length rs1 \<le> length ms1"
    using spec_run_length [of jl sec "(client_of (heap w r), names_in_use w)" ms1] s1 by simp
  moreover have "length ms = length ms1 + length ?ms2" using ms by (metis length_append)
  ultimately have "length (write_queue (heap ?w1 r)) + length ?ms2 \<le> max_write_queue_size (app_config ?w1)"
    unfolding one(4) view(2) using Cons.prems(5) by linarith
  then have "answers r ?w1 (st2, rs2, qs2) w' \<and> reading r w' \<and> mb_buffer (msg_buf (heap w' r)) = rest"
    using Cons.IH [OF one(2), of ?ms2 rs2 qs2] p2 one(3) s2 view(1) out(1) Cons.prems(4,6) by simp
  then show ?case using one(1) by (simp add: answers_def out)
qed

section \<open>Properties\<close>

text \<open>
  C17. However the network cuts the bytes of a client into reads, a thread that runs the read handlers
  of its session step by step ends with what the abstract protocol gives for the messages of the
  whole stream: exactly its replies in the write queue, its statements in the log, its state of the
  client and its names in use, the incomplete rest of the stream in the receive buffer and the next
  read outstanding. The session is open and reading at the start, its queue has room for the replies,
  the stream is well-formed and the protocol does not end the connection.
\<close>

theorem thread_speaks_protocol:
  assumes "sm_inv (manager w)" and "reading r w"
    and "parse_stream (mb_buffer (msg_buf (heap w r)) @ concat ds) = (ms, Some rest)"
    and "spec_run jl sec (client_of (heap w r), names_in_use w) ms = (st', replies, statements)" and "fst st' \<noteq> Gone"
    and "length (write_queue (heap w r)) + length ms \<le> max_write_queue_size (app_config w)"
    and "conc_step\<^sup>*\<^sup>* (start_threads w [script (server_prog jl sec) (map (\<lambda>d. OnRead r (ReadOk d)) ds)]) c"
    and "all_done c" and "w' = shared c"
  shows "(client_of (heap w' r), names_in_use w') = st'
    \<and> write_queue (heap w' r) = write_queue (heap w r) @ replies \<and> sql_log w' = sql_log w @ statements
    \<and> mb_buffer (msg_buf (heap w' r)) = rest \<and> 0 < sk_reads (sock (heap w' r))"
proof -
  let ?cs = "map (\<lambda>d. OnRead r (ReadOk d)) ds"
  have ok: "list_all server_returning ?cs" by (simp add: list_all_iff)
  have eff: "fold (server_effect jl sec) ?cs w = fold (\<lambda>d w. snd (read_callback jl sec r (ReadOk d) w)) ds w"
  proof -
    have "server_effect jl sec (OnRead r (ReadOk d)) = (\<lambda>w. snd (read_callback jl sec r (ReadOk d) w))" for d
      by (rule ext) simp
    then show ?thesis by (simp add: fold_map comp_def)
  qed
  have "w' = fold (\<lambda>d w. snd (read_callback jl sec r (ReadOk d) w)) ds w"
    using one_thread_end [OF srv.script_alone [OF assms(1) ok] srv.script_ordered [OF ok] assms(7,8)]
    by (simp add: assms(9) eff)
  from reads_answer [OF assms(2-6) this] show ?thesis by (simp add: answers_def reading_def)
qed

text \<open>Bob's login arrives in three pieces.\<close>

definition bobs_pieces :: "bytes list" where
  "bobs_pieces = [take 3 (frame_message ''s3L''), take 3 (drop 3 (frame_message ''s3L'')), drop 6 (frame_message ''s3L'')]"

definition bob_reading :: world where
  "bob_reading = upd 2 start_read (upd 2 (\<lambda>s. s\<lparr>read_pending := True, task_running := True\<rparr>) (demo_world\<lparr>alive := {2}\<rparr>))"

theorem thread_speaks_protocol_witness:
  "\<exists>c. conc_step\<^sup>*\<^sup>* (start_threads bob_reading
        [script (server_prog tiny ''s3'') (map (\<lambda>d. OnRead 2 (ReadOk d)) bobs_pieces)]) c
     \<and> all_done c \<and> write_queue (heap (shared c) 2) = [login_ok] \<and> client_of (heap (shared c) 2) = Named ''bob''"
proof -
  let ?st = "(client_of (heap bob_reading 2), names_in_use bob_reading)"
  have st: "?st = (Anonymous, {})"
    by (simp add: bob_reading_def start_read_def client_of_def names_in_use_def find_session_by_nickname_def
        session_manager_ctor_def)
  have w: "sm_inv (manager bob_reading)" "write_queue (heap bob_reading 2) = []" "app_config bob_reading = config_json"
    "mb_buffer (msg_buf (heap bob_reading 2)) = []"
    by (simp_all add: bob_reading_def start_read_def demo_session_def session_ctor_def empty_msgbuf_def)
  have r: "reading 2 bob_reading"
    by (simp add: reading_def bob_reading_def start_read_def demo_session_def session_ctor_def empty_msgbuf_def
        read_inv_def reads_pending_def closed_ok_def config_json_limits parse_stream.simps [of "[]"])
  have "concat bobs_pieces = frame_message ''s3L''" by (simp add: bobs_pieces_def frame_message_def be32_bytes_def)
  then have ms: "parse_stream (mb_buffer (msg_buf (heap bob_reading 2)) @ concat bobs_pieces) = ([''s3L''], Some [])"
    using parse_stream_frames [of "[''s3L'']"] w(4) by simp
  have run: "spec_run tiny ''s3'' ?st [''s3L''] = ((Named ''bob'', {''bob''}), [login_ok], [])"
    unfolding st
    by (simp add: has_secret_prefix_def spec_login_def tiny_def tiny_parse_def tiny_is_string_def)
  obtain c where c: "conc_step\<^sup>*\<^sup>* (start_threads bob_reading
      (map (script (server_prog tiny ''s3'')) [map (\<lambda>d. OnRead 2 (ReadOk d)) bobs_pieces])) c" "all_done c"
    using srv.scripts_complete(1) [OF _ rtranclp.rtrancl_refl, of "[map (\<lambda>d. OnRead 2 (ReadOk d)) bobs_pieces]"
        bob_reading tiny "''s3''"] by (auto simp: list_all_iff)
  from thread_speaks_protocol [OF w(1) r ms run _ _ _ c(2) refl] c show ?thesis
    by (auto simp: w config_json_limits)
qed

end
