(* ===== verification/Wire_Messages.thy ===== *)
theory Wire_Messages
  imports Prelude
begin

text \<open>
  The protobuf messages of the planned binary protocol (\<open>proto/wire.proto\<close> and the generated
  \<open>generated/wire.pb.cc\<close>): Login and Insert, with their Clear, ByteSizeLong, serialisation, merge,
  copy and swap, and the empty message KeepAlive with its constructors. The protobuf runtime is a
  parameter, a record of the calls the generated code makes: unknown field sets, the
  length-delimited writers and their sizes, the map field, and what KeepAlive inherits from its base
  class. A size is a natural number, a cached size an \<open>int\<close>. Messages live outside arenas.
\<close>

section \<open>The runtime\<close>

text \<open>
  \<open>write_string f s\<close>: \<open>WriteStringMaybeAliased\<close>; \<open>message_header f n\<close>: what \<open>InternalWriteMessage\<close>
  puts before a message of cached size \<open>n\<close>; \<open>message_size n\<close>: \<open>MessageSize\<close> of a message of size
  \<open>n\<close>; \<open>write_entry\<close>, \<open>entry_size\<close>: \<open>MapEntryFuncs\<close>; \<open>map_sorted\<close>: the order of \<open>MapSorterPtr\<close>;
  \<open>zf_\<close>: the operations of \<open>ZeroFieldsBase\<close>, on the two members that KeepAlive has. A map field is the list of its entries in iteration order.
\<close>

type_synonym entries = "(string \<times> string) list"

record 'u wire_keepalive =
  ka_cached :: cint
  ka_unknown :: 'u

record 'u pb =
  unknown_empty :: 'u
  have_unknown :: "'u \<Rightarrow> bool"
  unknown_merge :: "'u \<Rightarrow> 'u \<Rightarrow> 'u"
  unknown_bytes :: "'u \<Rightarrow> bytes"
  unknown_size :: "'u \<Rightarrow> nat"
  write_string :: "nat \<Rightarrow> string \<Rightarrow> bytes"
  string_size :: "string \<Rightarrow> nat"
  message_header :: "nat \<Rightarrow> cint \<Rightarrow> bytes"
  message_size :: "nat \<Rightarrow> nat"
  write_entry :: "nat \<Rightarrow> string \<Rightarrow> string \<Rightarrow> bytes"
  entry_size :: "string \<Rightarrow> string \<Rightarrow> nat"
  map_sorted :: "entries \<Rightarrow> entries"
  map_merge :: "entries \<Rightarrow> entries \<Rightarrow> entries"
  zf_merge :: "'u wire_keepalive \<Rightarrow> 'u wire_keepalive \<Rightarrow> 'u wire_keepalive"
  zf_serialize :: "'u wire_keepalive \<Rightarrow> bytes"
  zf_byte_size :: "'u wire_keepalive \<Rightarrow> nat \<times> 'u wire_keepalive"

text \<open>\<open>ToCachedSize\<close>: a \<open>size_t\<close> cut to an \<open>int\<close>.\<close>

definition to_cached_size :: "nat \<Rightarrow> cint" where
  "to_cached_size n = word_of_nat n"

text \<open>Unknown fields at the end of a message, and their share of its size.\<close>

definition unknown_tail :: "'u pb \<Rightarrow> 'u \<Rightarrow> bytes" where
  "unknown_tail lib u = (if have_unknown lib u then unknown_bytes lib u else [])"

definition with_unknown_size :: "'u pb \<Rightarrow> nat \<Rightarrow> 'u \<Rightarrow> nat" where
  "with_unknown_size lib total_size u =
     (if have_unknown lib u then total_size + unknown_size lib u else total_size)"

section \<open>KeepAlive\<close>

text \<open>The two constructors; a copy starts with no cached size.\<close>

definition keepalive_new :: "'u pb \<Rightarrow> 'u wire_keepalive" where
  "keepalive_new lib = \<lparr>ka_cached = 0, ka_unknown = unknown_empty lib\<rparr>"

definition keepalive_copy :: "'u pb \<Rightarrow> 'u wire_keepalive \<Rightarrow> 'u wire_keepalive" where
  "keepalive_copy lib from = \<lparr>ka_cached = 0, ka_unknown = unknown_merge lib (unknown_empty lib) (ka_unknown from)\<rparr>"

section \<open>Login\<close>

record 'u wire_login =
  lg_nickname :: string
  lg_cached :: cint
  lg_unknown :: 'u

definition login_new :: "'u pb \<Rightarrow> 'u wire_login" where
  "login_new lib = \<lparr>lg_nickname = [], lg_cached = 0, lg_unknown = unknown_empty lib\<rparr>"

definition login_copy :: "'u pb \<Rightarrow> 'u wire_login \<Rightarrow> 'u wire_login" where
  "login_copy lib from =
     \<lparr>lg_nickname = lg_nickname from, lg_cached = 0,
      lg_unknown = unknown_merge lib (unknown_empty lib) (lg_unknown from)\<rparr>"

definition login_clear :: "'u pb \<Rightarrow> 'u wire_login \<Rightarrow> 'u wire_login" where
  "login_clear lib m = m\<lparr>lg_nickname := [], lg_unknown := unknown_empty lib\<rparr>"

definition login_serialize :: "'u pb \<Rightarrow> 'u wire_login \<Rightarrow> bytes" where
  "login_serialize lib m =
     (if lg_nickname m \<noteq> [] then write_string lib 1 (lg_nickname m) else [])
     @ unknown_tail lib (lg_unknown m)"

definition login_byte_size :: "'u pb \<Rightarrow> 'u wire_login \<Rightarrow> nat \<times> 'u wire_login" where
  "login_byte_size lib m =
     (let total_size = (if lg_nickname m \<noteq> [] then 1 + string_size lib (lg_nickname m) else 0);
          n = with_unknown_size lib total_size (lg_unknown m) in
      (n, m\<lparr>lg_cached := to_cached_size n\<rparr>))"

definition login_merge :: "'u pb \<Rightarrow> 'u wire_login \<Rightarrow> 'u wire_login \<Rightarrow> 'u wire_login" where
  "login_merge lib from to =
     (let to1 = (if lg_nickname from \<noteq> [] then to\<lparr>lg_nickname := lg_nickname from\<rparr> else to) in
      to1\<lparr>lg_unknown := unknown_merge lib (lg_unknown to1) (lg_unknown from)\<rparr>)"

definition login_copy_from :: "'u pb \<Rightarrow> 'u wire_login \<Rightarrow> 'u wire_login \<Rightarrow> 'u wire_login" where
  "login_copy_from lib from to = login_merge lib from (login_clear lib to)"

text \<open>The swap leaves the cached sizes where they are.\<close>

definition login_swap :: "'u wire_login \<Rightarrow> 'u wire_login \<Rightarrow> 'u wire_login \<times> 'u wire_login" where
  "login_swap a b =
     (a\<lparr>lg_nickname := lg_nickname b, lg_unknown := lg_unknown b\<rparr>,
      b\<lparr>lg_nickname := lg_nickname a, lg_unknown := lg_unknown a\<rparr>)"

section \<open>Insert\<close>

record 'u wire_insert =
  in_values :: entries
  in_table :: string
  in_cached :: cint
  in_unknown :: 'u

definition insert_new :: "'u pb \<Rightarrow> 'u wire_insert" where
  "insert_new lib = \<lparr>in_values = [], in_table = [], in_cached = 0, in_unknown = unknown_empty lib\<rparr>"

definition insert_copy :: "'u pb \<Rightarrow> 'u wire_insert \<Rightarrow> 'u wire_insert" where
  "insert_copy lib from =
     \<lparr>in_values = map_merge lib [] (in_values from), in_table = in_table from, in_cached = 0,
      in_unknown = unknown_merge lib (unknown_empty lib) (in_unknown from)\<rparr>"

definition insert_clear :: "'u pb \<Rightarrow> 'u wire_insert \<Rightarrow> 'u wire_insert" where
  "insert_clear lib m = m\<lparr>in_values := [], in_table := [], in_unknown := unknown_empty lib\<rparr>"

definition write_entries :: "'u pb \<Rightarrow> entries \<Rightarrow> bytes" where
  "write_entries lib kvs = concat (map (\<lambda>(k, v). write_entry lib 2 k v) kvs)"

definition insert_serialize :: "'u pb \<Rightarrow> bool \<Rightarrow> 'u wire_insert \<Rightarrow> bytes" where
  "insert_serialize lib deterministic m =
     (if in_table m \<noteq> [] then write_string lib 1 (in_table m) else [])
     @ (if in_values m \<noteq> []
        then if deterministic \<and> 1 < length (in_values m)
          then write_entries lib (map_sorted lib (in_values m))
          else write_entries lib (in_values m)
        else [])
     @ unknown_tail lib (in_unknown m)"

definition insert_byte_size :: "'u pb \<Rightarrow> 'u wire_insert \<Rightarrow> nat \<times> 'u wire_insert" where
  "insert_byte_size lib m =
     (let total_size = 1 * length (in_values m);
          total_size = foldl (\<lambda>n (k, v). n + entry_size lib k v) total_size (in_values m);
          total_size = (if in_table m \<noteq> [] then total_size + (1 + string_size lib (in_table m)) else total_size);
          n = with_unknown_size lib total_size (in_unknown m) in
      (n, m\<lparr>in_cached := to_cached_size n\<rparr>))"

definition insert_merge :: "'u pb \<Rightarrow> 'u wire_insert \<Rightarrow> 'u wire_insert \<Rightarrow> 'u wire_insert" where
  "insert_merge lib from to =
     (let to1 = to\<lparr>in_values := map_merge lib (in_values to) (in_values from)\<rparr>;
          to2 = (if in_table from \<noteq> [] then to1\<lparr>in_table := in_table from\<rparr> else to1) in
      to2\<lparr>in_unknown := unknown_merge lib (in_unknown to2) (in_unknown from)\<rparr>)"

definition insert_copy_from :: "'u pb \<Rightarrow> 'u wire_insert \<Rightarrow> 'u wire_insert \<Rightarrow> 'u wire_insert" where
  "insert_copy_from lib from to = insert_merge lib from (insert_clear lib to)"

definition insert_swap :: "'u wire_insert \<Rightarrow> 'u wire_insert \<Rightarrow> 'u wire_insert \<times> 'u wire_insert" where
  "insert_swap a b =
     (a\<lparr>in_values := in_values b, in_table := in_table b, in_unknown := in_unknown b\<rparr>,
      b\<lparr>in_values := in_values a, in_table := in_table a, in_unknown := in_unknown a\<rparr>)"

section \<open>Sizes\<close>

text \<open>
  The documented sizes of the runtime: a field number up to 15 has a one-byte tag, a
  length-delimited field is its tag, its length and its contents, the sorted view of a map has
  the map's entries, and the size of the empty message is the one it caches and writes. \<open>MessageSize\<close>
  and the header of a message encode its length as 32 bits, both the same bits.
\<close>

definition pb_sizes :: "'u pb \<Rightarrow> bool" where
  "pb_sizes lib \<longleftrightarrow>
     (\<forall>f s. f \<le> 15 \<longrightarrow> length (write_string lib f s) = 1 + string_size lib s)
     \<and> (\<forall>f n. f \<le> 15 \<longrightarrow> length (message_header lib f (to_cached_size n)) + n = 1 + message_size lib n)
     \<and> (\<forall>f k v. f \<le> 15 \<longrightarrow> length (write_entry lib f k v) = 1 + entry_size lib k v)
     \<and> (\<forall>u. length (unknown_bytes lib u) = unknown_size lib u)
     \<and> (\<forall>kvs. mset (map_sorted lib kvs) = mset kvs)
     \<and> (\<forall>k. length (zf_serialize lib (snd (zf_byte_size lib k))) = fst (zf_byte_size lib k)
          \<and> ka_cached (snd (zf_byte_size lib k)) = to_cached_size (fst (zf_byte_size lib k)))"

lemma pb_sizesD:
  assumes "pb_sizes lib"
  shows "f \<le> 15 \<Longrightarrow> length (write_string lib f s) = 1 + string_size lib s"
    and "f \<le> 15 \<Longrightarrow> length (message_header lib f (to_cached_size n)) + n = 1 + message_size lib n"
    and "f \<le> 15 \<Longrightarrow> length (write_entry lib f k v) = 1 + entry_size lib k v"
    and "length (unknown_bytes lib u) = unknown_size lib u"
    and "mset (map_sorted lib kvs) = mset kvs"
    and "length (zf_serialize lib (snd (zf_byte_size lib z))) = fst (zf_byte_size lib z)"
    and "ka_cached (snd (zf_byte_size lib z)) = to_cached_size (fst (zf_byte_size lib z))"
  using assms unfolding pb_sizes_def by blast+

lemma length_unknown_tail:
  "pb_sizes lib \<Longrightarrow> n + length (unknown_tail lib u) = with_unknown_size lib n u"
  by (simp add: unknown_tail_def with_unknown_size_def pb_sizesD(4))

lemma login_size:
  assumes "pb_sizes lib" and "login_byte_size lib m = (n, m')"
  shows "length (login_serialize lib m') = n" and "lg_cached m' = to_cached_size n"
  using assms length_unknown_tail [OF assms(1), of "if lg_nickname m \<noteq> [] then 1 + string_size lib (lg_nickname m) else 0" "lg_unknown m"]
  by (auto simp: login_byte_size_def login_serialize_def pb_sizesD(1) Let_def)

lemma length_write_entries:
  assumes "pb_sizes lib"
  shows "length (write_entries lib kvs) = length kvs + sum_list (map (\<lambda>(k, v). entry_size lib k v) kvs)"
  using pb_sizesD(3) [OF assms] by (induction kvs) (auto simp: write_entries_def)

lemma length_write_sorted:
  assumes "pb_sizes lib"
  shows "length (write_entries lib (map_sorted lib kvs)) = length (write_entries lib kvs)"
proof -
  have p: "mset (map_sorted lib kvs) = mset kvs" by (rule pb_sizesD(5) [OF assms])
  then have "length (map_sorted lib kvs) = length kvs" by (metis size_mset)
  moreover have "sum_list (map f (map_sorted lib kvs)) = sum_list (map f kvs)" for f :: "string \<times> string \<Rightarrow> nat"
    using p by (metis mset_map sum_mset_sum_list)
  ultimately show ?thesis by (simp add: length_write_entries [OF assms])
qed

lemma foldl_entry_size:
  "foldl (\<lambda>n (k, v). n + entry_size lib k v) n kvs = n + sum_list (map (\<lambda>(k, v). entry_size lib k v) kvs)"
  by (induction kvs arbitrary: n) auto

lemma insert_size:
  assumes "pb_sizes lib" and "insert_byte_size lib m = (n, m')"
  shows "length (insert_serialize lib det m') = n" and "in_cached m' = to_cached_size n"
proof -
  have m': "in_values m' = in_values m" "in_table m' = in_table m" "in_unknown m' = in_unknown m" "in_cached m' = to_cached_size n"
    using assms(2) by (auto simp: insert_byte_size_def Let_def)
  have body: "length (if in_values m \<noteq> []
        then if det \<and> 1 < length (in_values m)
          then write_entries lib (map_sorted lib (in_values m)) else write_entries lib (in_values m)
        else []) = length (in_values m) + sum_list (map (\<lambda>(k, v). entry_size lib k v) (in_values m))"
    using length_write_sorted [OF assms(1)] length_write_entries [OF assms(1)] by auto
  have "n = with_unknown_size lib (length (in_values m) + sum_list (map (\<lambda>(k, v). entry_size lib k v) (in_values m))
      + (if in_table m \<noteq> [] then 1 + string_size lib (in_table m) else 0)) (in_unknown m)"
    using assms(2) by (auto simp: insert_byte_size_def foldl_entry_size Let_def)
  also have "\<dots> = length (insert_serialize lib det m')"
    unfolding insert_serialize_def m' length_append body
    by (simp add: pb_sizesD(1) [OF assms(1)] flip: length_unknown_tail [OF assms(1)])
  finally show "length (insert_serialize lib det m') = n" by simp
  show "in_cached m' = to_cached_size n" by (rule m'(4))
qed

section \<open>Contents\<close>

text \<open>
  What a message says, without the cached size and the order in which its map iterates.
\<close>

definition login_contents :: "'u wire_login \<Rightarrow> string \<times> 'u" where
  "login_contents m = (lg_nickname m, lg_unknown m)"

definition insert_contents :: "'u wire_insert \<Rightarrow> (string \<times> string) multiset \<times> string \<times> 'u" where
  "insert_contents m = (mset (in_values m), in_table m, in_unknown m)"

text \<open>What copying relies on: merging into an empty set of unknown fields or an empty map is a copy.\<close>

definition pb_merges :: "'u pb \<Rightarrow> bool" where
  "pb_merges lib \<longleftrightarrow>
     (\<forall>u. unknown_merge lib (unknown_empty lib) u = u)
     \<and> (\<forall>kvs. mset (map_merge lib [] kvs) = mset kvs)"

lemma login_copy_contents:
  assumes "pb_merges lib"
  shows "login_contents (login_copy_from lib from to) = login_contents from"
    and "login_contents (login_copy lib from) = login_contents from"
  using assms
  by (simp_all add: login_contents_def login_copy_from_def login_copy_def login_merge_def login_clear_def
      pb_merges_def Let_def)

lemma keepalive_copy_contents: "pb_merges lib \<Longrightarrow> ka_unknown (keepalive_copy lib from) = ka_unknown from"
  by (simp add: keepalive_copy_def pb_merges_def)

lemma insert_copy_contents:
  assumes "pb_merges lib"
  shows "insert_contents (insert_copy_from lib from to) = insert_contents from"
    and "insert_contents (insert_copy lib from) = insert_contents from"
  using assms
  by (simp_all add: insert_contents_def insert_copy_from_def insert_copy_def insert_merge_def insert_clear_def
      pb_merges_def Let_def)

end
