(* ===== verification/Wire_Envelope.thy ===== *)
theory Wire_Envelope
  imports Wire_Messages
begin

text \<open>
  The envelope of the planned binary protocol: a oneof of Login, KeepAlive and Insert, which the
  generated code keeps as a case number beside a union of owning pointers. The messages it points
  to live in a store; deleting or reading a message that is not there, or under another type, is
  undefined and gives \<open>None\<close>. The theory proves that no sequence of the generated operations ever
  does that, that none leaks or shares a message, and that they implement a plain optional value.
\<close>

section \<open>The store\<close>

type_synonym addr = nat

datatype payload_case = PAYLOAD_NOT_SET | kLogin | kKeepalive | kInsert

datatype 'u wire_msg = LoginMsg "'u wire_login" | KeepAliveMsg "'u wire_keepalive" | InsertMsg "'u wire_insert"

primrec msg_case :: "'u wire_msg \<Rightarrow> payload_case" where
  "msg_case (LoginMsg m) = kLogin"
| "msg_case (KeepAliveMsg m) = kKeepalive"
| "msg_case (InsertMsg m) = kInsert"

record 'u store =
  objs :: "addr \<Rightarrow> 'u wire_msg option"
  next_addr :: addr

definition alloc :: "'u wire_msg \<Rightarrow> 'u store \<Rightarrow> addr \<times> 'u store" where
  "alloc m st = (next_addr st, st\<lparr>objs := (objs st)(next_addr st \<mapsto> m), next_addr := next_addr st + 1\<rparr>)"

definition load :: "payload_case \<Rightarrow> addr \<Rightarrow> 'u store \<Rightarrow> 'u wire_msg option" where
  "load c a st = (case objs st a of None \<Rightarrow> None | Some m \<Rightarrow> if msg_case m = c then Some m else None)"

definition delete_obj :: "payload_case \<Rightarrow> addr \<Rightarrow> 'u store \<Rightarrow> 'u store option" where
  "delete_obj c a st =
     (case load c a st of None \<Rightarrow> None | Some m \<Rightarrow> Some (st\<lparr>objs := (objs st)(a := None)\<rparr>))"

section \<open>The envelope and its accessors\<close>

text \<open>\<open>payload_ptr\<close> is the union; 0 is the null pointer. \<open>oneof_case\<close> is \<open>payload_case()\<close>.\<close>

record 'u envelope =
  oneof_case :: payload_case
  payload_ptr :: addr
  env_cached :: cint
  env_unknown :: 'u

type_synonym 'u env_result = "('u envelope \<times> 'u store) option"

definition envelope_new :: "'u pb \<Rightarrow> 'u envelope" where
  "envelope_new lib =
     \<lparr>oneof_case = PAYLOAD_NOT_SET, payload_ptr = 0, env_cached = 0, env_unknown = unknown_empty lib\<rparr>"

definition has_payload :: "'u envelope \<Rightarrow> bool" where
  "has_payload e \<longleftrightarrow> oneof_case e \<noteq> PAYLOAD_NOT_SET"

definition has_field :: "payload_case \<Rightarrow> 'u envelope \<Rightarrow> bool" where
  "has_field c e \<longleftrightarrow> oneof_case e = c"

definition clear_payload :: "'u envelope \<Rightarrow> 'u store \<Rightarrow> 'u env_result" where
  "clear_payload e st =
     (case oneof_case e of
        PAYLOAD_NOT_SET \<Rightarrow> Some (e, st)
      | c \<Rightarrow> (case delete_obj c (payload_ptr e) st of
               None \<Rightarrow> None
             | Some st1 \<Rightarrow> Some (e\<lparr>oneof_case := PAYLOAD_NOT_SET\<rparr>, st1)))"

definition envelope_dtor :: "'u envelope \<Rightarrow> 'u store \<Rightarrow> 'u env_result" where
  "envelope_dtor e st = (if has_payload e then clear_payload e st else Some (e, st))"

text \<open>\<open>clear_login\<close>, \<open>clear_keepalive\<close>, \<open>clear_insert\<close>.\<close>

definition clear_field :: "payload_case \<Rightarrow> 'u envelope \<Rightarrow> 'u store \<Rightarrow> 'u env_result" where
  "clear_field c e st =
     (if has_field c e
      then (case delete_obj c (payload_ptr e) st of
              None \<Rightarrow> None
            | Some st1 \<Rightarrow> Some (e\<lparr>oneof_case := PAYLOAD_NOT_SET\<rparr>, st1))
      else Some (e, st))"

text \<open>\<open>release_login\<close> and its siblings: the pointer, or null, and the envelope without it.\<close>

definition release_field :: "payload_case \<Rightarrow> 'u envelope \<Rightarrow> addr option \<times> 'u envelope" where
  "release_field c e =
     (if has_field c e
      then (Some (payload_ptr e), e\<lparr>oneof_case := PAYLOAD_NOT_SET, payload_ptr := 0\<rparr>)
      else (None, e))"

text \<open>\<open>set_allocated_login\<close> and its siblings; a null argument only clears.\<close>

definition set_allocated :: "payload_case \<Rightarrow> addr option \<Rightarrow> 'u envelope \<Rightarrow> 'u store
    \<Rightarrow> 'u env_result" where
  "set_allocated c v e st =
     (case clear_payload e st of
        None \<Rightarrow> None
      | Some (e1, st1) \<Rightarrow>
          Some (case v of None \<Rightarrow> e1 | Some a \<Rightarrow> e1\<lparr>oneof_case := c, payload_ptr := a\<rparr>, st1))"

text \<open>\<open>mutable_login\<close> and its siblings; \<open>m\<close> is the default-constructed message.\<close>

definition mutable_field :: "'u wire_msg \<Rightarrow> 'u envelope \<Rightarrow> 'u store
    \<Rightarrow> (addr \<times> 'u envelope \<times> 'u store) option" where
  "mutable_field m e st =
     (if \<not> has_field (msg_case m) e
      then (case clear_payload e st of
              None \<Rightarrow> None
            | Some (e1, st1) \<Rightarrow>
                (case alloc m st1 of (a, st2) \<Rightarrow>
                   Some (a, e1\<lparr>oneof_case := msg_case m, payload_ptr := a\<rparr>, st2)))
      else Some (payload_ptr e, e, st))"

section \<open>Clear, merge, copy, swap\<close>

definition envelope_clear :: "'u pb \<Rightarrow> 'u envelope \<Rightarrow> 'u store \<Rightarrow> 'u env_result" where
  "envelope_clear lib e st =
     (case clear_payload e st of
        None \<Rightarrow> None
      | Some (e1, st1) \<Rightarrow> Some (e1\<lparr>env_unknown := unknown_empty lib\<rparr>, st1))"

text \<open>\<open>CopyConstruct\<close> and \<open>MergeFrom\<close> of the payload's type.\<close>

primrec msg_copy :: "'u pb \<Rightarrow> 'u wire_msg \<Rightarrow> 'u wire_msg" where
  "msg_copy lib (LoginMsg m) = LoginMsg (login_copy lib m)"
| "msg_copy lib (KeepAliveMsg m) = KeepAliveMsg (keepalive_copy lib m)"
| "msg_copy lib (InsertMsg m) = InsertMsg (insert_copy lib m)"

fun msg_merge :: "'u pb \<Rightarrow> 'u wire_msg \<Rightarrow> 'u wire_msg \<Rightarrow> 'u wire_msg" where
  "msg_merge lib (LoginMsg from) (LoginMsg to) = LoginMsg (login_merge lib from to)"
| "msg_merge lib (KeepAliveMsg from) (KeepAliveMsg to) = KeepAliveMsg (zf_merge lib from to)"
| "msg_merge lib (InsertMsg from) (InsertMsg to) = InsertMsg (insert_merge lib from to)"
| "msg_merge lib from to = to"

definition merge_payload :: "'u pb \<Rightarrow> 'u envelope \<Rightarrow> 'u envelope \<Rightarrow> 'u store
    \<Rightarrow> 'u env_result" where
  "merge_payload lib from to st =
     (let oneof_from_case = oneof_case from;
          oneof_needs_init = (oneof_case to \<noteq> oneof_from_case) in
      case (if oneof_needs_init
            then (case (if has_payload to then clear_payload to st else Some (to, st)) of
                    None \<Rightarrow> None
                  | Some (to1, st1) \<Rightarrow> Some (to1\<lparr>oneof_case := oneof_from_case\<rparr>, st1))
            else Some (to, st)) of
        None \<Rightarrow> None
      | Some (to1, st1) \<Rightarrow>
          (case load oneof_from_case (payload_ptr from) st1 of
             None \<Rightarrow> None
           | Some m \<Rightarrow>
               if oneof_needs_init
               then (case alloc (msg_copy lib m) st1 of (a, st2) \<Rightarrow> Some (to1\<lparr>payload_ptr := a\<rparr>, st2))
               else (case load oneof_from_case (payload_ptr to1) st1 of
                       None \<Rightarrow> None
                     | Some m' \<Rightarrow>
                         Some (to1, st1\<lparr>objs := (objs st1)(payload_ptr to1 \<mapsto> msg_merge lib m m')\<rparr>))))"

definition envelope_merge :: "'u pb \<Rightarrow> 'u envelope \<Rightarrow> 'u envelope \<Rightarrow> 'u store
    \<Rightarrow> 'u env_result" where
  "envelope_merge lib from to st =
     (case (if has_payload from then merge_payload lib from to st else Some (to, st)) of
        None \<Rightarrow> None
      | Some (to1, st1) \<Rightarrow>
          Some (to1\<lparr>env_unknown := unknown_merge lib (env_unknown to1) (env_unknown from)\<rparr>, st1))"

text \<open>\<open>same\<close>: source and target are the same object.\<close>

definition envelope_copy_from :: "'u pb \<Rightarrow> bool \<Rightarrow> 'u envelope \<Rightarrow> 'u envelope \<Rightarrow> 'u store
    \<Rightarrow> 'u env_result" where
  "envelope_copy_from lib same from to st =
     (if same then Some (to, st)
      else (case envelope_clear lib to st of
              None \<Rightarrow> None
            | Some (to1, st1) \<Rightarrow> envelope_merge lib from to1 st1))"

definition envelope_copy_ctor :: "'u pb \<Rightarrow> 'u envelope \<Rightarrow> 'u store \<Rightarrow> 'u env_result" where
  "envelope_copy_ctor lib from st =
     (let e = \<lparr>oneof_case = oneof_case from, payload_ptr = 0, env_cached = 0,
               env_unknown = unknown_merge lib (unknown_empty lib) (env_unknown from)\<rparr> in
      case oneof_case e of
        PAYLOAD_NOT_SET \<Rightarrow> Some (e, st)
      | c \<Rightarrow> (case load c (payload_ptr from) st of
               None \<Rightarrow> None
             | Some m \<Rightarrow> (case alloc (msg_copy lib m) st of (a, st1) \<Rightarrow> Some (e\<lparr>payload_ptr := a\<rparr>, st1))))"

definition envelope_swap :: "'u envelope \<Rightarrow> 'u envelope \<Rightarrow> 'u envelope \<times> 'u envelope" where
  "envelope_swap a b =
     (a\<lparr>env_unknown := env_unknown b, payload_ptr := payload_ptr b, oneof_case := oneof_case b\<rparr>,
      b\<lparr>env_unknown := env_unknown a, payload_ptr := payload_ptr a, oneof_case := oneof_case a\<rparr>)"

section \<open>Size and serialisation\<close>

text \<open>
  \<open>ByteSizeLong\<close> caches the size in the message; serialising a nested message writes the cached
  size before it.
\<close>

primrec msg_byte_size :: "'u pb \<Rightarrow> 'u wire_msg \<Rightarrow> nat \<times> 'u wire_msg" where
  "msg_byte_size lib (LoginMsg m) = (case login_byte_size lib m of (n, m') \<Rightarrow> (n, LoginMsg m'))"
| "msg_byte_size lib (KeepAliveMsg m) = (case zf_byte_size lib m of (n, m') \<Rightarrow> (n, KeepAliveMsg m'))"
| "msg_byte_size lib (InsertMsg m) = (case insert_byte_size lib m of (n, m') \<Rightarrow> (n, InsertMsg m'))"

primrec msg_cached_size :: "'u wire_msg \<Rightarrow> cint" where
  "msg_cached_size (LoginMsg m) = lg_cached m"
| "msg_cached_size (KeepAliveMsg m) = ka_cached m"
| "msg_cached_size (InsertMsg m) = in_cached m"

primrec msg_serialize :: "'u pb \<Rightarrow> bool \<Rightarrow> 'u wire_msg \<Rightarrow> bytes" where
  "msg_serialize lib det (LoginMsg m) = login_serialize lib m"
| "msg_serialize lib det (KeepAliveMsg m) = zf_serialize lib m"
| "msg_serialize lib det (InsertMsg m) = insert_serialize lib det m"

primrec field_number :: "payload_case \<Rightarrow> nat" where
  "field_number PAYLOAD_NOT_SET = 0"
| "field_number kLogin = 1"
| "field_number kKeepalive = 2"
| "field_number kInsert = 3"

definition envelope_byte_size :: "'u pb \<Rightarrow> 'u envelope \<Rightarrow> 'u store
    \<Rightarrow> (nat \<times> 'u envelope \<times> 'u store) option" where
  "envelope_byte_size lib e st =
     (case (case oneof_case e of
              PAYLOAD_NOT_SET \<Rightarrow> Some (0, st)
            | c \<Rightarrow> (case load c (payload_ptr e) st of
                     None \<Rightarrow> None
                   | Some m \<Rightarrow> (case msg_byte_size lib m of (n, m') \<Rightarrow>
                       Some (1 + message_size lib n, st\<lparr>objs := (objs st)(payload_ptr e \<mapsto> m')\<rparr>)))) of
        None \<Rightarrow> None
      | Some (total_size, st1) \<Rightarrow>
          (let n = with_unknown_size lib total_size (env_unknown e) in
           Some (n, e\<lparr>env_cached := to_cached_size n\<rparr>, st1)))"

definition envelope_serialize :: "'u pb \<Rightarrow> bool \<Rightarrow> 'u envelope \<Rightarrow> 'u store \<Rightarrow> bytes option" where
  "envelope_serialize lib det e st =
     (case (case oneof_case e of
              PAYLOAD_NOT_SET \<Rightarrow> Some []
            | c \<Rightarrow> (case load c (payload_ptr e) st of
                     None \<Rightarrow> None
                   | Some m \<Rightarrow> Some (message_header lib (field_number c) (msg_cached_size m)
                                  @ msg_serialize lib det m))) of
        None \<Rightarrow> None
      | Some bs \<Rightarrow> Some (bs @ unknown_tail lib (env_unknown e)))"

section \<open>Ownership\<close>

text \<open>
  An envelope with a case set owns the message its pointer leads to, of that case.
\<close>

definition env_ok :: "'u envelope \<Rightarrow> 'u store \<Rightarrow> bool" where
  "env_ok e st \<longleftrightarrow> (has_payload e \<longrightarrow> (\<exists>m. objs st (payload_ptr e) = Some m \<and> msg_case m = oneof_case e))"

definition owned :: "'u envelope \<Rightarrow> addr set" where
  "owned e = (if has_payload e then {payload_ptr e} else {})"

text \<open>
  Two envelopes and a store: both are sound, they share nothing, and the store holds nothing else.
\<close>

definition own_inv :: "'u envelope \<Rightarrow> 'u envelope \<Rightarrow> 'u store \<Rightarrow> bool" where
  "own_inv a b st \<longleftrightarrow> env_ok a st \<and> env_ok b st \<and> owned a \<inter> owned b = {}
     \<and> dom (objs st) = owned a \<union> owned b \<and> (\<forall>x \<in> dom (objs st). x < next_addr st)"

definition env_value :: "'u envelope \<Rightarrow> 'u store \<Rightarrow> 'u wire_msg option \<times> 'u" where
  "env_value e st = (if has_payload e then objs st (payload_ptr e) else None, env_unknown e)"

abbreviation unset :: "'u envelope \<Rightarrow> 'u envelope" where
  "unset e \<equiv> e\<lparr>oneof_case := PAYLOAD_NOT_SET\<rparr>"

abbreviation drop_owned :: "'u envelope \<Rightarrow> 'u store \<Rightarrow> 'u store" where
  "drop_owned e st \<equiv> st\<lparr>objs := (objs st) |` (- owned e)\<rparr>"

lemmas own_defs = env_ok_def owned_def own_inv_def env_value_def has_payload_def

lemma msg_case_set [simp]: "msg_case m \<noteq> PAYLOAD_NOT_SET"
  by (cases m) simp_all

lemma delete_owned:
  "env_ok e st \<Longrightarrow> has_payload e \<Longrightarrow> delete_obj (oneof_case e) (payload_ptr e) st = Some (drop_owned e st)"
  by (auto simp: own_defs delete_obj_def load_def restrict_complement_singleton_eq)

lemma restrict_UNIV [simp]: "m |` UNIV = m"
  by (simp add: restrict_map_def)

lemma clear_payload_ok: "env_ok e st \<Longrightarrow> clear_payload e st = Some (unset e, drop_owned e st)"
  using delete_owned [of e st]
  by (cases "oneof_case e") (auto simp: clear_payload_def has_payload_def owned_def)

lemma own_sym: "own_inv a b st = own_inv b a st"
  by (auto simp: own_inv_def)

lemma own_drop:
  assumes "own_inv a b st"
  shows "own_inv (unset a) b (drop_owned a st)" and "env_value b (drop_owned a st) = env_value b st"
    and "\<And>x. x \<in> owned b \<Longrightarrow> objs (drop_owned a st) x = objs st x"
  using assms by (auto simp: own_defs restrict_map_def dom_def split: if_splits)

lemma own_alloc:
  assumes "own_inv a b st" and "\<not> has_payload a"
    and "a' = a\<lparr>oneof_case := msg_case m, payload_ptr := next_addr st\<rparr>" and "st' = snd (alloc m st)"
  shows "own_inv a' b st'" and "env_value a' st' = (Some m, env_unknown a)" and "env_value b st' = env_value b st"
proof -
  have "next_addr st \<notin> dom (objs st)" using assms(1) by (auto simp: own_inv_def)
  then show "own_inv a' b st'" and "env_value a' st' = (Some m, env_unknown a)" and "env_value b st' = env_value b st"
    using assms by (auto simp: own_defs alloc_def less_Suc_eq split: if_splits)
qed

lemma own_update:
  assumes "own_inv a b st" and "has_payload a" and "msg_case m = oneof_case a"
    and "st' = st\<lparr>objs := (objs st)(payload_ptr a \<mapsto> m)\<rparr>"
  shows "own_inv a b st'" and "env_value a st' = (Some m, env_unknown a)" and "env_value b st' = env_value b st"
  using assms by (auto simp: own_defs split: if_splits)

lemma own_unknown [simp]:
  "own_inv (a\<lparr>env_unknown := u\<rparr>) b st = own_inv a b st"
  "env_value (a\<lparr>env_unknown := u\<rparr>) st = (fst (env_value a st), u)"
  by (simp_all add: own_defs)

lemma own_load:
  "own_inv a b st \<Longrightarrow> has_payload a \<Longrightarrow> load (oneof_case a) (payload_ptr a) st = fst (env_value a st)
     \<and> (\<exists>m. fst (env_value a st) = Some m \<and> msg_case m = oneof_case a)"
  by (auto simp: own_defs load_def)

lemma value_case:
  "own_inv a b st \<Longrightarrow> fst (env_value a st) = None \<longleftrightarrow> \<not> has_payload a"
  by (auto simp: own_defs)

section \<open>A program over two envelopes\<close>

text \<open>
  The operations on the first envelope, with the second as the source of merges and copies:
  editing a field through its mutable accessor, clearing, releasing (the caller deletes what it
  gets), handing over a new message or null, merging, copying, destroying the envelope and
  constructing it anew as a copy, swapping.
\<close>

definition on_login :: "('u wire_login \<Rightarrow> 'u wire_login) \<Rightarrow> 'u wire_msg \<Rightarrow> 'u wire_msg" where
  "on_login f m = (case m of LoginMsg l \<Rightarrow> LoginMsg (f l) | _ \<Rightarrow> m)"

definition on_keepalive :: "('u wire_keepalive \<Rightarrow> 'u wire_keepalive) \<Rightarrow> 'u wire_msg \<Rightarrow> 'u wire_msg" where
  "on_keepalive f m = (case m of KeepAliveMsg l \<Rightarrow> KeepAliveMsg (f l) | _ \<Rightarrow> m)"

definition on_insert :: "('u wire_insert \<Rightarrow> 'u wire_insert) \<Rightarrow> 'u wire_msg \<Rightarrow> 'u wire_msg" where
  "on_insert f m = (case m of InsertMsg l \<Rightarrow> InsertMsg (f l) | _ \<Rightarrow> m)"

lemma msg_case_on [simp]:
  "msg_case (on_login f m) = msg_case m" "msg_case (on_keepalive g m) = msg_case m"
  "msg_case (on_insert h m) = msg_case m"
  by (cases m; simp add: on_login_def on_keepalive_def on_insert_def)+

datatype 'u env_op =
    EditLogin "'u wire_login \<Rightarrow> 'u wire_login"
  | EditKeepAlive "'u wire_keepalive \<Rightarrow> 'u wire_keepalive"
  | EditInsert "'u wire_insert \<Rightarrow> 'u wire_insert"
  | ClearPayload
  | ClearField payload_case
  | ReleaseField payload_case
  | SetAllocated "'u wire_msg"
  | SetNull payload_case
  | ClearAll
  | MergeOther
  | CopyOther
  | CopyConstruct
  | SwapOther

type_synonym 'u two = "'u envelope \<times> 'u envelope \<times> 'u store"

definition edit :: "'u wire_msg \<Rightarrow> ('u wire_msg \<Rightarrow> 'u wire_msg) \<Rightarrow> 'u envelope
    \<Rightarrow> 'u store \<Rightarrow> 'u env_result" where
  "edit m f e st =
     (case mutable_field m e st of
        None \<Rightarrow> None
      | Some (p, e1, st1) \<Rightarrow>
          (case load (msg_case m) p st1 of
             None \<Rightarrow> None
           | Some x \<Rightarrow> Some (e1, st1\<lparr>objs := (objs st1)(p \<mapsto> f x)\<rparr>)))"

definition release_delete :: "payload_case \<Rightarrow> 'u envelope \<Rightarrow> 'u store \<Rightarrow> 'u env_result" where
  "release_delete c e st =
     (case release_field c e of
        (None, e1) \<Rightarrow> Some (e1, st)
      | (Some p, e1) \<Rightarrow> (case delete_obj c p st of None \<Rightarrow> None | Some st1 \<Rightarrow> Some (e1, st1)))"

definition with_other :: "'u envelope \<Rightarrow> 'u env_result \<Rightarrow> 'u two option" where
  "with_other b r = (case r of None \<Rightarrow> None | Some (a, st) \<Rightarrow> Some (a, b, st))"

fun env_step :: "'u pb \<Rightarrow> 'u env_op \<Rightarrow> 'u two \<Rightarrow> 'u two option" where
  "env_step lib (EditLogin f) (a, b, st) = with_other b (edit (LoginMsg (login_new lib)) (on_login f) a st)"
| "env_step lib (EditKeepAlive f) (a, b, st) = with_other b (edit (KeepAliveMsg (keepalive_new lib)) (on_keepalive f) a st)"
| "env_step lib (EditInsert f) (a, b, st) = with_other b (edit (InsertMsg (insert_new lib)) (on_insert f) a st)"
| "env_step lib ClearPayload (a, b, st) = with_other b (clear_payload a st)"
| "env_step lib (ClearField c) (a, b, st) =
     (if c = PAYLOAD_NOT_SET then Some (a, b, st) else with_other b (clear_field c a st))"
| "env_step lib (ReleaseField c) (a, b, st) =
     (if c = PAYLOAD_NOT_SET then Some (a, b, st) else with_other b (release_delete c a st))"
| "env_step lib (SetAllocated m) (a, b, st) =
     (case alloc m st of (p, st1) \<Rightarrow> with_other b (set_allocated (msg_case m) (Some p) a st1))"
| "env_step lib (SetNull c) (a, b, st) = with_other b (set_allocated c None a st)"
| "env_step lib ClearAll (a, b, st) = with_other b (envelope_clear lib a st)"
| "env_step lib MergeOther (a, b, st) = with_other b (envelope_merge lib b a st)"
| "env_step lib CopyOther (a, b, st) = with_other b (envelope_copy_from lib False b a st)"
| "env_step lib CopyConstruct (a, b, st) =
     (case envelope_dtor a st of None \<Rightarrow> None | Some (a1, st1) \<Rightarrow> with_other b (envelope_copy_ctor lib b st1))"
| "env_step lib SwapOther (a, b, st) = (case envelope_swap a b of (a1, b1) \<Rightarrow> Some (a1, b1, st))"

fun env_run :: "'u pb \<Rightarrow> 'u env_op list \<Rightarrow> 'u two \<Rightarrow> 'u two option" where
  "env_run lib [] s = Some s"
| "env_run lib (x # xs) s = (case env_step lib x s of None \<Rightarrow> None | Some s1 \<Rightarrow> env_run lib xs s1)"

section \<open>What the program means\<close>

text \<open>The same operations on optional values, without pointers.\<close>

type_synonym 'u val = "'u wire_msg option \<times> 'u"

definition edit_value :: "'u wire_msg \<Rightarrow> ('u wire_msg \<Rightarrow> 'u wire_msg)
    \<Rightarrow> 'u wire_msg option \<Rightarrow> 'u wire_msg option" where
  "edit_value m f p =
     (case p of None \<Rightarrow> Some (f m) | Some x \<Rightarrow> Some (f (if msg_case x = msg_case m then x else m)))"

definition clear_case :: "payload_case \<Rightarrow> 'u wire_msg option \<Rightarrow> 'u wire_msg option" where
  "clear_case c p = (case p of None \<Rightarrow> None | Some x \<Rightarrow> if msg_case x = c then None else p)"

definition merge_value :: "'u pb \<Rightarrow> 'u wire_msg option \<Rightarrow> 'u wire_msg option
    \<Rightarrow> 'u wire_msg option" where
  "merge_value lib from to =
     (case from of
        None \<Rightarrow> to
      | Some m \<Rightarrow> (case to of
           Some m' \<Rightarrow> if msg_case m' = msg_case m then Some (msg_merge lib m m') else Some (msg_copy lib m)
         | None \<Rightarrow> Some (msg_copy lib m)))"

fun val_step :: "'u pb \<Rightarrow> 'u env_op \<Rightarrow> 'u val \<times> 'u val
    \<Rightarrow> 'u val \<times> 'u val" where
  "val_step lib (EditLogin f) ((p, u), q) = ((edit_value (LoginMsg (login_new lib)) (on_login f) p, u), q)"
| "val_step lib (EditKeepAlive f) ((p, u), q) = ((edit_value (KeepAliveMsg (keepalive_new lib)) (on_keepalive f) p, u), q)"
| "val_step lib (EditInsert f) ((p, u), q) = ((edit_value (InsertMsg (insert_new lib)) (on_insert f) p, u), q)"
| "val_step lib ClearPayload ((p, u), q) = ((None, u), q)"
| "val_step lib (ClearField c) ((p, u), q) = ((clear_case c p, u), q)"
| "val_step lib (ReleaseField c) ((p, u), q) = ((clear_case c p, u), q)"
| "val_step lib (SetAllocated m) ((p, u), q) = ((Some m, u), q)"
| "val_step lib (SetNull c) ((p, u), q) = ((None, u), q)"
| "val_step lib ClearAll ((p, u), q) = ((None, unknown_empty lib), q)"
| "val_step lib MergeOther ((p, u), (q, v)) = ((merge_value lib q p, unknown_merge lib u v), (q, v))"
| "val_step lib CopyOther ((p, u), (q, v)) =
     ((merge_value lib q None, unknown_merge lib (unknown_empty lib) v), (q, v))"
| "val_step lib CopyConstruct ((p, u), (q, v)) =
     ((merge_value lib q None, unknown_merge lib (unknown_empty lib) v), (q, v))"
| "val_step lib SwapOther (x, y) = (y, x)"

section \<open>The pointers implement the values\<close>

text \<open>The result of an operation on the first envelope, in terms of values and ownership.\<close>

definition becomes :: "'u env_result \<Rightarrow> 'u envelope \<Rightarrow> 'u val \<Rightarrow> 'u val \<Rightarrow> bool" where
  "becomes r b x y \<longleftrightarrow> (\<exists>a' st'. r = Some (a', st') \<and> own_inv a' b st' \<and> env_value a' st' = x \<and> env_value b st' = y)"

lemma becomesI:
  "r = Some (a', st') \<Longrightarrow> own_inv a' b st' \<Longrightarrow> env_value a' st' = x \<Longrightarrow> env_value b st' = y \<Longrightarrow> becomes r b x y"
  by (auto simp: becomes_def)

lemma own_ok: "own_inv a b st \<Longrightarrow> env_ok a st"
  by (simp add: own_inv_def)

lemma unset_value: "env_value (unset a) st = (None, env_unknown a)"
  "env_value ((unset a)\<lparr>payload_ptr := p\<rparr>) st = (None, env_unknown a)"
  by (simp_all add: env_value_def has_payload_def)

lemma clear_payload_becomes:
  "own_inv a b st \<Longrightarrow> becomes (clear_payload a st) b (None, env_unknown a) (env_value b st)"
  by (rule becomesI [OF clear_payload_ok]) (simp_all add: own_ok own_drop unset_value)

lemma clear_field_becomes:
  assumes "own_inv a b st" and "c \<noteq> PAYLOAD_NOT_SET"
  shows "becomes (clear_field c a st) b (clear_case c (fst (env_value a st)), env_unknown a) (env_value b st)"
proof (cases "has_field c a")
  case True
  then have h: "has_payload a" "oneof_case a = c" using assms(2) by (auto simp: has_field_def has_payload_def)
  then have d: "delete_obj c (payload_ptr a) st = Some (drop_owned a st)"
    using delete_owned [OF own_ok [OF assms(1)] h(1)] by simp
  have "clear_case c (fst (env_value a st)) = None"
    using own_load [OF assms(1) h(1)] h(2) by (auto simp: clear_case_def)
  then show ?thesis
    using True d assms(1) by (intro becomesI [of _ "unset a" "drop_owned a st"])
      (simp_all add: clear_field_def own_drop unset_value)
next
  case False
  have "clear_case c (fst (env_value a st)) = fst (env_value a st)"
    using assms(1) False by (auto simp: clear_case_def own_defs has_field_def split: option.split)
  then show ?thesis
    using False assms(1) by (intro becomesI [of _ a st]) (simp_all add: clear_field_def env_value_def)
qed

lemma own_ptr [simp]:
  "\<not> has_payload a \<Longrightarrow> own_inv (a\<lparr>payload_ptr := p\<rparr>) b st = own_inv a b st"
  by (simp add: own_defs)

lemma release_becomes:
  assumes "own_inv a b st" and "c \<noteq> PAYLOAD_NOT_SET"
  shows "becomes (release_delete c a st) b (clear_case c (fst (env_value a st)), env_unknown a) (env_value b st)"
proof (cases "has_field c a")
  case True
  then have h: "has_payload a" "oneof_case a = c" using assms(2) by (auto simp: has_field_def has_payload_def)
  then have d: "delete_obj c (payload_ptr a) st = Some (drop_owned a st)"
    using delete_owned [OF own_ok [OF assms(1)] h(1)] by simp
  have v: "clear_case c (fst (env_value a st)) = None"
    using own_load [OF assms(1) h(1)] h(2) by (auto simp: clear_case_def)
  have "own_inv ((unset a)\<lparr>payload_ptr := 0\<rparr>) b (drop_owned a st)"
    using own_drop(1) [OF assms(1)] by (simp add: has_payload_def)
  then show ?thesis
    using True d v assms(1) by (intro becomesI [of _ "(unset a)\<lparr>payload_ptr := 0\<rparr>" "drop_owned a st"])
      (simp_all add: release_delete_def release_field_def own_drop unset_value)
next
  case False
  then show ?thesis
    using clear_field_becomes [OF assms] by (simp add: release_delete_def release_field_def clear_field_def)
qed

lemma set_null_becomes:
  "own_inv a b st \<Longrightarrow> becomes (set_allocated c None a st) b (None, env_unknown a) (env_value b st)"
  by (rule becomesI [of _ "unset a" "drop_owned a st"])
    (simp_all add: set_allocated_def clear_payload_ok own_ok own_drop unset_value)

lemma set_allocated_becomes:
  assumes "own_inv a b st" and "alloc m st = (p, st1)"
  shows "becomes (set_allocated (msg_case m) (Some p) a st1) b (Some m, env_unknown a) (env_value b st)"
proof -
  have p: "p = next_addr st" "p \<notin> owned a" "st1 = st\<lparr>objs := (objs st)(p \<mapsto> m), next_addr := p + 1\<rparr>"
    using assms by (auto simp: alloc_def own_inv_def)
  have ok: "env_ok a st1" using assms(1) p by (auto simp: own_defs)
  let ?d = "drop_owned a st"
  have d: "drop_owned a st1 = snd (alloc m ?d)"
    using p(2) by (auto simp: p(1,3) alloc_def restrict_map_def fun_eq_iff)
  let ?a = "(unset a)\<lparr>oneof_case := msg_case m, payload_ptr := next_addr ?d\<rparr>"
  have un: "\<not> has_payload (unset a)" by (simp add: has_payload_def)
  note al = own_alloc [OF own_drop(1) [OF assms(1)] un refl refl, of m]
  show ?thesis
    using ok p(1) d al own_drop(2) [OF assms(1)]
    by (intro becomesI [of _ ?a "snd (alloc m ?d)"]) (simp_all add: set_allocated_def clear_payload_ok)
qed

lemma edit_becomes:
  assumes "own_inv a b st" and "\<And>x. msg_case (f x) = msg_case x"
  shows "becomes (edit m f a st) b (edit_value m f (fst (env_value a st)), env_unknown a) (env_value b st)"
proof (cases "has_field (msg_case m) a")
  case True
  then have h: "has_payload a" "oneof_case a = msg_case m" by (auto simp: has_field_def has_payload_def)
  obtain x where x: "load (msg_case m) (payload_ptr a) st = Some x" "fst (env_value a st) = Some x"
    "msg_case x = msg_case m"
    using own_load [OF assms(1) h(1)] h(2) by auto
  have "msg_case (f x) = oneof_case a" using assms(2) x(3) h(2) by simp
  note up = own_update [OF assms(1) h(1) this refl]
  show ?thesis
    using True x up by (intro becomesI [of _ a "st\<lparr>objs := (objs st)(payload_ptr a \<mapsto> f x)\<rparr>"])
      (simp_all add: edit_def mutable_field_def edit_value_def)
next
  case False
  let ?d = "drop_owned a st"
  let ?a = "(unset a)\<lparr>oneof_case := msg_case m, payload_ptr := next_addr ?d\<rparr>"
  let ?s = "snd (alloc m ?d)"
  have un: "\<not> has_payload (unset a)" by (simp add: has_payload_def)
  note al = own_alloc [OF own_drop(1) [OF assms(1)] un refl refl, of m]
  have h: "has_payload ?a" "msg_case (f m) = oneof_case ?a" using assms(2) by (simp_all add: has_payload_def)
  note up = own_update [OF al(1) h refl]
  have l: "load (msg_case m) (next_addr st) ?s = Some m" by (simp add: load_def alloc_def)
  have ev: "edit_value m f (fst (env_value a st)) = Some (f m)"
    using False assms(1) by (auto simp: edit_value_def own_defs has_field_def split: option.split)
  show ?thesis
  proof (rule becomesI)
    show "edit m f a st = Some (?a, ?s\<lparr>objs := (objs ?s)(payload_ptr ?a \<mapsto> f m)\<rparr>)"
      using False l by (simp add: edit_def mutable_field_def clear_payload_ok [OF own_ok [OF assms(1)]] alloc_def)
    show "own_inv ?a b (?s\<lparr>objs := (objs ?s)(payload_ptr ?a \<mapsto> f m)\<rparr>)" by (rule up(1))
    show "env_value ?a (?s\<lparr>objs := (objs ?s)(payload_ptr ?a \<mapsto> f m)\<rparr>) =
        (edit_value m f (fst (env_value a st)), env_unknown a)"
      using up(2) by (simp add: ev)
    show "env_value b (?s\<lparr>objs := (objs ?s)(payload_ptr ?a \<mapsto> f m)\<rparr>) = env_value b st"
      using up(3) al(3) own_drop(2) [OF assms(1)] by simp
  qed
qed

text \<open>Merging, from the second envelope.\<close>

lemma msg_case_copy [simp]: "msg_case (msg_copy lib m) = msg_case m"
  by (cases m) simp_all

lemma msg_case_merge [simp]: "msg_case (msg_merge lib m m') = msg_case m'"
  by (induction lib m m' rule: msg_merge.induct) simp_all

lemma merge_payload_becomes:
  assumes "own_inv a b st" and "has_payload b"
  shows "becomes (merge_payload lib b a st) b
    (merge_value lib (fst (env_value b st)) (fst (env_value a st)), env_unknown a) (env_value b st)"
proof -
  note sym = assms(1) [unfolded own_sym [of a b]]
  obtain m where m: "fst (env_value b st) = Some m" "msg_case m = oneof_case b"
      "load (oneof_case b) (payload_ptr b) st = Some m"
    using own_load [OF sym assms(2)] by auto
  show ?thesis
  proof (cases "oneof_case a = oneof_case b")
    case True
    then have h: "has_payload a" using assms(2) by (simp add: has_payload_def)
    obtain m' where m': "fst (env_value a st) = Some m'" "msg_case m' = oneof_case a"
        "load (oneof_case a) (payload_ptr a) st = Some m'"
      using own_load [OF assms(1) h] by auto
    have "msg_case (msg_merge lib m m') = oneof_case a" using m' by simp
    note up = own_update [OF assms(1) h this refl]
    show ?thesis
      using True m m' up
      by (intro becomesI [of _ a "st\<lparr>objs := (objs st)(payload_ptr a \<mapsto> msg_merge lib m m')\<rparr>"])
        (simp_all add: merge_payload_def merge_value_def Let_def)
  next
    case False
    let ?d = "drop_owned a st"
    let ?a = "(unset a)\<lparr>oneof_case := msg_case (msg_copy lib m), payload_ptr := next_addr ?d\<rparr>"
    let ?s = "snd (alloc (msg_copy lib m) ?d)"
    have un: "\<not> has_payload (unset a)" by (simp add: has_payload_def)
    note al = own_alloc [OF own_drop(1) [OF assms(1)] un refl refl, of "msg_copy lib m"]
    have cl: "(if has_payload a then clear_payload a st else Some (a, st)) = Some (unset a, ?d)"
      using clear_payload_ok [OF own_ok [OF assms(1)]] by (cases "has_payload a") (auto simp: owned_def has_payload_def)
    have l: "load (oneof_case b) (payload_ptr b) ?d = Some m"
      using m(3) own_drop(3) [OF assms(1), of "payload_ptr b"] assms(2) by (simp add: load_def owned_def)
    have mv: "merge_value lib (fst (env_value b st)) (fst (env_value a st)) = Some (msg_copy lib m)"
      using False assms(1) m(1,2) by (auto simp: merge_value_def own_defs split: option.split)
    show ?thesis
    proof (rule becomesI)
      show "merge_payload lib b a st = Some (?a, ?s)"
        unfolding merge_payload_def Let_def cl using False l m(2) by (simp add: alloc_def)
      show "own_inv ?a b ?s" by (rule al(1))
      show "env_value ?a ?s = (merge_value lib (fst (env_value b st)) (fst (env_value a st)), env_unknown a)"
        using al(2) by (simp add: mv)
      show "env_value b ?s = env_value b st" using al(3) own_drop(2) [OF assms(1)] by simp
    qed
  qed
qed

lemma envelope_merge_becomes:
  assumes "own_inv a b st"
  shows "becomes (envelope_merge lib b a st) b
    (merge_value lib (fst (env_value b st)) (fst (env_value a st)),
     unknown_merge lib (env_unknown a) (env_unknown b)) (env_value b st)"
proof (cases "has_payload b")
  case True
  from merge_payload_becomes [OF assms True, of lib] obtain a' st' where r:
    "merge_payload lib b a st = Some (a', st')" "own_inv a' b st'" "env_value b st' = env_value b st"
    "env_value a' st' = (merge_value lib (fst (env_value b st)) (fst (env_value a st)), env_unknown a)"
    by (auto simp: becomes_def)
  then have "env_unknown a' = env_unknown a" by (simp add: env_value_def)
  with r True show ?thesis
    by (intro becomesI [of _ "a'\<lparr>env_unknown := unknown_merge lib (env_unknown a) (env_unknown b)\<rparr>" st'])
      (simp_all add: envelope_merge_def)
next
  case False
  then have "fst (env_value b st) = None" by (simp add: env_value_def)
  with False assms show ?thesis
    by (intro becomesI [of _ "a\<lparr>env_unknown := unknown_merge lib (env_unknown a) (env_unknown b)\<rparr>" st])
      (simp_all add: envelope_merge_def merge_value_def)
qed

lemma envelope_clear_becomes:
  assumes "own_inv a b st"
  shows "becomes (envelope_clear lib a st) b (None, unknown_empty lib) (env_value b st)"
  using assms clear_payload_ok [OF own_ok [OF assms]]
  by (intro becomesI [of _ "(unset a)\<lparr>env_unknown := unknown_empty lib\<rparr>" "drop_owned a st"])
    (simp_all add: envelope_clear_def own_drop unset_value)

lemma envelope_copy_becomes:
  assumes "own_inv a b st"
  shows "becomes (envelope_copy_from lib False b a st) b
    (merge_value lib (fst (env_value b st)) None,
     unknown_merge lib (unknown_empty lib) (env_unknown b)) (env_value b st)"
proof -
  from envelope_clear_becomes [OF assms, of lib] obtain a' st' where r:
    "envelope_clear lib a st = Some (a', st')" "own_inv a' b st'" "env_value b st' = env_value b st"
    "env_value a' st' = (None, unknown_empty lib)"
    by (auto simp: becomes_def)
  then have "fst (env_value a' st') = None" "env_unknown a' = unknown_empty lib" by (simp_all add: env_value_def)
  with envelope_merge_becomes [OF r(2), of lib] r(1,3) show ?thesis
    by (simp add: envelope_copy_from_def)
qed

lemma envelope_dtor_ok:
  "env_ok a st \<Longrightarrow> \<exists>a'. envelope_dtor a st = Some (a', drop_owned a st)"
  using clear_payload_ok [of a st] by (auto simp: envelope_dtor_def owned_def)

lemma copy_ctor_becomes:
  assumes "own_inv a b st"
  shows "becomes (envelope_copy_ctor lib b (drop_owned a st)) b
    (merge_value lib (fst (env_value b st)) None,
     unknown_merge lib (unknown_empty lib) (env_unknown b)) (env_value b st)"
proof -
  let ?st = "drop_owned a st"
  let ?u = "unknown_merge lib (unknown_empty lib) (env_unknown b)"
  let ?e = "\<lparr>oneof_case = oneof_case b, payload_ptr = 0, env_cached = 0, env_unknown = ?u\<rparr>"
  let ?z = "\<lparr>oneof_case = PAYLOAD_NOT_SET, payload_ptr = 0, env_cached = 0, env_unknown = ?u\<rparr>"
  have inv: "own_inv (unset a) b ?st" and val: "env_value b ?st = env_value b st"
    using own_drop [OF assms] by blast+
  show ?thesis
  proof (cases "has_payload b")
    case False
    then have c: "oneof_case b = PAYLOAD_NOT_SET" by (simp add: has_payload_def)
    have "own_inv ?e b ?st" using inv c by (simp add: own_defs)
    then show ?thesis using c val
      by (intro becomesI [of _ ?e ?st]) (simp_all add: envelope_copy_ctor_def env_value_def has_payload_def merge_value_def)
  next
    case True
    obtain m where m: "load (oneof_case b) (payload_ptr b) ?st = Some m" "fst (env_value b st) = Some m"
      "msg_case m = oneof_case b"
      using own_load [OF inv [unfolded own_sym [of "unset a"]] True] val by auto
    obtain p st2 where al: "alloc (msg_copy lib m) ?st = (p, st2)" by (cases "alloc (msg_copy lib m) ?st")
    have c: "msg_case (msg_copy lib m) = oneof_case b" using m(3) by (cases m) simp_all
    have "envelope_copy_ctor lib b ?st = Some (?e\<lparr>payload_ptr := p\<rparr>, st2)"
      using True m(1) al by (cases "oneof_case b") (simp_all add: envelope_copy_ctor_def has_payload_def Let_def)
    moreover have "own_inv ?z b ?st" "\<not> has_payload ?z" using inv by (simp_all add: own_defs)
    note own_alloc [OF this refl refl, of "msg_copy lib m"]
    ultimately show ?thesis using c al m(2) val
      by (intro becomesI [of _ "?e\<lparr>payload_ptr := p\<rparr>" st2]) (auto simp: alloc_def merge_value_def)
  qed
qed

lemma becomes_two:
  assumes "becomes r b x y"
  shows "\<exists>a' b' st'. with_other b r = Some (a', b', st') \<and> own_inv a' b' st'
    \<and> (env_value a' st', env_value b' st') = (x, y)"
  using assms by (auto simp: becomes_def with_other_def)

lemma swap_two:
  assumes "own_inv a b st" and "envelope_swap a b = (a', b')"
  shows "own_inv a' b' st \<and> env_value a' st = env_value b st \<and> env_value b' st = env_value a st"
  using assms by (auto simp: envelope_swap_def own_defs)

lemma env_step_refines:
  assumes "own_inv a b st"
  shows "\<exists>a' b' st'. env_step lib x (a, b, st) = Some (a', b', st') \<and> own_inv a' b' st'
    \<and> (env_value a' st', env_value b' st') = val_step lib x (env_value a st, env_value b st)"
proof -
  obtain p u q v where va: "env_value a st = (p, u)" and vb: "env_value b st = (q, v)"
    by (cases "env_value a st"; cases "env_value b st")
  have un: "env_unknown a = u" "env_unknown b = v" using va vb by (simp_all add: env_value_def)
  have cc: "clear_case PAYLOAD_NOT_SET y = y" for y :: "'a wire_msg option"
    by (simp add: clear_case_def split: option.split)
  show ?thesis
  proof (cases x)
    case (SetAllocated m)
    obtain r st1 where al: "alloc m st = (r, st1)" by (cases "alloc m st")
    show ?thesis
      using becomes_two [OF set_allocated_becomes [OF assms al]] SetAllocated al by (simp add: va vb un)
  next
    case SwapOther
    obtain a' b' where sw: "envelope_swap a b = (a', b')" by (cases "envelope_swap a b")
    then show ?thesis using swap_two [OF assms sw] SwapOther by simp
  next
    case (ClearField c)
    then show ?thesis using assms becomes_two [OF clear_field_becomes [OF assms, of c]]
      by (cases "c = PAYLOAD_NOT_SET") (simp_all add: va vb un cc)
  next
    case (ReleaseField c)
    then show ?thesis using assms becomes_two [OF release_becomes [OF assms, of c]]
      by (cases "c = PAYLOAD_NOT_SET") (simp_all add: va vb un cc)
  next
    case (EditLogin f)
    then show ?thesis using becomes_two [OF edit_becomes [OF assms, of "on_login f"]] by (simp add: va vb un)
  next
    case (EditKeepAlive f)
    then show ?thesis using becomes_two [OF edit_becomes [OF assms, of "on_keepalive f"]] by (simp add: va vb un)
  next
    case (EditInsert f)
    then show ?thesis using becomes_two [OF edit_becomes [OF assms, of "on_insert f"]] by (simp add: va vb un)
  next
    case ClearPayload
    then show ?thesis using becomes_two [OF clear_payload_becomes [OF assms]] by (simp add: va vb un)
  next
    case (SetNull c)
    then show ?thesis using becomes_two [OF set_null_becomes [OF assms, of c]] by (simp add: va vb un)
  next
    case ClearAll
    then show ?thesis using becomes_two [OF envelope_clear_becomes [OF assms, of lib]] by (simp add: va vb un)
  next
    case MergeOther
    then show ?thesis using becomes_two [OF envelope_merge_becomes [OF assms, of lib]] by (simp add: va vb un)
  next
    case CopyConstruct
    obtain a1 where "envelope_dtor a st = Some (a1, drop_owned a st)"
      using envelope_dtor_ok [OF own_ok [OF assms]] by blast
    then show ?thesis using becomes_two [OF copy_ctor_becomes [OF assms, of lib]] CopyConstruct by (simp add: va vb un)
  next
    case CopyOther
    then show ?thesis using becomes_two [OF envelope_copy_becomes [OF assms, of lib]] by (simp add: va vb un)
  qed
qed

section \<open>Properties\<close>

lemma env_run_refines:
  "own_inv a b st \<Longrightarrow> \<exists>a' b' st'. env_run lib xs (a, b, st) = Some (a', b', st') \<and> own_inv a' b' st'
    \<and> (env_value a' st', env_value b' st') = fold (val_step lib) xs (env_value a st, env_value b st)"
proof (induction xs arbitrary: a b st)
  case Nil
  then show ?case by simp
next
  case (Cons x xs)
  from env_step_refines [OF Cons.prems, of lib x] obtain a1 b1 st1 where
    "env_step lib x (a, b, st) = Some (a1, b1, st1)" "own_inv a1 b1 st1"
    "(env_value a1 st1, env_value b1 st1) = val_step lib x (env_value a st, env_value b st)"
    by blast
  with Cons.IH [of a1 b1 st1] show ?case by simp
qed

definition empty_store :: "'u store" where
  "empty_store = \<lparr>objs = Map.empty, next_addr = 1\<rparr>"

lemma own_inv_empty: "own_inv (envelope_new lib) (envelope_new lib) empty_store"
  by (simp add: own_defs envelope_new_def empty_store_def)

text \<open>
  C38. Whatever sequence of the generated operations is run on two new envelopes, it deletes and
  reads only messages that exist with the type their case announces, the envelopes never share a
  message, no message is left that neither owns, and what they then contain is what the same
  operations on plain optional values give.
\<close>

theorem envelope_pointers_are_safe:
  "\<exists>a b st. env_run lib xs (envelope_new lib, envelope_new lib, empty_store) = Some (a, b, st)
     \<and> env_ok a st \<and> env_ok b st \<and> owned a \<inter> owned b = {} \<and> dom (objs st) = owned a \<union> owned b
     \<and> (env_value a st, env_value b st)
         = fold (val_step lib) xs ((None, unknown_empty lib), (None, unknown_empty lib))"
proof -
  have v: "env_value (envelope_new lib) (empty_store :: 'a store) = (None, unknown_empty lib)"
    by (simp add: env_value_def has_payload_def envelope_new_def)
  obtain a b st where r: "env_run lib xs (envelope_new lib, envelope_new lib, empty_store) = Some (a, b, st)"
    and inv: "own_inv a b st"
    and val: "(env_value a st, env_value b st)
      = fold (val_step lib) xs ((None, unknown_empty lib), (None, unknown_empty lib))"
    using env_run_refines [OF own_inv_empty [of lib], of lib xs] unfolding v by blast
  have "env_ok a st \<and> env_ok b st \<and> owned a \<inter> owned b = {} \<and> dom (objs st) = owned a \<union> owned b"
    using inv unfolding own_inv_def by blast
  with r val show ?thesis by blast
qed

lemma msg_size:
  assumes "pb_sizes lib" and "msg_byte_size lib m = (n, m')"
  shows "length (msg_serialize lib det m') = n" and "msg_cached_size m' = to_cached_size n" and "msg_case m' = msg_case m"
proof -
  show "length (msg_serialize lib det m') = n"
    using assms login_size(1) [OF assms(1)] insert_size(1) [OF assms(1)] pb_sizesD(6) [OF assms(1)]
    by (cases m) (auto split: prod.splits, metis fst_conv snd_conv)
  show "msg_cached_size m' = to_cached_size n"
    using assms login_size(2) [OF assms(1)] insert_size(2) [OF assms(1)] pb_sizesD(7) [OF assms(1)]
    by (cases m) (auto split: prod.splits, metis fst_conv snd_conv)
  show "msg_case m' = msg_case m" using assms(2) by (cases m) (auto split: prod.splits)
qed

text \<open>
  C39. The size that \<open>ByteSizeLong\<close> computes is the number of bytes the envelope then serialises to,
  length prefix of the payload and unknown fields included.
\<close>

theorem envelope_size_is_length:
  assumes "pb_sizes lib" and "env_ok e st"
  shows "\<exists>n e' st' bs. envelope_byte_size lib e st = Some (n, e', st')
    \<and> envelope_serialize lib det e' st' = Some bs \<and> length bs = n \<and> env_cached e' = to_cached_size n"
proof (cases "has_payload e")
  case False
  then have c: "oneof_case e = PAYLOAD_NOT_SET" by (simp add: has_payload_def)
  then show ?thesis
    using length_unknown_tail [OF assms(1), of 0 "env_unknown e"]
    by (simp add: envelope_byte_size_def envelope_serialize_def Let_def)
next
  case True
  then obtain m where m: "objs st (payload_ptr e) = Some m" "msg_case m = oneof_case e"
    using assms(2) by (auto simp: env_ok_def)
  obtain n m' where bs: "msg_byte_size lib m = (n, m')" by (cases "msg_byte_size lib m")
  note ms = msg_size [OF assms(1) bs]
  let ?st = "st\<lparr>objs := (objs st)(payload_ptr e \<mapsto> m')\<rparr>"
  let ?t = "with_unknown_size lib (1 + message_size lib n) (env_unknown e)"
  have l: "load (oneof_case e) (payload_ptr e) st = Some m" "load (oneof_case e) (payload_ptr e) ?st = Some m'"
    using m ms(3) by (simp_all add: load_def)
  have size: "envelope_byte_size lib e st = Some (?t, e\<lparr>env_cached := to_cached_size ?t\<rparr>, ?st)"
    using True l(1) bs by (cases "oneof_case e") (simp_all add: envelope_byte_size_def has_payload_def Let_def)
  have f: "field_number (oneof_case e) \<le> 15" by (cases "oneof_case e") simp_all
  have "envelope_serialize lib det (e\<lparr>env_cached := to_cached_size ?t\<rparr>) ?st =
      Some (message_header lib (field_number (oneof_case e)) (to_cached_size n) @ msg_serialize lib det m' @ unknown_tail lib (env_unknown e))"
    using True l(2) ms(2) by (cases "oneof_case e") (simp_all add: envelope_serialize_def has_payload_def)
  moreover have "length (message_header lib (field_number (oneof_case e)) (to_cached_size n) @ msg_serialize lib det m'
      @ unknown_tail lib (env_unknown e)) = ?t"
    using pb_sizesD(2) [OF assms(1) f, of n] length_unknown_tail [OF assms(1), of "1 + message_size lib n" "env_unknown e"]
      ms(1) [of det] by simp
  ultimately show ?thesis using size by simp
qed

text \<open>A small runtime: one-byte lengths, no unknown fields, an empty message without bytes.\<close>

definition tiny_pb :: "unit pb" where
  "tiny_pb = \<lparr>unknown_empty = (), have_unknown = (\<lambda>u. False), unknown_merge = (\<lambda>u v. ()),
     unknown_bytes = (\<lambda>u. []), unknown_size = (\<lambda>u. 0),
     write_string = (\<lambda>f s. char_of (f * 8 + 2) # char_of (length s) # s),
     string_size = (\<lambda>s. 1 + length s),
     message_header = (\<lambda>f n. [char_of (f * 8 + 2), char_of (unat n)]), message_size = (\<lambda>n. 1 + n),
     write_entry = (\<lambda>f k v. [char_of (f * 8 + 2), char_of (length k)] @ k @ v),
     entry_size = (\<lambda>k v. 1 + length k + length v),
     map_sorted = (\<lambda>kvs. kvs), map_merge = (\<lambda>xs ys. xs @ ys),
     zf_merge = (\<lambda>x y. y), zf_serialize = (\<lambda>x. []), zf_byte_size = (\<lambda>x. (0, x\<lparr>ka_cached := 0\<rparr>))\<rparr>"

lemma tiny_pb_ok: "pb_sizes tiny_pb" "pb_merges tiny_pb"
  by (simp_all add: pb_sizes_def pb_merges_def tiny_pb_def to_cached_size_def)

definition bob_envelope :: "unit envelope" where
  "bob_envelope = \<lparr>oneof_case = kLogin, payload_ptr = 1, env_cached = 0, env_unknown = ()\<rparr>"

definition bob_store :: "unit store" where
  "bob_store = \<lparr>objs = [1 \<mapsto> LoginMsg \<lparr>lg_nickname = ''bob'', lg_cached = 0, lg_unknown = ()\<rparr>], next_addr = 2\<rparr>"

theorem envelope_size_is_length_witness:
  "\<exists>n e' st' bs. envelope_byte_size tiny_pb bob_envelope bob_store = Some (n, e', st')
    \<and> envelope_serialize tiny_pb False e' st' = Some bs \<and> length bs = n \<and> env_cached e' = to_cached_size n"
  by (rule envelope_size_is_length [OF tiny_pb_ok(1)]) (simp add: env_ok_def bob_envelope_def bob_store_def)

text \<open>The contents of a payload, without what is not part of it.\<close>

primrec msg_contents :: "'u wire_msg \<Rightarrow> (string \<times> 'u) + 'u + (string \<times> string) multiset \<times> string \<times> 'u" where
  "msg_contents (LoginMsg m) = Inl (login_contents m)"
| "msg_contents (KeepAliveMsg m) = Inr (Inl (ka_unknown m))"
| "msg_contents (InsertMsg m) = Inr (Inr (insert_contents m))"

lemma msg_copy_cached: "msg_cached_size (msg_copy lib m) = 0"
  by (cases m) (simp_all add: login_copy_def keepalive_copy_def insert_copy_def)

text \<open>
  C40. After \<open>CopyFrom\<close> an envelope says what its source says, whatever it held before; the copy owns
  its own message, which has no size cached yet, and the source is unchanged.
\<close>

theorem envelope_copy_equals_source:
  assumes "pb_merges lib" and "own_inv a b st"
  shows "\<exists>a' st'. envelope_copy_from lib False b a st = Some (a', st') \<and> own_inv a' b st'
    \<and> map_option msg_contents (fst (env_value a' st')) = map_option msg_contents (fst (env_value b st))
    \<and> (\<forall>m. fst (env_value a' st') = Some m \<longrightarrow> msg_cached_size m = 0)
    \<and> env_unknown a' = env_unknown b \<and> env_value b st' = env_value b st"
proof -
  have mc: "msg_contents (msg_copy lib m) = msg_contents m" for m
    using assms(1) by (cases m) (simp_all add: login_copy_contents keepalive_copy_contents insert_copy_contents)
  have v: "map_option msg_contents (merge_value lib p None) = map_option msg_contents p"
    "merge_value lib p None = Some m \<Longrightarrow> msg_cached_size m = 0" for p m
    by (cases p; simp add: merge_value_def mc) (cases p; auto simp: merge_value_def msg_copy_cached)
  have u: "unknown_merge lib (unknown_empty lib) x = x" for x using assms(1) by (simp add: pb_merges_def)
  from envelope_copy_becomes [OF assms(2), of lib] obtain a' st' where r:
    "envelope_copy_from lib False b a st = Some (a', st')" "own_inv a' b st'" "env_value b st' = env_value b st"
    "env_value a' st' = (merge_value lib (fst (env_value b st)) None, env_unknown b)"
    by (auto simp: becomes_def u)
  then have "env_unknown a' = env_unknown b" by (simp add: env_value_def)
  with r v show ?thesis by auto
qed

lemma bob_inv: "own_inv (envelope_new tiny_pb) bob_envelope bob_store"
  by (simp add: own_defs envelope_new_def bob_envelope_def bob_store_def)

theorem envelope_copy_equals_source_witness:
  "\<exists>a' st'. envelope_copy_from tiny_pb False bob_envelope (envelope_new tiny_pb) bob_store = Some (a', st')
    \<and> map_option msg_contents (fst (env_value a' st')) = Some (Inl (''bob'', ()))"
proof -
  have "map_option msg_contents (fst (env_value bob_envelope bob_store)) = Some (Inl (''bob'', ()))"
    by (simp add: env_value_def has_payload_def bob_envelope_def bob_store_def login_contents_def)
  then show ?thesis
    using envelope_copy_equals_source [OF tiny_pb_ok(2) bob_inv] by auto
qed

end
