(* ===== verification/Rely_Guarantee.thy ===== *)
theory Rely_Guarantee
  imports Mutexes
begin

text \<open>
  Reasoning about one thread among others. What the other threads may do depends on the mutexes
  that the thread holds; what the thread does depends on them too. When the guarantee of every
  thread fits the rely of every other one as long as they hold different mutexes, each thread
  reaches its own postcondition under any schedule.
\<close>

section \<open>One thread under interference\<close>

text \<open>
  \<open>rg R G Q p h s\<close>: from state \<open>s\<close>, holding \<open>h\<close>, with steps of others within \<open>R\<close> before each of its
  own, every step of \<open>p\<close> is within \<open>G\<close>, and \<open>Q\<close> holds at its end and stays true.
\<close>

primrec rg :: "('m set \<Rightarrow> 's \<Rightarrow> 's \<Rightarrow> bool) \<Rightarrow> ('m set \<Rightarrow> 's \<Rightarrow> 's \<Rightarrow> bool) \<Rightarrow> ('s \<Rightarrow> bool) \<Rightarrow> ('m, 's) prog
    \<Rightarrow> 'm set \<Rightarrow> 's \<Rightarrow> bool" where
  "rg R G Q Done = (\<lambda>h s. \<forall>t. R h s t \<longrightarrow> Q t)"
| "rg R G Q (Lock m p) = (\<lambda>h s. \<forall>t. R h s t \<longrightarrow> m \<notin> h \<longrightarrow> rg R G Q p (insert m h) t)"
| "rg R G Q (Unlock m p) = (\<lambda>h s. \<forall>t. R h s t \<longrightarrow> m \<in> h \<longrightarrow> rg R G Q p (h - {m}) t)"
| "rg R G Q (Act f k) = (\<lambda>h s. \<forall>t. R h s t \<longrightarrow> G h t (f t) \<and> rg R G Q (k t) h (f t))"

definition stable :: "('s \<Rightarrow> 's \<Rightarrow> bool) \<Rightarrow> ('s \<Rightarrow> bool) \<Rightarrow> bool" where
  "stable step P \<longleftrightarrow> (\<forall>s t. step s t \<longrightarrow> P s \<longrightarrow> P t)"

lemma stableD: "stable step P \<Longrightarrow> step s t \<Longrightarrow> P s \<Longrightarrow> P t"
  by (simp add: stable_def)

text \<open>One rule for each kind of step, with an assertion that the others keep.\<close>

lemma rg_Done: "stable (R h) Q \<Longrightarrow> Q s \<Longrightarrow> rg R G Q Done h s"
  by (auto simp: rg.simps dest: stableD)

lemma rg_Lock:
  "stable (R h) P \<Longrightarrow> P s \<Longrightarrow> (\<And>t. P t \<Longrightarrow> rg R G Q p (insert m h) t) \<Longrightarrow> rg R G Q (Lock m p) h s"
  by (auto simp: rg.simps dest: stableD)

lemma rg_Unlock:
  "stable (R h) P \<Longrightarrow> P s \<Longrightarrow> (\<And>t. P t \<Longrightarrow> rg R G Q p (h - {m}) t) \<Longrightarrow> rg R G Q (Unlock m p) h s"
  by (auto simp: rg.simps dest: stableD)

lemma rg_Act:
  "stable (R h) P \<Longrightarrow> P s \<Longrightarrow> (\<And>t. P t \<Longrightarrow> G h t (f t)) \<Longrightarrow> (\<And>t. P t \<Longrightarrow> rg R G Q (k t) h (f t)) \<Longrightarrow>
     rg R G Q (Act f k) h s"
  by (auto simp: rg.simps dest: stableD)

lemmas rg_rules = rg_Done rg_Lock rg_Unlock rg_Act

declare rg.simps [simp del]

section \<open>Threads together\<close>

lemma conc_steps_length: "conc_step\<^sup>*\<^sup>* c d \<Longrightarrow> length (progs d) = length (progs c)"
proof (induction rule: rtranclp_induct)
  case (step d e)
  from step.hyps(2) obtain i where "thread_step i d = Some e" by (rule conc_stepE)
  then show ?case using step.IH by (cases rule: thread_stepE) simp_all
qed simp

text \<open>
  The contract: relies are reflexive and transitive, and what one thread guarantees while it holds
  \<open>h\<close> is within what any other may rely on while it holds mutexes apart from these.
\<close>

locale rely_guarantee =
  fixes R G :: "nat \<Rightarrow> 'm set \<Rightarrow> 's \<Rightarrow> 's \<Rightarrow> bool"
  assumes rely_refl: "R i h s s"
    and rely_trans: "R i h s t \<Longrightarrow> R i h t u \<Longrightarrow> R i h s u"
    and compatible: "i \<noteq> j \<Longrightarrow> h \<inter> h' = {} \<Longrightarrow> G i h s t \<Longrightarrow> R j h' s t"
begin

lemma rg_stable: "rg (R i) G' Q p h s \<Longrightarrow> R i h s t \<Longrightarrow> rg (R i) G' Q p h t"
  by (cases p) (auto simp: rg.simps intro: rely_trans)

definition threads_sound :: "(nat \<Rightarrow> 's \<Rightarrow> bool) \<Rightarrow> ('m, 's) threads \<Rightarrow> bool" where
  "threads_sound Q c \<longleftrightarrow>
     (\<forall>i < length (progs c). rg (R i) (G i) (Q i) (progs c ! i) (held c i) (shared c))"

lemma held_disjoint: "i \<noteq> j \<Longrightarrow> held c i \<inter> held c j = {}"
  by (auto simp: held_def)

lemma threads_sound_step:
  assumes "threads_sound Q c" and "conc_step c d"
  shows "threads_sound Q d
    \<and> (shared d = shared c \<or> (\<exists>i < length (progs c). G i (held c i) (shared c) (shared d)))"
proof -
  from assms(2) obtain i where st: "thread_step i c = Some d" by (rule conc_stepE)
  have here: "i < length (progs c) \<Longrightarrow> rg (R i) (G i) (Q i) (progs c ! i) (held c i) (shared c)"
    using assms(1) by (simp add: threads_sound_def)
  show ?thesis
  proof (cases rule: thread_stepE [OF st])
    case (1 m p)
    then have "rg (R i) (G i) (Q i) p (insert m (held c i)) (shared c)"
      using here rely_refl by (simp add: held_def rg.simps)
    with 1 assms(1) show ?thesis by (auto simp: threads_sound_def held_simps nth_list_update)
  next
    case (2 m p)
    then have "rg (R i) (G i) (Q i) p (held c i - {m}) (shared c)"
      using here rely_refl by (simp add: held_def rg.simps)
    with 2 assms(1) show ?thesis by (auto simp: threads_sound_def held_simps nth_list_update)
  next
    case (3 f k)
    then have g: "G i (held c i) (shared c) (f (shared c))"
      and own: "rg (R i) (G i) (Q i) (k (shared c)) (held c i) (f (shared c))"
      using here rely_refl by (simp_all add: rg.simps)
    have "rg (R j) (G j) (Q j) (progs c ! j) (held c j) (f (shared c))" if "j < length (progs c)" "j \<noteq> i" for j
      using rg_stable [OF _ compatible [OF that(2) [symmetric] held_disjoint [OF that(2) [symmetric]] g]]
        assms(1) that(1) by (simp add: threads_sound_def)
    with 3 g own show ?thesis by (auto simp: threads_sound_def held_simps nth_list_update)
  qed
qed

lemma threads_sound_start:
  "(\<And>i. i < length ps \<Longrightarrow> rg (R i) (G i) (Q i) (ps ! i) {} s) \<Longrightarrow> threads_sound Q (start_threads s ps)"
  by (simp add: threads_sound_def) (simp add: held_def start_threads_def)

lemma threads_post:
  assumes "threads_sound Q c" and "conc_step\<^sup>*\<^sup>* c d"
  shows "threads_sound Q d"
  using assms(2,1) by (induction rule: rtranclp_induct) (auto dest: threads_sound_step)

lemma done_post:
  assumes "threads_sound Q c" and "i < length (progs c)" and "progs c ! i = Done"
  shows "Q i (shared c)"
proof -
  have "rg (R i) (G i) (Q i) Done (held c i) (shared c)" using assms by (force simp: threads_sound_def)
  then show ?thesis using rely_refl by (simp add: rg.simps)
qed

text \<open>What every guarantee keeps is an invariant.\<close>

lemma guaranteed_inv:
  assumes "conc_step\<^sup>*\<^sup>* c d" and "threads_sound Q c" and "\<And>i h. i < length (progs c) \<Longrightarrow> stable (G i h) J"
    and "J (shared c)"
  shows "J (shared d)"
  using assms(1)
proof (induction rule: rtranclp_induct)
  case (step d e)
  then show ?case
    using threads_sound_step [OF threads_post [OF assms(2) step.hyps(1)] step.hyps(2)] assms(3) stableD
      conc_steps_length [OF step.hyps(1)] by metis
qed (rule assms(4))

end

end
