(* ===== verification/Nickname_Threads.thy ===== *)
theory Nickname_Threads
  imports Handler_Threads Rely_Guarantee
begin

text \<open>
  Concurrent packets and logins, step by step: threads run the read handlers of different sessions with
  every packet they bring, and any other handler or call of the registry. The duplicate check of the login handler is not atomic with the
  registration, the nickname is set before the index is, and closing the previous owner takes
  several steps; still the mutex of the index and the order of the steps keep nicknames unique.
  The proof is by rely and guarantee: what a thread may do to the index while it owns the mutex,
  and to the sessions.
\<close>

section \<open>Relies and guarantees\<close>

text \<open>
  \<open>nick_change w w'\<close>: sessions stay alive and closed ones closed, and an entry of the index is
  replaced only after the session it leads to has been closed or has died.
\<close>

definition index_change :: "world \<Rightarrow> world \<Rightarrow> bool" where
  "index_change w w' \<longleftrightarrow> (\<forall>n q. nickname_index (manager w) n = Some q \<longrightarrow> q \<in> alive w \<longrightarrow>
     closed (heap w' q) \<or> nickname_index (manager w') n = Some q)"

definition sessions_change :: "(sref \<Rightarrow> bool) \<Rightarrow> world \<Rightarrow> world \<Rightarrow> bool" where
  "sessions_change kept w w' \<longleftrightarrow> alive w' = alive w \<and> (\<forall>q. closed (heap w q) \<longrightarrow> closed (heap w' q))
     \<and> (\<forall>q. kept q \<longrightarrow> nickname (heap w' q) = nickname (heap w q)
          \<and> nickname_registered (heap w' q) = nickname_registered (heap w q))"

definition same_index :: "world \<Rightarrow> world \<Rightarrow> bool" where
  "same_index w w' \<longleftrightarrow> nickname_index (manager w') = nickname_index (manager w)"

text \<open>
  \<open>own r\<close> is the thread that handles the packets of session \<open>r\<close>, on whose strand they run one at a
  time. Others do not log in a session that a thread owns, and leave the index alone while it has
  the mutex.
\<close>

definition nick_rely :: "(sref \<Rightarrow> nat) \<Rightarrow> nat \<Rightarrow> mutex set \<Rightarrow> world \<Rightarrow> world \<Rightarrow> bool" where
  "nick_rely own i h w w' \<longleftrightarrow> sessions_change (\<lambda>q. own q = i) w w'
     \<and> (same_index w w' \<or> NicknameMutex \<notin> h \<and> index_change w w')"

definition nick_guar :: "(sref \<Rightarrow> nat) \<Rightarrow> nat \<Rightarrow> mutex set \<Rightarrow> world \<Rightarrow> world \<Rightarrow> bool" where
  "nick_guar own i h w w' \<longleftrightarrow> sessions_change (\<lambda>q. own q \<noteq> i) w w'
     \<and> (same_index w w' \<or> NicknameMutex \<in> h \<and> index_change w w')"

lemma sessions_change_refl [simp]: "sessions_change kept w w"
  by (simp add: sessions_change_def)

lemma sessions_change_trans:
  "sessions_change kept w w' \<Longrightarrow> sessions_change kept w' w'' \<Longrightarrow> sessions_change kept w w''"
  by (auto simp: sessions_change_def)

lemma same_index_refl [simp]: "same_index w w"
  by (simp add: same_index_def)

lemma same_index_change: "same_index w w' \<Longrightarrow> index_change w w'"
  by (simp add: same_index_def index_change_def)

lemma index_change_trans:
  assumes "index_change w w'" and "index_change w' w''" and "sessions_change P w w'" and "sessions_change Q w' w''"
  shows "index_change w w''"
  using assms unfolding index_change_def sessions_change_def by metis

interpretation nick: rely_guarantee "nick_rely own" "nick_guar own" for own :: "sref \<Rightarrow> nat"
proof unfold_locales
  fix i j h h' s t u
  show "nick_rely own i h s s" by (simp add: nick_rely_def)
  show "nick_rely own i h s u" if "nick_rely own i h s t" "nick_rely own i h t u"
    using that sessions_change_trans same_index_change index_change_trans
    unfolding nick_rely_def by (metis same_index_def)
  show "nick_rely own j h' s t" if "i \<noteq> j" "h \<inter> h' = {}" "nick_guar own i h s t"
    using that by (auto simp: nick_rely_def nick_guar_def sessions_change_def)
qed

text \<open>Holding a bucket makes no difference.\<close>

lemma rely_bucket [simp]:
  "nick_rely own i (insert (SessionMutex k) h) = nick_rely own i h"
  "nick_rely own i (h - {SessionMutex k}) = nick_rely own i h"
  by (auto simp: nick_rely_def fun_eq_iff)

section \<open>Steps that leave nicknames alone\<close>

definition neutral :: "world \<Rightarrow> world \<Rightarrow> bool" where
  "neutral w w' \<longleftrightarrow> sessions_change (\<lambda>q. True) w w' \<and> same_index w w'"

lemma neutral_guar: "neutral w w' \<Longrightarrow> nick_guar own i h w w'"
  by (simp add: neutral_def nick_guar_def sessions_change_def)

lemma neutral_refl [simp]: "neutral w w"
  by (simp add: neutral_def)

lemma neutral_post [simp]: "neutral w (post_write b r m w)"
  by (simp add: neutral_def sessions_change_def same_index_def post_write_closed)
    (simp add: post_write_def)

lemma neutral_upd:
  assumes "\<And>s. nickname (f s) = nickname s" and "\<And>s. nickname_registered (f s) = nickname_registered s"
    and "\<And>s. closed s \<Longrightarrow> closed (f s)"
  shows "neutral w (upd r f w)"
  using assms by (simp add: neutral_def sessions_change_def same_index_def)

lemma neutral_bucket [simp]: "neutral w (bucket_update sid f w)"
  by (simp add: neutral_def sessions_change_def same_index_def bucket_update_def set_bucket_def)

text \<open>An assertion that the others keep and that neutral steps keep.\<close>

definition robust :: "(sref \<Rightarrow> nat) \<Rightarrow> nat \<Rightarrow> mutex set \<Rightarrow> (world \<Rightarrow> bool) \<Rightarrow> bool" where
  "robust own i h P \<longleftrightarrow> stable (nick_rely own i h) P \<and> stable neutral P"

lemma neutral_rely: "neutral w w' \<Longrightarrow> nick_rely own i h w w'"
  by (simp add: neutral_def nick_rely_def sessions_change_def)

lemma robustI: "(\<And>w w'. nick_rely own i h w w' \<Longrightarrow> P w \<Longrightarrow> P w') \<Longrightarrow> robust own i h P"
  unfolding robust_def stable_def using neutral_rely by metis

lemma robust_bucket [simp]:
  "robust own i (insert (SessionMutex k) h) P = robust own i h P"
  "robust own i (h - {SessionMutex k}) P = robust own i h P"
  by (simp_all add: robust_def)

abbreviation nick_rg :: "(sref \<Rightarrow> nat) \<Rightarrow> nat \<Rightarrow> (world \<Rightarrow> bool) \<Rightarrow> (mutex, world) prog \<Rightarrow> mutex set \<Rightarrow> world \<Rightarrow> bool" where
  "nick_rg own i Q \<equiv> rg (nick_rely own i) (nick_guar own i) Q"

lemma rg_neutral:
  assumes "robust own i h P" and "P w" and "\<And>t. P t \<Longrightarrow> neutral t (f t)"
    and "\<And>t u. P t \<Longrightarrow> P u \<Longrightarrow> u = f t \<Longrightarrow> nick_rg own i Q (k t) h u"
  shows "nick_rg own i Q (Act f k) h w"
proof (rule rg_Act [of _ _ P])
  show "stable (nick_rely own i h) P" using assms(1) by (simp add: robust_def)
  show "nick_rg own i Q (k t) h (f t)" if "P t" for t
  proof (rule assms(4) [OF that _ refl])
    show "P (f t)" using assms(1) assms(3) [OF that] that unfolding robust_def stable_def by blast
  qed
qed (use assms neutral_guar in auto)

lemma rg_bucket_lock:
  assumes "robust own i h P" and "P w"
    and "\<And>t. P t \<Longrightarrow> nick_rg own i Q p (insert (SessionMutex k) h) t"
  shows "nick_rg own i Q (Lock (SessionMutex k) p) h w"
  by (rule rg_Lock [of _ _ P]) (use assms in \<open>auto simp: robust_def\<close>)

lemma rg_bucket_unlock:
  assumes "robust own i h P" and "P w"
    and "\<And>t. P t \<Longrightarrow> nick_rg own i Q p (h - {SessionMutex k}) t"
  shows "nick_rg own i Q (Unlock (SessionMutex k) p) h w"
  by (rule rg_Unlock [of _ _ P]) (use assms in \<open>auto simp: robust_def\<close>)

section \<open>Calls that leave nicknames alone\<close>

lemma rg_bucket_ops:
  assumes P: "robust own i h P" "P w" and h: "\<And>k. SessionMutex k \<notin> h"
    and k: "\<And>x t. P t \<Longrightarrow> nick_rg own i Q (k x) h t"
  shows "nick_rg own i Q (remove_session_prog sid k) h w"
    and "nick_rg own i Q (add_entry_prog sid r k) h w"
    and "nick_rg own i Q (find_session_prog sid k) h w"
proof -
  have un: "nick_rg own i Q (Unlock (SessionMutex sh) (k x)) (insert (SessionMutex sh) h) t" if "P t" for sh x t
    by (rule rg_bucket_unlock [of _ _ _ P]) (use P h k that in auto)
  have er: "nick_rg own i Q (modify (bucket_update sid f) (Unlock (SessionMutex sh) (k x))) (insert (SessionMutex sh) h) t"
    if "P t" for sh x t f
    by (rule rg_neutral [of _ _ _ P]) (use P un that in auto)
  have ins: "nick_rg own i Q (modify (bucket_update sid g) (insert_locked sh sid r (k x))) (insert (SessionMutex sh) h) t"
    if "P t" for sh x t g
    by (rule rg_neutral [of _ _ _ P]) (use P er that in \<open>auto simp: insert_locked_def\<close>)
  have "nick_rg own i Q (remove_locked sh sid k) (insert (SessionMutex sh) h) t" if "P t" for sh t
    unfolding remove_locked_def
    by (rule rg_neutral [of _ _ _ P]) (use P un er that in \<open>auto split: option.split\<close>)
  then show "nick_rg own i Q (remove_session_prog sid k) h w"
    unfolding remove_session_prog_def
    by (intro rg_neutral [of _ _ _ P] rg_bucket_lock [of _ _ _ P]) (use P in auto)
  have "nick_rg own i Q (add_locked sh sid r k) (insert (SessionMutex sh) h) t" if "P t" for sh t
    unfolding add_locked_def
    by (rule rg_neutral [of _ _ _ P]) (use P er ins that in \<open>auto simp: insert_locked_def split: option.split\<close>)
  then show "nick_rg own i Q (add_entry_prog sid r k) h w"
    unfolding add_entry_prog_def
    by (intro rg_neutral [of _ _ _ P] rg_bucket_lock [of _ _ _ P]) (use P in auto)
  have "nick_rg own i Q (find_locked sh sid k) (insert (SessionMutex sh) h) t" if "P t" for sh t
    unfolding find_locked_def
    by (rule rg_neutral [of _ _ _ P]) (use P un that in auto)
  then show "nick_rg own i Q (find_session_prog sid k) h w"
    unfolding find_session_prog_def
    by (intro rg_neutral [of _ _ _ P] rg_bucket_lock [of _ _ _ P]) (use P in auto)
qed

lemma robust_closed: "robust own i h (\<lambda>w. closed (heap w q))"
  by (auto simp: robust_def stable_def nick_rely_def neutral_def sessions_change_def)

lemma robust_conj: "robust own i h P \<Longrightarrow> robust own i h P' \<Longrightarrow> robust own i h (\<lambda>w. P w \<and> P' w)"
  by (auto simp: robust_def stable_def)

text \<open>Afterwards the session is closed, whoever closed it.\<close>

lemma rg_close:
  assumes P: "robust own i h P" "P w" and h: "\<And>k. SessionMutex k \<notin> h"
    and p: "\<And>t. P t \<Longrightarrow> closed (heap t r) \<Longrightarrow> nick_rg own i Q p h t"
  shows "nick_rg own i Q (close_session_prog r p) h w"
proof -
  let ?C = "\<lambda>t. P t \<and> closed (heap t r)"
  have C: "robust own i h ?C" using P(1) by (intro robust_conj robust_closed)
  have rm: "nick_rg own i Q (remove_session_prog sid (\<lambda>_. p)) h t" if "?C t" for sid t
    by (rule rg_bucket_ops(1) [OF C that h]) (use p in auto)
  have rd: "nick_rg own i Q (read_state (\<lambda>w. if handler_alive w
        then remove_session_prog (session_id (heap w r)) (\<lambda>_. p) else p)) h t" if "?C t" for t
    by (rule rg_neutral [OF C that]) (use p rm in auto)
  have so: "nick_rg own i Q (modify (upd r (\<lambda>s. s\<lparr>sock := (sock s)\<lparr>sk_open := False\<rparr>\<rparr>)) (read_state (\<lambda>w. if handler_alive w
        then remove_session_prog (session_id (heap w r)) (\<lambda>_. p) else p))) h t" if "?C t" for t
    by (rule rg_neutral [OF C that]) (use rd in \<open>auto intro: neutral_upd\<close>)
  have st: "nick_rg own i Q (modify (upd r (\<lambda>s. s\<lparr>sstate := Closed\<rparr>)) (modify (upd r (\<lambda>s. s\<lparr>sock := (sock s)\<lparr>sk_open := False\<rparr>\<rparr>))
      (read_state (\<lambda>w. if handler_alive w then remove_session_prog (session_id (heap w r)) (\<lambda>_. p) else p)))) h t"
    if "?C t" for t
    by (rule rg_neutral [OF C that]) (use so in \<open>auto intro: neutral_upd\<close>)
  show ?thesis
    unfolding close_session_prog_def
    by (rule rg_neutral [OF P]) (use p st in \<open>auto intro: neutral_upd\<close>)
qed

section \<open>Registering a nickname\<close>

text \<open>
  \<open>own_ok own i X\<close>: the index leads to every open logged-in session of thread \<open>i\<close>, those of \<open>X\<close>
  apart, which are in the middle of a login.
\<close>

definition own_ok :: "(sref \<Rightarrow> nat) \<Rightarrow> nat \<Rightarrow> sref set \<Rightarrow> world \<Rightarrow> bool" where
  "own_ok own i X w \<longleftrightarrow> (\<forall>q \<in> alive w. own q = i \<longrightarrow> q \<notin> X \<longrightarrow> nickname_registered (heap w q) \<longrightarrow>
     \<not> closed (heap w q) \<longrightarrow> nickname_index (manager w) (nickname (heap w q)) = Some q)"

definition login_pending :: "(sref \<Rightarrow> nat) \<Rightarrow> nat \<Rightarrow> sref set \<Rightarrow> string \<Rightarrow> sref \<Rightarrow> world \<Rightarrow> bool" where
  "login_pending own i X n r w \<longleftrightarrow> own_ok own i X w \<and> X \<subseteq> {r}
     \<and> (r \<in> X \<longrightarrow> own r = i \<and> nickname (heap w r) = n)"

text \<open>The session that the entry leads to is out of the way.\<close>

definition superseded :: "string \<Rightarrow> sref \<Rightarrow> world \<Rightarrow> bool" where
  "superseded n r w \<longleftrightarrow> (\<forall>q. nickname_index (manager w) n = Some q \<longrightarrow> q \<in> alive w \<longrightarrow> closed (heap w q) \<or> q = r)"

lemma robust_own_ok: "robust own i h (own_ok own i X)"
proof (rule robustI)
  fix w w'
  assume rely: "nick_rely own i h w w'" and ok: "own_ok own i X w"
  have kept: "alive w' = alive w" "\<And>q. closed (heap w q) \<Longrightarrow> closed (heap w' q)"
    "\<And>q. own q = i \<Longrightarrow> nickname (heap w' q) = nickname (heap w q)
       \<and> nickname_registered (heap w' q) = nickname_registered (heap w q)"
    and idx: "index_change w w'"
    using rely by (auto simp: nick_rely_def sessions_change_def same_index_change)
  show "own_ok own i X w'"
    unfolding own_ok_def
  proof (intro ballI impI)
    fix q
    assume q: "q \<in> alive w'" "own q = i" "q \<notin> X" "nickname_registered (heap w' q)" "\<not> closed (heap w' q)"
    then have "nickname_index (manager w) (nickname (heap w q)) = Some q"
      using ok kept by (auto simp: own_ok_def)
    with q kept idx show "nickname_index (manager w') (nickname (heap w' q)) = Some q"
      by (auto simp: index_change_def)
  qed
qed

lemma robust_pending: "robust own i h (login_pending own i X n r)"
  using robust_own_ok [of own i h X]
  by (auto simp: robust_def stable_def login_pending_def nick_rely_def neutral_def sessions_change_def)

lemma robust_entry:
  "NicknameMutex \<in> h \<Longrightarrow> robust own i h (\<lambda>w. nickname_index (manager w) n = x \<and> alive w = a)"
  by (simp add: robust_def stable_def nick_rely_def neutral_def same_index_def sessions_change_def)

lemma robust_superseded: "NicknameMutex \<in> h \<Longrightarrow> robust own i h (superseded n r)"
  by (rule robustI) (auto simp: nick_rely_def same_index_def sessions_change_def superseded_def)

lemma index_nickname_simps [simp]:
  "heap (index_nickname n r w) = heap w" "alive (index_nickname n r w) = alive w"
  "nickname_index (manager (index_nickname n r w)) = (nickname_index (manager w))(n \<mapsto> r)"
  by (simp_all add: index_nickname_def)

lemma index_nickname_guar:
  "NicknameMutex \<in> h \<Longrightarrow> superseded n r w \<Longrightarrow> nick_guar own i h w (index_nickname n r w)"
  by (auto simp: nick_guar_def sessions_change_def superseded_def index_change_def)

lemma index_nickname_own_ok:
  assumes "login_pending own i X n r w" and "superseded n r w"
  shows "own_ok own i {} (index_nickname n r w)"
  using assms unfolding login_pending_def superseded_def own_ok_def by (auto split: if_splits)

lemma rg_index_lock:
  assumes "robust own i {} P" and "P w" and "\<And>t. P t \<Longrightarrow> nick_rg own i Q p {NicknameMutex} t"
  shows "nick_rg own i Q (Lock NicknameMutex p) {} w"
  by (rule rg_Lock [of _ _ P]) (use assms in \<open>auto simp: robust_def\<close>)

lemma rg_index_unlock:
  assumes "robust own i {NicknameMutex} P" and "P w" and "\<And>t. P t \<Longrightarrow> nick_rg own i Q p {} t"
  shows "nick_rg own i Q (Unlock NicknameMutex p) {NicknameMutex} w"
  by (rule rg_Unlock [of _ _ P]) (use assms in \<open>auto simp: robust_def\<close>)

lemma rg_register:
  assumes P: "login_pending own i X n r w"
    and p: "\<And>t. own_ok own i {} t \<Longrightarrow> nick_rg own i Q p {} t"
  shows "nick_rg own i Q (register_nickname_prog n r p) {} w"
proof -
  let ?h = "{NicknameMutex}" and ?P = "login_pending own i X n r"
  let ?finish = "modify (index_nickname n r) (Unlock NicknameMutex p)"
  have un: "nick_rg own i Q (Unlock NicknameMutex p) ?h t" if "own_ok own i {} t" for t
    by (rule rg_index_unlock [OF robust_own_ok that]) (rule p)
  have fin: "nick_rg own i Q ?finish ?h t" if t: "?P t \<and> superseded n r t" for t
  proof (rule rg_Act [of _ _ "\<lambda>t. ?P t \<and> superseded n r t"])
    show "stable (nick_rely own i ?h) (\<lambda>t. ?P t \<and> superseded n r t)"
      using robust_conj [OF robust_pending robust_superseded [of ?h], of own i X n r n r] by (simp add: robust_def)
  qed (use t index_nickname_guar index_nickname_own_ok un in auto)
  have cl: "nick_rg own i Q (close_session_prog prev ?finish) ?h t"
    if t: "?P t \<and> nickname_index (manager t) n = Some prev \<and> alive t = a" for prev a t
    by (rule rg_close [OF robust_conj [OF robust_pending robust_entry] t])
      (use fin in \<open>auto simp: superseded_def\<close>)
  have wr: "nick_rg own i Q (modify (post_write False prev kicked_notice) (close_session_prog prev ?finish)) ?h t"
    if t: "?P t \<and> nickname_index (manager t) n = Some prev \<and> alive t = a" for prev a t
    by (rule rg_neutral [OF robust_conj [OF robust_pending robust_entry] t]) (use cl in auto)
  show ?thesis
    unfolding register_nickname_prog_def Let_def
  proof (rule rg_index_lock [OF robust_pending P], rule rg_neutral [OF robust_pending], assumption)
    fix t u :: world
    assume t: "?P t" "?P u" "u = t"
    show "nick_rg own i Q (case nickname_index (manager t) n of None \<Rightarrow> ?finish
        | Some q \<Rightarrow> (case weak_lock (alive t) q of None \<Rightarrow> ?finish
            | Some prev \<Rightarrow> if prev \<noteq> r
                then modify (post_write False prev kicked_notice) (close_session_prog prev ?finish) else ?finish)) ?h u"
      using t fin wr by (auto simp: superseded_def weak_lock_def split: option.split)
  qed simp
qed

section \<open>All calls\<close>

lemma upd_own_guar:
  assumes "own r = i" and "\<And>s. closed s \<Longrightarrow> closed (f s)"
  shows "nick_guar own i h w (upd r f w)"
  using assms by (simp add: nick_guar_def sessions_change_def same_index_def)

lemma upd_pending:
  assumes "login_pending own i {r} n r w" and "\<And>s. nickname (f s) = nickname s"
  shows "login_pending own i {r} n r (upd r f w)"
  using assms by (simp add: login_pending_def own_ok_def)

lemma rg_own_upd:
  assumes "login_pending own i {r} n r w" and "\<And>s. nickname (f s) = nickname s" and "\<And>s. closed s \<Longrightarrow> closed (f s)"
    and "\<And>t. login_pending own i {r} n r t \<Longrightarrow> nick_rg own i Q p {} t"
  shows "nick_rg own i Q (modify (upd r f) p) {} w"
proof (rule rg_Act [of _ _ "login_pending own i {r} n r"])
  show "stable (nick_rely own i {}) (login_pending own i {r} n r)"
    using robust_pending by (simp add: robust_def)
  show "nick_guar own i {} t (upd r f t)" if "login_pending own i {r} n r t" for t
    using that assms(3) by (intro upd_own_guar) (simp_all add: login_pending_def)
qed (use assms upd_pending in auto)

lemma rg_find_nickname:
  assumes "own_ok own i {} w" and "\<And>x t. own_ok own i {} t \<Longrightarrow> nick_rg own i Q (k x) {} t"
  shows "nick_rg own i Q (find_session_by_nickname_prog n k) {} w"
  unfolding find_session_by_nickname_prog_def
  by (intro rg_index_lock [OF robust_own_ok assms(1)] rg_neutral [OF robust_own_ok])
    (use assms(2) in \<open>auto intro: rg_index_unlock [OF robust_own_ok]\<close>)

lemma rg_login:
  assumes w: "own_ok own i {} w" and r: "own r = i"
    and p: "\<And>t. own_ok own i {} t \<Longrightarrow> nick_rg own i Q p {} t"
  shows "nick_rg own i Q (login_prog n r p) {} w"
proof -
  have reply: "nick_rg own i Q (modify (post_write True r m) p) {} t" if "own_ok own i {} t" for m t
    by (rule rg_neutral [OF robust_own_ok that]) (use p in auto)
  have reg: "nick_rg own i Q (register_nickname_prog n r (modify (post_write True r login_ok) p)) {} t"
    if "login_pending own i {r} n r t" for t
    by (rule rg_register [OF that]) (rule reply)
  have commit: "nick_rg own i Q (login_commit_prog n r (modify (post_write True r login_ok) p)) {} t"
    if t: "own_ok own i {} t" for t
    unfolding login_commit_prog_def
  proof (rule rg_Act [of _ _ "own_ok own i {}"])
    show "stable (nick_rely own i {}) (own_ok own i {})" using robust_own_ok by (simp add: robust_def)
    fix u
    assume u: "own_ok own i {} u"
    then have "login_pending own i {r} n r (upd r (\<lambda>s. s\<lparr>nickname := n\<rparr>) u)"
      using r by (auto simp: login_pending_def own_ok_def)
    then show "nick_rg own i Q (modify (upd r (\<lambda>s. s\<lparr>nickname_registered := True\<rparr>)) (modify (upd r (\<lambda>s. s\<lparr>sstate := Ready\<rparr>))
        (modify (upd r (\<lambda>s. s\<lparr>login_timer := None\<rparr>)) (register_nickname_prog n r (modify (post_write True r login_ok) p))))) {}
        (upd r (\<lambda>s. s\<lparr>nickname := n\<rparr>) u)"
      by (auto intro!: rg_own_upd reg)
  qed (use t r upd_own_guar in auto)
  then show ?thesis
    unfolding login_prog_def by (intro rg_find_nickname [OF w]) (auto intro: reply commit)
qed

lemma rg_visit_shards:
  assumes "own_ok own i {} w" and "\<And>a t. own_ok own i {} t \<Longrightarrow> nick_rg own i Q (k a) {} t"
  shows "nick_rg own i Q (visit_shards shs f a k) {} w"
  using assms(1)
proof (induction shs arbitrary: a w)
  case Nil
  then show ?case using assms(2) by simp
next
  case (Cons sh shs)
  have un: "nick_rg own i Q (Unlock (SessionMutex sh) (visit_shards shs f a k)) {SessionMutex sh} t"
    if "own_ok own i {} t" for a t
    by (rule rg_bucket_unlock [OF robust_own_ok that]) (use Cons.IH in auto)
  then show ?case
    unfolding visit_shards.simps
    by (intro rg_bucket_lock [OF robust_own_ok Cons.prems] rg_neutral [OF robust_own_ok]) auto
qed

lemma rg_visit_all:
  assumes "own_ok own i {} w" and "\<And>a t. own_ok own i {} t \<Longrightarrow> nick_rg own i Q (k a) {} t"
  shows "nick_rg own i Q (visit_all_shards f a k) {} w"
  unfolding visit_all_shards_def
  by (rule rg_neutral [OF robust_own_ok assms(1)]) (use assms(2) in \<open>auto intro: rg_visit_shards\<close>)

lemma rg_close_all:
  assumes "own_ok own i {} w" and "\<And>t. own_ok own i {} t \<Longrightarrow> nick_rg own i Q p {} t"
  shows "nick_rg own i Q (foldr close_session_prog rs p) {} w"
  using assms(1) by (induction rs arbitrary: w) (use assms(2) in \<open>auto intro: rg_close [OF robust_own_ok]\<close>)

lemma rg_collect_unauth:
  assumes "own_ok own i {} w" and "\<And>a t. own_ok own i {} t \<Longrightarrow> nick_rg own i Q (k a) {} t"
  shows "nick_rg own i Q (collect_unauth rs acc k) {} w"
  using assms(1)
proof (induction rs arbitrary: acc w)
  case Nil
  then show ?case using assms(2) by simp
next
  case (Cons r rs)
  show ?case
    unfolding collect_unauth.simps by (rule rg_neutral [OF robust_own_ok Cons.prems]) (use Cons.IH in auto)
qed

lemma drop_expired_guar: "NicknameMutex \<in> h \<Longrightarrow> nick_guar own i h w (drop_expired w)"
  by (auto simp: nick_guar_def sessions_change_def index_change_def drop_expired_def weak_lock_def)

lemma drop_expired_own_ok: "own_ok own i X w \<Longrightarrow> own_ok own i X (drop_expired w)"
  by (simp add: own_ok_def drop_expired_def weak_lock_def)

lemma rg_cleanup_nicknames:
  assumes "own_ok own i {} w" and "\<And>t. own_ok own i {} t \<Longrightarrow> nick_rg own i Q p {} t"
  shows "nick_rg own i Q (cleanup_expired_nicknames_prog p) {} w"
  unfolding cleanup_expired_nicknames_prog_def
proof (intro rg_index_lock [OF robust_own_ok assms(1)] rg_Act [of _ _ "own_ok own i {}"])
  show "stable (nick_rely own i {NicknameMutex}) (own_ok own i {})" using robust_own_ok by (simp add: robust_def)
  show "nick_rg own i Q (Unlock NicknameMutex p) {NicknameMutex} (drop_expired t)" if "own_ok own i {} t" for t
    by (rule rg_index_unlock [OF robust_own_ok drop_expired_own_ok [OF that]]) (rule assms(2))
qed (auto simp: drop_expired_guar)

text \<open>The session that a call logs in, if any.\<close>

definition logs_in :: "manager_call \<Rightarrow> sref option" where
  "logs_in c = (case c of Login n r \<Rightarrow> Some r | _ \<Rightarrow> None)"

lemma rg_call:
  assumes w: "own_ok own i {} w" and c: "returning c" "\<And>r. logs_in c = Some r \<Longrightarrow> own r = i"
    and p: "\<And>t. own_ok own i {} t \<Longrightarrow> nick_rg own i Q p {} t"
  shows "nick_rg own i Q (call_prog_of c p) {} w"
proof (cases c)
  case (AddSession r)
  have cl: "nick_rg own i Q (case x of None \<Rightarrow> p
      | Some q \<Rightarrow> read_state (\<lambda>w. if \<not> closed (heap w q) then close_session_prog q p else p)) {} t"
    if "own_ok own i {} t" for x t
    using that p by (cases x) (auto intro!: rg_neutral [OF robust_own_ok] rg_close [OF robust_own_ok])
  show ?thesis
    unfolding AddSession call_prog_of.simps add_session_prog_def
    by (rule rg_neutral [OF robust_own_ok w]) (use cl in \<open>auto intro: rg_bucket_ops(2) [OF robust_own_ok]\<close>)
next
  case (RegisterNickname n r)
  then show ?thesis using w p by (auto intro: rg_register [where X = "{}"] simp: login_pending_def)
next
  case (CleanupUnauth srt n)
  have "nick_rg own i Q (if n < length us then read_state (\<lambda>w. foldr close_session_prog
      (take (length us - n) (srt (\<lambda>r. last_alive_time (heap w r)) us)) p) else p) {} t"
    if "own_ok own i {} t" for us t
    using that p by (auto intro!: rg_neutral [OF robust_own_ok] rg_close_all)
  then show ?thesis
    unfolding CleanupUnauth call_prog_of.simps cleanup_unauth_sessions_prog_def
    by (intro rg_visit_all [OF w] rg_collect_unauth)
next
  case (Login n r)
  then show ?thesis using w p c(2) by (auto intro: rg_login simp: logs_in_def)
qed (use w p c in \<open>auto intro: rg_bucket_ops [OF robust_own_ok] rg_visit_all rg_close_all rg_find_nickname
    rg_cleanup_nicknames rg_close [OF robust_own_ok]
    simp: session_count_prog_def get_total_session_count_prog_def cleanup_inactive_sessions_prog_def\<close>)

section \<open>Handlers\<close>

lemma rg_quiet:
  assumes "own_ok own i {} w" and "\<And>t. neutral t (f t)" and "\<And>x t. own_ok own i {} t \<Longrightarrow> nick_rg own i Q (k x) {} t"
  shows "nick_rg own i Q (Act f k) {} w"
  by (rule rg_neutral [OF robust_own_ok assms(1)]) (use assms in auto)

lemma neutral_handler_steps:
  "neutral w (w\<lparr>sql_log := x\<rparr>)" "neutral w (set_buf r mb w)" "neutral w (upd r run_next_task w)"
  "neutral w (upd r read_done w)" "neutral w (upd r (append_data d) w)" "neutral w (upd r (\<lambda>s. s\<lparr>message := m\<rparr>) w)"
  "neutral w (upd r (\<lambda>s. s\<lparr>read_pending := True\<rparr>) w)" "neutral w (upd r (\<lambda>s. fst (write_callback err s)) w)"
  "neutral w (post_task_now inside r w)" "neutral w (strand_job_now r w)"
proof -
  have task: "nickname (run_next_task s) = nickname s" "nickname_registered (run_next_task s) = nickname_registered s"
    "closed (run_next_task s) = closed s" for s
    by (simp_all add: run_next_task_def start_read_def split: list.split task.split)
  have push: "nickname (push_task t s) = nickname s" "nickname_registered (push_task t s) = nickname_registered s"
    "closed (push_task t s) = closed s" for t s
    by (simp_all add: push_task_def task Let_def)
  show "neutral w (w\<lparr>sql_log := x\<rparr>)" by (simp add: neutral_def sessions_change_def same_index_def)
  show "neutral w (set_buf r mb w)" "neutral w (upd r run_next_task w)" "neutral w (upd r read_done w)"
    "neutral w (upd r (append_data d) w)" "neutral w (upd r (\<lambda>s. s\<lparr>message := m\<rparr>) w)"
    "neutral w (upd r (\<lambda>s. s\<lparr>read_pending := True\<rparr>) w)"
    by (auto intro!: neutral_upd simp: task read_done_def release_read_def append_data_def)
  show "neutral w (upd r (\<lambda>s. fst (write_callback err s)) w)"
    by (rule neutral_upd) (auto simp: write_ops split: list.split)
  show "neutral w (post_task_now inside r w)"
    by (auto simp: post_task_now_def push intro!: neutral_upd)
  show "neutral w (strand_job_now r w)"
    by (auto simp: strand_job_now_def Let_def upd_upd push post_write_job_closed intro!: neutral_upd
        split: list.split strand_job.split)
qed

lemma rg_close_own:
  "own_ok own i {} w \<Longrightarrow> (\<And>t. own_ok own i {} t \<Longrightarrow> nick_rg own i Q p {} t) \<Longrightarrow> nick_rg own i Q (close_session_prog r p) {} w"
  by (rule rg_close [OF robust_own_ok]) auto

lemma rg_dispatch:
  assumes w: "own_ok own i {} w" and r: "own r = i"
    and k: "\<And>x t. own_ok own i {} t \<Longrightarrow> nick_rg own i Q (k x) {} t"
  shows "nick_rg own i Q (dispatch_prog jl sec r packet k) {} w"
proof -
  have ty: "nick_rg own i Q (dispatch_type_prog jl r msg k) {} t" if "own_ok own i {} t" for msg t
    using that k r
    by (auto simp: dispatch_type_prog_def handler_progs_def login_handler_prog_def insert_handler_prog_def
        neutral_handler_steps intro!: rg_quiet rg_login split: option.split)
  show ?thesis
    unfolding dispatch_prog_def Let_def
    by (rule rg_quiet [OF w]) (use k ty in \<open>auto intro: rg_close_own split: option.split\<close>)
qed

lemma rg_handle_packet:
  assumes "own_ok own i {} w" and "own r = i" and p: "\<And>t. own_ok own i {} t \<Longrightarrow> nick_rg own i Q p {} t"
  shows "nick_rg own i Q (handle_packet_prog jl sec r packet p) {} w"
  unfolding handle_packet_prog_def report_failure_prog_def
  by (rule rg_quiet [OF assms(1)]) (auto intro!: rg_dispatch rg_quiet simp: neutral_handler_steps assms(2) p)

lemma rg_read_loop:
  assumes "own_ok own i {} w" and "own r = i" and "\<And>t. own_ok own i {} t \<Longrightarrow> nick_rg own i Q p {} t"
  shows "nick_rg own i Q (read_loop_prog jl sec r mb p) {} w"
  using assms
proof (induction jl sec r mb p arbitrary: w rule: read_loop_prog.induct)
  case (1 jl sec r mb p)
  then show ?case
    by (subst read_loop_prog.simps)
      (auto intro!: rg_quiet rg_handle_packet simp: neutral_handler_steps split: prod.split option.split)
qed

lemma rg_do_read:
  assumes "own_ok own i {} w" and p: "\<And>t. own_ok own i {} t \<Longrightarrow> nick_rg own i Q p {} t"
  shows "nick_rg own i Q (do_read_prog inside r p) {} w"
  unfolding do_read_prog_def post_task_prog_def
  by (rule rg_quiet [OF assms(1)]) (auto intro!: rg_quiet rg_close_own simp: neutral_handler_steps p)

text \<open>The session whose packets a call handles.\<close>

definition handles :: "server_call \<Rightarrow> sref option" where
  "handles c = (case c of OnRead r res \<Rightarrow> Some r | Registry c \<Rightarrow> logs_in c | _ \<Rightarrow> None)"

lemma rg_server_call:
  assumes w: "own_ok own i {} w" and c: "server_returning c" "\<And>r. handles c = Some r \<Longrightarrow> own r = i"
    and p: "\<And>t. own_ok own i {} t \<Longrightarrow> nick_rg own i Q p {} t"
  shows "nick_rg own i Q (server_prog jl sec c p) {} w"
proof (cases c)
  case (OnRead r res)
  with c(2) have "own r = i" by (simp add: handles_def)
  then show ?thesis
    unfolding OnRead server_prog.simps read_callback_prog_def Let_def
    by (intro rg_quiet [OF w])
      (use p in \<open>auto intro!: rg_quiet rg_read_loop rg_close_own rg_do_read simp: neutral_handler_steps
        split: read_result.split\<close>)
next
  case (Registry d)
  then show ?thesis using rg_call [OF w _ _ p, of d] c by (auto simp: handles_def)
qed (use w p in \<open>auto intro!: rg_quiet rg_close_own rg_do_read simp: neutral_handler_steps on_write_prog_def
    strand_job_prog_def split: list.split strand_job.split\<close>)

lemma rg_script:
  assumes "list_all server_returning cs" and "\<And>c r. c \<in> set cs \<Longrightarrow> handles c = Some r \<Longrightarrow> own r = i" and "own_ok own i {} w"
  shows "nick_rg own i (own_ok own i {}) (script (server_prog jl sec) cs) {} w"
  using assms
proof (induction cs arbitrary: w)
  case Nil
  then show ?case using robust_own_ok [of own i "{}" "{}"] by (simp add: rg_Done robust_def)
next
  case (Cons c cs)
  then show ?case by (auto intro!: rg_server_call)
qed

section \<open>Properties\<close>

definition own_scripts :: "(sref \<Rightarrow> nat) \<Rightarrow> server_call list list \<Rightarrow> bool" where
  "own_scripts own scripts \<longleftrightarrow> (\<forall>i < length scripts. list_all server_returning (scripts ! i)
     \<and> (\<forall>c \<in> set (scripts ! i). \<forall>r. handles c = Some r \<longrightarrow> own r = i))"

lemma own_ok_other:
  assumes "i \<noteq> j"
  shows "stable (nick_guar own i h) (own_ok own j {})"
proof -
  have "nick_rely own j {} w w'" if "nick_guar own i h w w'" for w w'
    using nick.compatible [OF assms _ that, of "{}"] by simp
  then show ?thesis using robust_own_ok [of own j "{}" "{}"] unfolding robust_def stable_def by blast
qed

lemma nick_inv_own: "nick_inv w \<longleftrightarrow> (\<forall>i. own_ok own i {} w)"
  by (auto simp: nick_inv_def own_ok_def)

lemma nick_inv_end:
  assumes "nick_inv w" and "own_scripts own scripts"
    and "conc_step\<^sup>*\<^sup>* (start_threads w (map (script (server_prog jl sec)) scripts)) c" and "all_done c"
  shows "nick_inv (shared c)"
proof -
  let ?c0 = "start_threads w (map (script (server_prog jl sec)) scripts)"
  have ok: "own_ok own i {} w" for i using assms(1) nick_inv_own by blast
  have s0: "nick.threads_sound own (\<lambda>i. own_ok own i {}) ?c0"
    using assms(2) ok by (intro nick.threads_sound_start) (auto simp: own_scripts_def intro!: rg_script)
  have s: "nick.threads_sound own (\<lambda>i. own_ok own i {}) c" by (rule nick.threads_post [OF s0 assms(3)])
  have len: "length (progs c) = length scripts" "length (progs ?c0) = length scripts"
    using conc_steps_length [OF assms(3)] by (simp_all add: start_threads_def)
  have "own_ok own i {} (shared c)" for i
  proof (cases "i < length scripts")
    case True
    then show ?thesis using nick.done_post [OF s, of i] assms(4) len by (simp add: all_done_def)
  next
    case False
    show ?thesis
      by (rule nick.guaranteed_inv [OF assms(3) s0]) (use False len ok in \<open>auto simp: start_threads_def intro!: own_ok_other\<close>)
  qed
  then show ?thesis using nick_inv_own by blast
qed

text \<open>
  C21. However the threads of the server interleave, at the level of single locks and single changes
  of a session, when the read handlers of different sessions, with every packet they bring, run
  together with any other handlers and calls of the registry, all of them end with no two live open
  sessions logged in under one nickname, and the index leads to the owner. The packets of one session
  are handled by one thread at a time.
\<close>

theorem nicknames_unique_among_threads:
  assumes "nick_inv w" and "own_scripts own scripts"
    and "conc_step\<^sup>*\<^sup>* (start_threads w (map (script (server_prog jl sec)) scripts)) c" and "all_done c"
    and "a \<in> alive (shared c)" and "nickname_registered (heap (shared c) a)" and "\<not> closed (heap (shared c) a)"
    and "b \<in> alive (shared c)" and "nickname_registered (heap (shared c) b)" and "\<not> closed (heap (shared c) b)"
    and "nickname (heap (shared c) a) = nickname (heap (shared c) b)"
  shows "a = b \<and> find_session_by_nickname (alive (shared c)) (nickname (heap (shared c) a)) (manager (shared c)) = Some a"
proof -
  have idx: "nickname_index (manager (shared c)) (nickname (heap (shared c) x)) = Some x"
    if "x \<in> alive (shared c)" "nickname_registered (heap (shared c) x)" "\<not> closed (heap (shared c) x)" for x
    using nick_inv_end [OF assms(1-4)] that unfolding nick_inv_def by blast
  have "Some a = Some b"
    unfolding idx [OF assms(5-7), symmetric] idx [OF assms(8-10), symmetric] assms(11) by (rule refl)
  then show ?thesis
    using idx [OF assms(5-7)] assms(5) by (simp add: find_session_by_nickname_def weak_lock_def)
qed

text \<open>Two logins under one name that both pass the duplicate check before either registers.\<close>

definition race_scripts :: "server_call list list" where
  "race_scripts = [[Registry (Login ''bob'' 1)], [Registry (Login ''bob'' 2)]]"

definition race_start :: "(mutex, world) threads" where
  "race_start = start_threads (demo_world\<lparr>alive := {1, 2}\<rparr>) (map (script (server_prog tiny ''s3'')) race_scripts)"

definition after_checks :: "(mutex, world) threads" where
  "after_checks = \<lparr>shared = demo_world\<lparr>alive := {1, 2}\<rparr>, owner = Map.empty,
     progs = map (\<lambda>r. login_commit_prog ''bob'' r (modify (post_write True r login_ok) Done)) [1, 2]\<rparr>"

lemma race_checks: "run_schedule [0, 0, 0, 1, 1, 1] race_start = Some after_checks"
  by (simp add: race_start_def race_scripts_def start_threads_def thread_step_def login_prog_def
      find_session_by_nickname_prog_def find_session_by_nickname_def session_manager_ctor_def after_checks_def)

definition race_end :: world where
  "race_end = fold (\<lambda>r w. post_write True r login_ok (login_commit ''bob'' r w)) [1, 2] (demo_world\<lparr>alive := {1, 2}\<rparr>)"

lemma race_run: "conc_step\<^sup>*\<^sup>* race_start \<lparr>shared = race_end, owner = Map.empty, progs = [Done, Done]\<rparr>"
proof -
  let ?w1 = "post_write True 1 login_ok (login_commit ''bob'' 1 (demo_world\<lparr>alive := {1, 2}\<rparr>))"
  let ?p = "\<lambda>r. login_commit_prog ''bob'' r (modify (post_write True r login_ok) Done)"
  let ?mid = "\<lparr>shared = ?w1, owner = Map.empty, progs = [Done, ?p 2]\<rparr>"
  have o: "ordered mutex_rank (?p r) {}" for r by (rule login_commit_ordered) simp
  have "conc_step\<^sup>*\<^sup>* after_checks ?mid"
    using run_alone_steps [of "?p 1" "{}" _ ?w1 mutex_rank 0 after_checks] o
    by (simp add: run_login_commit after_checks_def)
  moreover have "conc_step\<^sup>*\<^sup>* ?mid \<lparr>shared = race_end, owner = Map.empty, progs = [Done, Done]\<rparr>"
    using run_alone_steps [of "?p 2" "{}" _ race_end mutex_rank 1 ?mid] o
    by (simp add: run_login_commit race_end_def)
  ultimately show ?thesis using run_schedule_steps [OF race_checks] by (meson rtranclp_trans)
qed

lemma post_write_open:
  assumes "write_queue (heap w r) = []" and "1 \<le> max_write_queue_size (app_config w)"
  shows "closed (heap (post_write b r m w) r) = closed (heap w r)"
  using assms by (simp add: post_write_def write_ops queue_job_def split: list.split)

lemma race_end_simps:
  "nickname (heap race_end 1) = ''bob''" "nickname_registered (heap race_end 1)" "alive race_end = {1, 2}"
  "nickname (heap race_end 2) = ''bob''" "nickname_registered (heap race_end 2)" "\<not> closed (heap race_end 2)"
  by (simp_all add: race_end_def login_commit_def on_nickname_registered_def register_nickname_def
      session_manager_ctor_def weak_lock_def close_session_heap post_write_other post_write_open
      config_json_limits Let_def)

theorem nicknames_unique_among_threads_witness: "closed (heap race_end 1)"
proof (rule ccontr)
  assume o: "\<not> closed (heap race_end 1)"
  have "own_scripts (\<lambda>r. r - 1) race_scripts"
    by (simp add: own_scripts_def race_scripts_def logs_in_def handles_def less_Suc_eq numeral_2_eq_2)
  moreover have "nick_inv (demo_world\<lparr>alive := {1, 2}\<rparr>)" by (simp add: nick_inv_def)
  ultimately have "(1 :: sref) = 2"
    using nicknames_unique_among_threads [OF _ _ race_run [unfolded race_start_def], of "\<lambda>r. r - 1" 1 2] race_end_simps o
    by (simp add: all_done_def)
  then show False by simp
qed

end
