(* ===== verification/Obligations.thy ===== *)
theory Obligations
  imports Rely_Guarantee
begin

text \<open>
  What a thread owes once it has begun something. A step of a thread that makes \<open>P\<close> true takes on
  the obligation to reach \<open>Q\<close> before the thread ends, whatever the others do meanwhile; \<open>Q\<close> once
  reached stays. Then, when all threads have ended, \<open>P\<close> implies \<open>Q\<close>: what was begun is completed,
  by whichever thread began it.
\<close>

section \<open>Programs that pay what they owe\<close>

text \<open>
  With steps of others within \<open>S\<close> before each of its own, which are within \<open>S\<close> too, \<open>pays\<close> ends in \<open>Q\<close>;
  \<open>duty\<close> need not, unless one of its steps begins \<open>P\<close>.
\<close>

primrec pays :: "('s \<Rightarrow> 's \<Rightarrow> bool) \<Rightarrow> ('s \<Rightarrow> bool) \<Rightarrow> ('m, 's) prog \<Rightarrow> 's \<Rightarrow> bool" where
  "pays S Q Done = (\<lambda>s. \<forall>t. S s t \<longrightarrow> Q t)"
| "pays S Q (Lock m p) = (\<lambda>s. \<forall>t. S s t \<longrightarrow> pays S Q p t)"
| "pays S Q (Unlock m p) = (\<lambda>s. \<forall>t. S s t \<longrightarrow> pays S Q p t)"
| "pays S Q (Act f k) = (\<lambda>s. \<forall>t. S s t \<longrightarrow> S t (f t) \<and> pays S Q (k t) (f t))"

primrec duty :: "('s \<Rightarrow> 's \<Rightarrow> bool) \<Rightarrow> ('s \<Rightarrow> bool) \<Rightarrow> ('s \<Rightarrow> bool) \<Rightarrow> ('m, 's) prog \<Rightarrow> 's \<Rightarrow> bool" where
  "duty S P Q Done = (\<lambda>s. True)"
| "duty S P Q (Lock m p) = (\<lambda>s. \<forall>t. S s t \<longrightarrow> duty S P Q p t)"
| "duty S P Q (Unlock m p) = (\<lambda>s. \<forall>t. S s t \<longrightarrow> duty S P Q p t)"
| "duty S P Q (Act f k) = (\<lambda>s. \<forall>t. S s t \<longrightarrow> S t (f t) \<and> duty S P Q (k t) (f t)
     \<and> (\<not> P t \<longrightarrow> P (f t) \<longrightarrow> pays S Q (k t) (f t)))"

text \<open>Every step of every thread is within \<open>S\<close>, which keeps the invariant and \<open>Q\<close>.\<close>

locale obligation =
  fixes S :: "'s \<Rightarrow> 's \<Rightarrow> bool" and Inv P Q :: "'s \<Rightarrow> bool"
  assumes S_refl: "S s s" and S_trans: "S s t \<Longrightarrow> S t u \<Longrightarrow> S s u"
    and inv_kept: "S s t \<Longrightarrow> Inv s \<Longrightarrow> Inv t" and kept: "S s t \<Longrightarrow> Q s \<Longrightarrow> Q t"
begin

lemma duty_later: "duty S P Q p s \<Longrightarrow> S s t \<Longrightarrow> duty S P Q p t"
  by (cases p) (auto intro: S_trans)

lemma pays_later: "pays S Q p s \<Longrightarrow> S s t \<Longrightarrow> pays S Q p t"
  by (cases p) (auto intro: S_trans)

lemma duty_pays: "duty S P Q p s \<Longrightarrow> Q s \<Longrightarrow> pays S Q p s"
proof (induction p arbitrary: s)
  case (Act f k)
  then show ?case using kept by simp (metis rangeI)
qed (auto intro: kept)

lemma duty_any: "duty S P Q p s \<Longrightarrow> duty S (\<lambda>_. True) Q' p s"
  by (induction p arbitrary: s) auto

text \<open>Rules with an assertion that all steps keep, one for each kind of step.\<close>

lemma pays_act:
  "stable S A \<Longrightarrow> A s \<Longrightarrow> (\<And>t. A t \<Longrightarrow> S t (f t)) \<Longrightarrow> (\<And>t. A t \<Longrightarrow> pays S Q (k t) (f t)) \<Longrightarrow> pays S Q (Act f k) s"
  by (auto dest: stableD)

lemma pays_lock:
  "stable S A \<Longrightarrow> A s \<Longrightarrow> (\<And>t. A t \<Longrightarrow> pays S Q p t) \<Longrightarrow> pays S Q (Lock m p) s \<and> pays S Q (Unlock m p) s"
  by (auto dest: stableD)

text \<open>A step that is within \<open>S\<close> and begins nothing.\<close>

definition calm :: "('s \<Rightarrow> 's) \<Rightarrow> bool" where
  "calm f \<longleftrightarrow> (\<forall>t. Inv t \<longrightarrow> S t (f t) \<and> (P (f t) \<longrightarrow> P t))"

lemma duty_calm: "calm f \<Longrightarrow> (\<And>t u. Inv u \<Longrightarrow> duty S P Q (k t) u) \<Longrightarrow> Inv s \<Longrightarrow> duty S P Q (Act f k) s"
  by (simp add: calm_def) (metis inv_kept)

lemma duty_lock: "(\<And>t. Inv t \<Longrightarrow> duty S P Q p t) \<Longrightarrow> Inv s \<Longrightarrow> duty S P Q (Lock m p) s \<and> duty S P Q (Unlock m p) s"
  using inv_kept by auto

lemma duty_act:
  "stable S A \<Longrightarrow> A s \<Longrightarrow> (\<And>t. A t \<Longrightarrow> S t (f t)) \<Longrightarrow> (\<And>t. A t \<Longrightarrow> duty S P Q (k t) (f t)) \<Longrightarrow>
     (\<And>t. A t \<Longrightarrow> \<not> P t \<Longrightarrow> P (f t) \<Longrightarrow> pays S Q (k t) (f t)) \<Longrightarrow> duty S P Q (Act f k) s"
  by (auto dest: stableD)

section \<open>Threads together\<close>

definition debts :: "('m, 's) threads \<Rightarrow> bool" where
  "debts c \<longleftrightarrow> (\<forall>p \<in> set (progs c). duty S P Q p (shared c))
     \<and> (P (shared c) \<longrightarrow> Q (shared c) \<or> (\<exists>p \<in> set (progs c). pays S Q p (shared c)))"

lemma debts_frame:
  assumes "debts c" and "S (shared c) (shared d)" and "progs d = (progs c)[i := p]" and "i < length (progs c)"
    and "duty S P Q p (shared d)" and "P (shared d) \<Longrightarrow> \<not> P (shared c) \<Longrightarrow> pays S Q p (shared d)"
    and "pays S Q (progs c ! i) (shared c) \<Longrightarrow> pays S Q p (shared d)"
  shows "debts d"
proof -
  let ?s = "shared d"
  have "duty S P Q q ?s" if "q \<in> set ((progs c)[i := p])" for q
    using that assms(1,2,5) set_update_subset_insert [of "progs c" i p] duty_later unfolding debts_def by blast
  moreover have "Q ?s \<or> (\<exists>q \<in> set ((progs c)[i := p]). pays S Q q ?s)" if s: "P ?s"
  proof (cases "P (shared c)")
    case False
    then show ?thesis using assms(4,6) s set_update_memI by metis
  next
    case True
    then consider "Q (shared c)" | q where "q \<in> set (progs c)" "pays S Q q (shared c)"
      using assms(1) by (auto simp: debts_def)
    then show ?thesis
    proof cases
      case 1
      then show ?thesis using kept assms(2) by blast
    next
      case 2
      then obtain j where j: "j < length (progs c)" "progs c ! j = q" by (meson in_set_conv_nth)
      show ?thesis
      proof (cases "j = i")
        case True
        then show ?thesis using 2 j assms(4,7) set_update_memI by metis
      next
        case False
        then have "(progs c)[i := p] ! j = q" using j by simp
        then have "q \<in> set ((progs c)[i := p])" using j(1) by (metis length_list_update nth_mem)
        then show ?thesis using pays_later [OF 2(2) assms(2)] by blast
      qed
    qed
  qed
  ultimately show ?thesis using assms(3) by (simp add: debts_def)
qed

lemma debts_step:
  assumes "debts c" and "conc_step c d"
  shows "debts d"
proof -
  from assms(2) obtain i where st: "thread_step i c = Some d" by (rule conc_stepE)
  have du: "i < length (progs c) \<Longrightarrow> duty S P Q (progs c ! i) (shared c)" using assms(1) by (simp add: debts_def)
  show ?thesis
  proof (cases rule: thread_stepE [OF st])
    case (1 m p)
    then show ?thesis using du assms(1) S_refl by (intro debts_frame [of c d i p]) auto
  next
    case (2 m p)
    then show ?thesis using du assms(1) S_refl by (intro debts_frame [of c d i p]) auto
  next
    case (3 f k)
    then show ?thesis using du assms(1) S_refl by (intro debts_frame [of c d i "k (shared c)"]) auto
  qed
qed

text \<open>When all threads are done, what was begun is completed.\<close>

lemma all_paid:
  assumes "\<And>p. p \<in> set ps \<Longrightarrow> duty S P Q p s" and "P s \<Longrightarrow> Q s \<or> (\<exists>p \<in> set ps. pays S Q p s)"
    and "conc_step\<^sup>*\<^sup>* (start_threads s ps) c" and "all_done c" and "P (shared c)"
  shows "Q (shared c)"
proof -
  have "debts c" using assms(3)
  proof (induction rule: rtranclp_induct)
    case base
    then show ?case using assms(1,2) by (simp add: debts_def start_threads_def)
  next
    case (step c d)
    then show ?case using debts_step by blast
  qed
  then have "Q (shared c) \<or> pays S Q Done (shared c)" using assms(4,5) by (auto simp: debts_def all_done_def)
  then show ?thesis using S_refl by auto
qed

end

declare pays.simps(2-4) [simp del] duty.simps(2-4) [simp del]

end
