(* ===== verification/Close_Threads.thy ===== *)
theory Close_Threads
  imports Obligations Handler_Threads
begin

text \<open>
  Closing a session while other threads use it. \<open>close_session\<close> marks the session, sets its state,
  closes its socket and takes it out of the registry, each in a step of its own; a second caller
  returns at once, maybe before the first is done. The theory proves that closing is all or nothing
  all the same: when the threads are done, a closing that has begun is complete.
\<close>

section \<open>The parts of a closing\<close>

text \<open>The four steps of \<open>close_session\<close> after the exchange of the flag.\<close>

definition close_remove :: "sref \<Rightarrow> call_prog \<Rightarrow> call_prog" where
  "close_remove r p = read_state (\<lambda>w. if handler_alive w
     then remove_session_prog (session_id (heap w r)) (\<lambda>_. p) else p)"

definition close_socket :: "sref \<Rightarrow> call_prog \<Rightarrow> call_prog" where
  "close_socket r p = modify (upd r (\<lambda>s. s\<lparr>sock := (sock s)\<lparr>sk_open := False\<rparr>\<rparr>)) (close_remove r p)"

definition close_state :: "sref \<Rightarrow> call_prog \<Rightarrow> call_prog" where
  "close_state r p = modify (upd r (\<lambda>s. s\<lparr>sstate := Closed\<rparr>)) (close_socket r p)"

lemma close_session_parts:
  "close_session_prog r p = Act (upd r (\<lambda>s. s\<lparr>closed := True\<rparr>)) (\<lambda>w. if closed (heap w r) then p else close_state r p)"
  unfolding close_session_prog_def close_state_def close_socket_def close_remove_def by (rule refl)

section \<open>Programs by their steps\<close>

text \<open>
  What the threads may do to a session \<open>r\<close> besides closing it: anything (but adding it to the registry
  once more), anything but handling its packets and logging it in, or only what leaves its flag
  alone.
\<close>

datatype company = Anything | NoLogin | NoPost

text \<open>A change of the session that closes nothing and undoes no closing.\<close>

definition harmless :: "company \<Rightarrow> (session \<Rightarrow> session) \<Rightarrow> bool" where
  "harmless md g \<longleftrightarrow> (\<forall>s. session_id (g s) = session_id s \<and> sk_open (sock (g s)) = sk_open (sock s)
     \<and> (closed s \<longrightarrow> closed (g s)) \<and> (md \<noteq> Anything \<longrightarrow> sstate (g s) = sstate s)
     \<and> (md = NoPost \<longrightarrow> closed (g s) = closed s))"

text \<open>A property of programs that every lock and every good step keeps.\<close>

locale program_steps =
  fixes \<Phi> :: "call_prog \<Rightarrow> bool" and good :: "(world \<Rightarrow> world) \<Rightarrow> bool" and md :: company and r :: sref
  assumes lock: "\<Phi> p \<Longrightarrow> \<Phi> (Lock x p)" and unlock: "\<Phi> p \<Longrightarrow> \<Phi> (Unlock x p)"
    and act: "good f \<Longrightarrow> (\<And>w. \<Phi> (k w)) \<Longrightarrow> \<Phi> (Act f k)"
    and good_read: "good (\<lambda>w. w)" and good_log: "good (\<lambda>w. w\<lparr>sql_log := sql_log w @ [y]\<rparr>)"
    and good_erase: "good (bucket_update sid (AList.delete sid))"
    and good_insert: "q \<noteq> r \<Longrightarrow> good (bucket_update sid (AList.update sid q))"
    and good_index: "good (index_nickname n q)" and good_drop: "good drop_expired"
    and good_post: "q \<noteq> r \<or> \<not> b \<or> md = Anything \<Longrightarrow> good (post_write b q m)"
    and good_local: "(\<And>w. \<exists>g. f w = upd q g w \<and> (q \<noteq> r \<or> harmless md g)) \<Longrightarrow> good f"
begin

lemma good_upd: "q \<noteq> r \<or> harmless md g \<Longrightarrow> good (upd q g)"
  using good_local by blast

lemma good_other: "q \<noteq> r \<Longrightarrow> good (upd q g)"
  by (simp add: good_upd)

lemma steps_remove: "(\<And>x. \<Phi> (k x)) \<Longrightarrow> \<Phi> (remove_session_prog sid k)"
  by (auto simp: remove_session_prog_def remove_locked_def intro!: act lock unlock good_read good_erase split: option.split)

lemma steps_add: "q \<noteq> r \<Longrightarrow> (\<And>x. \<Phi> (k x)) \<Longrightarrow> \<Phi> (add_entry_prog sid q k)"
  by (auto simp: add_entry_prog_def add_locked_def insert_locked_def
      intro!: act lock unlock good_read good_erase good_insert split: option.split)

lemma steps_find: "(\<And>x. \<Phi> (k x)) \<Longrightarrow> \<Phi> (find_session_prog sid k)"
  by (auto simp: find_session_prog_def find_locked_def intro!: act lock unlock good_read)

lemma steps_close_other: "q \<noteq> r \<Longrightarrow> \<Phi> p \<Longrightarrow> \<Phi> (close_session_prog q p)"
  by (auto simp: close_session_prog_def intro!: act good_other good_read steps_remove)

lemma steps_close_remove: "\<Phi> p \<Longrightarrow> \<Phi> (close_remove q p)"
  by (auto simp: close_remove_def intro!: act good_read steps_remove)

lemma steps_close_own:
  assumes "good (upd r (\<lambda>s. s\<lparr>closed := True\<rparr>))" and "good (upd r (\<lambda>s. s\<lparr>sstate := Closed\<rparr>))"
    and "good (upd r (\<lambda>s. s\<lparr>sock := (sock s)\<lparr>sk_open := False\<rparr>\<rparr>))" and "\<Phi> p"
  shows "\<Phi> (close_state r p)" and "\<Phi> (close_session_prog r p)"
proof -
  show st: "\<Phi> (close_state r p)"
    unfolding close_state_def close_socket_def by (intro act assms steps_close_remove)
  show "\<Phi> (close_session_prog r p)"
    unfolding close_session_parts by (rule act [OF assms(1)]) (use st assms(4) in simp)
qed

lemma steps_visit: "(\<And>a. \<Phi> (k a)) \<Longrightarrow> \<Phi> (visit_all_shards f a k)"
proof -
  assume k: "\<And>a. \<Phi> (k a)"
  have "\<Phi> (visit_shards shs f a k)" for shs a
    by (induction shs arbitrary: a) (auto intro!: k act lock unlock good_read)
  then show ?thesis by (auto simp: visit_all_shards_def intro!: act good_read)
qed

lemma steps_collect: "(\<And>a. \<Phi> (k a)) \<Longrightarrow> \<Phi> (collect_unauth rs acc k)"
  by (induction rs arbitrary: acc) (auto intro!: act good_read)

end

text \<open>The steps of handlers that only change a session.\<close>

lemma harmless_run: "harmless md run_next_task"
  by (simp add: harmless_def run_next_task_def start_read_def split: list.split task.split)

lemma harmless_push: "harmless md (push_task t)"
  using harmless_run [of md] by (simp add: harmless_def push_task_def Let_def)

lemma harmless_steps:
  "harmless md read_done" "harmless md (append_data d)" "harmless md (\<lambda>s. s\<lparr>msg_buf := mb\<rparr>)"
  "harmless md (\<lambda>s. s\<lparr>message := m\<rparr>)" "harmless md (\<lambda>s. s\<lparr>read_pending := True\<rparr>)"
  "harmless md (\<lambda>s. fst (write_callback err s))" "harmless md (queue_job x)" "harmless md (\<lambda>s. s)"
  "harmless md (\<lambda>s. s\<lparr>nickname := n\<rparr>)" "harmless md (\<lambda>s. s\<lparr>nickname_registered := True\<rparr>)"
  "harmless md (\<lambda>s. s\<lparr>login_timer := None\<rparr>)" "harmless Anything (\<lambda>s. s\<lparr>sstate := Ready\<rparr>)"
  by (auto simp: harmless_def read_done_def release_read_def append_data_def write_ops split: list.split)

lemma harmless_job:
  "md \<noteq> NoPost \<Longrightarrow> harmless md (\<lambda>s. post_write_job cfg m (s\<lparr>strand_jobs := js\<rparr>))"
  "harmless md g \<Longrightarrow> harmless md (\<lambda>s. g (s\<lparr>strand_jobs := js\<rparr>))" "harmless md (\<lambda>s. s\<lparr>strand_jobs := js\<rparr>)"
  by (auto simp: harmless_def post_write_job_closed)

lemma upd_identity: "w = upd q (\<lambda>s. s) w"
  by (simp add: upd_def)

lemma post_task_local: "\<exists>g. post_task_now inside q w = upd q g w \<and> harmless md g"
  using upd_identity [of w q] harmless_steps(7,8) harmless_push unfolding post_task_now_def by (metis (full_types))

lemma strand_job_local: "\<exists>g. strand_job_now q w = upd q g w \<and> (md \<noteq> NoPost \<longrightarrow> harmless md g)"
  using upd_identity [of w q] harmless_steps(8)
  by (cases "strand_jobs (heap w q)")
    (force simp: strand_job_now_def upd_upd Let_def harmless_job harmless_push split: strand_job.split)+

text \<open>Calls that are allowed in each company.\<close>

definition allowed_call :: "company \<Rightarrow> sref \<Rightarrow> manager_call \<Rightarrow> bool" where
  "allowed_call md r c \<longleftrightarrow> c \<noteq> AddSession r \<and> (md \<noteq> Anything \<longrightarrow> (\<forall>n. c \<noteq> Login n r))"

definition allowed :: "company \<Rightarrow> sref \<Rightarrow> server_call \<Rightarrow> bool" where
  "allowed md r c = (case c of
       OnRead q res \<Rightarrow> q \<noteq> r \<or> md = Anything
     | StrandJob q \<Rightarrow> q \<noteq> r \<or> md \<noteq> NoPost
     | Registry d \<Rightarrow> allowed_call md r d
     | _ \<Rightarrow> True)"

locale call_steps = program_steps +
  assumes close: "\<Phi> p \<Longrightarrow> \<Phi> (close_session_prog q p)"
begin

lemma steps_close_all: "\<Phi> p \<Longrightarrow> \<Phi> (foldr close_session_prog qs p)"
  by (induction qs) (auto intro: close)

lemma steps_register: "\<Phi> p \<Longrightarrow> \<Phi> (register_nickname_prog n q p)"
  by (auto simp: register_nickname_prog_def Let_def intro!: act lock unlock close good_read good_index good_post split: option.split)

lemma steps_login:
  assumes "q \<noteq> r \<or> md = Anything" and "\<Phi> p"
  shows "\<Phi> (login_prog n q p)"
proof -
  have "good (upd q (\<lambda>s. s\<lparr>sstate := Ready\<rparr>))" using assms(1) harmless_steps(12) good_upd by blast
  then show ?thesis
    using assms
    by (auto simp: login_prog_def login_commit_prog_def find_session_by_nickname_prog_def harmless_steps
        intro!: act lock unlock good_read good_upd good_post steps_register)
qed

lemma steps_call:
  assumes "returning c" and "allowed_call md r c" and p: "\<Phi> p"
  shows "\<Phi> (call_prog_of c p)"
proof (cases c)
  case (AddSession q)
  then show ?thesis using assms
    by (auto simp: add_session_prog_def allowed_call_def intro!: act good_read steps_add close split: option.split)
next
  case (CleanupUnauth srt n)
  then show ?thesis using p
    by (auto simp: cleanup_unauth_sessions_prog_def intro!: act good_read steps_visit steps_collect steps_close_all)
next
  case (Login n q)
  then show ?thesis using assms by (auto simp: allowed_call_def intro!: steps_login)
qed (use assms in \<open>auto simp: session_count_prog_def get_total_session_count_prog_def cleanup_inactive_sessions_prog_def
    find_session_by_nickname_prog_def cleanup_expired_nicknames_prog_def
    intro!: act lock unlock good_read good_drop steps_remove steps_find steps_visit steps_close_all steps_register close\<close>)

lemma steps_packet:
  assumes q: "q \<noteq> r \<or> md = Anything" and p: "\<Phi> p"
  shows "\<Phi> (handle_packet_prog jl sec q packet p)"
proof -
  have post: "good (post_write True q m)" for m using q good_post by blast
  have ty: "\<Phi> (dispatch_type_prog jl q msg k)" if "\<And>x. \<Phi> (k x)" for msg k
    using that q
    by (auto simp: dispatch_type_prog_def handler_progs_def login_handler_prog_def insert_handler_prog_def
        intro!: act post good_log steps_login split: option.split)
  have dp: "\<Phi> (dispatch_prog jl sec q packet k)" if k: "\<And>x. \<Phi> (k x)" for k
    unfolding dispatch_prog_def Let_def
    by (rule act [OF good_read]) (auto intro: close ty k split: option.split if_split)
  have "\<Phi> (report_failure_prog q p)"
    unfolding report_failure_prog_def by (intro act good_upd post p) (simp add: harmless_steps)
  then show ?thesis
    using p by (auto simp: handle_packet_prog_def intro!: act good_read dp)
qed

lemma steps_read_loop: "q \<noteq> r \<or> md = Anything \<Longrightarrow> \<Phi> p \<Longrightarrow> \<Phi> (read_loop_prog jl sec q mb p)"
proof (induction jl sec q mb p rule: read_loop_prog.induct)
  case (1 jl sec q mb p)
  then show ?case
    by (subst read_loop_prog.simps)
      (auto simp: harmless_steps intro!: act good_upd steps_packet split: prod.split option.split)
qed

lemma steps_do_read: "\<Phi> p \<Longrightarrow> \<Phi> (do_read_prog inside q p)"
proof -
  assume p: "\<Phi> p"
  have "good (post_task_now inside q)" using post_task_local by (intro good_local) blast
  with p show ?thesis
    by (auto simp: do_read_prog_def post_task_prog_def harmless_steps intro!: act good_read good_upd close)
qed

lemma steps_server:
  assumes "server_returning c" and "allowed md r c" and p: "\<Phi> p"
  shows "\<Phi> (server_prog jl sec c p)"
proof (cases c)
  case (OnRead q res)
  then show ?thesis using assms
    by (auto simp: allowed_def read_callback_prog_def Let_def harmless_steps harmless_run
        intro!: act good_read good_upd close steps_read_loop steps_do_read split: read_result.split)
next
  case (StrandJob q)
  then have "q \<noteq> r \<or> md \<noteq> NoPost" using assms(2) by (simp add: allowed_def)
  then have "good (strand_job_now q)" using strand_job_local by (intro good_local) blast
  with StrandJob p show ?thesis
    by (auto simp: strand_job_prog_def intro!: act close split: list.split strand_job.split)
next
  case (Registry d)
  then show ?thesis using assms by (simp add: allowed_def steps_call)
qed (use p in \<open>auto simp: on_write_prog_def harmless_steps intro!: act good_upd close steps_do_read\<close>)

lemma steps_script:
  "list_all (\<lambda>c. server_returning c \<and> allowed md r c) cs \<Longrightarrow> \<Phi> Done \<Longrightarrow> \<Phi> (script (server_prog jl sec) cs)"
  by (induction cs) (auto intro: steps_server)

end

section \<open>What every step keeps of a session\<close>

text \<open>
  The registry is well-formed and the data handler exists; in the company that posts nothing the strand
  of the session is occupied, so that what others post waits.
\<close>

definition close_ctx :: "company \<Rightarrow> sref \<Rightarrow> world \<Rightarrow> bool" where
  "close_ctx md r w \<longleftrightarrow> sm_inv (manager w) \<and> handler_alive w \<and> (md = NoPost \<longrightarrow> \<not> strand_idle w r)"

definition unregistered :: "sref \<Rightarrow> world \<Rightarrow> bool" where
  "unregistered r w \<longleftrightarrow> sm_find (session_id (heap w r)) (manager w) \<noteq> Some r"

definition fully_closed :: "company \<Rightarrow> sref \<Rightarrow> world \<Rightarrow> bool" where
  "fully_closed md r w \<longleftrightarrow> closed (heap w r) \<and> \<not> sk_open (sock (heap w r)) \<and> unregistered r w
     \<and> (md \<noteq> Anything \<longrightarrow> sstate (heap w r) = Closed)"

text \<open>Nothing of a closing is undone.\<close>

definition close_frame :: "company \<Rightarrow> sref \<Rightarrow> world \<Rightarrow> world \<Rightarrow> bool" where
  "close_frame md r w w' \<longleftrightarrow> (close_ctx md r w \<longrightarrow> close_ctx md r w'
     \<and> session_id (heap w' r) = session_id (heap w r)
     \<and> (closed (heap w r) \<longrightarrow> closed (heap w' r))
     \<and> (md \<noteq> Anything \<longrightarrow> sstate (heap w r) = Closed \<longrightarrow> sstate (heap w' r) = Closed)
     \<and> (\<not> sk_open (sock (heap w r)) \<longrightarrow> \<not> sk_open (sock (heap w' r)))
     \<and> (unregistered r w \<longrightarrow> unregistered r w'))"

text \<open>
  A closing has begun when the socket shows it, or the state if nobody sets it back, or the flag if
  nobody else can set it.
\<close>

definition begun :: "company \<Rightarrow> sref \<Rightarrow> world \<Rightarrow> bool" where
  "begun md r w \<longleftrightarrow>
     (case md of
        Anything \<Rightarrow> \<not> sk_open (sock (heap w r))
      | NoLogin \<Rightarrow> sstate (heap w r) = Closed \<or> \<not> sk_open (sock (heap w r))
      | NoPost \<Rightarrow> closed (heap w r))"

definition finished :: "company \<Rightarrow> sref \<Rightarrow> world \<Rightarrow> bool" where
  "finished md r w \<longleftrightarrow> close_ctx md r w \<and> fully_closed md r w"

definition marked :: "company \<Rightarrow> sref \<Rightarrow> world \<Rightarrow> bool" where
  "marked md r w \<longleftrightarrow> close_ctx md r w \<and> closed (heap w r)"

lemma close_frame_refl: "close_frame md r w w"
  by (simp add: close_frame_def)

lemma close_frame_trans: "close_frame md r w w' \<Longrightarrow> close_frame md r w' w'' \<Longrightarrow> close_frame md r w w''"
  by (simp add: close_frame_def)

interpretation closing: obligation "close_frame md r" "close_ctx md r" "begun md r" "finished md r"
  for md :: company and r :: sref
  by unfold_locales (auto simp: close_frame_def finished_def fully_closed_def)

interpretation marking: obligation "close_frame md r" "close_ctx md r" "\<lambda>w. True" "marked md r"
  for md :: company and r :: sref
  by unfold_locales (auto simp: close_frame_def marked_def)

section \<open>The single steps\<close>

lemma calm_manager:
  assumes "\<And>w. sm_inv (manager w) \<Longrightarrow> f w = w\<lparr>manager := g w (manager w)\<rparr> \<and> sm_inv (g w (manager w))"
    and "\<And>w i. sm_inv (manager w) \<Longrightarrow> sm_find i (g w (manager w)) = Some r \<Longrightarrow> sm_find i (manager w) = Some r"
  shows "closing.calm md r f"
  using assms by (auto simp: closing.calm_def close_frame_def close_ctx_def unregistered_def begun_def split: company.split)

lemma bucket_put_inv:
  assumes "sm_inv m"
  shows "sm_inv (set_bucket m i (AList.update i q (bucket m i)))"
proof (rule set_bucket_inv [OF assms])
  show "distinct (map fst (AList.update i q (bucket m i)))"
    using sm_inv_bucket [OF assms] by (rule distinct_update)
  have "set (AList.update i q b) \<subseteq> insert (i, q) (set b)" for b :: "(cint \<times> sref) list"
    by (induction b) auto
  then show "\<forall>(j, x) \<in> set (AList.update i q (bucket m i)). shard_index (get_shard m j) = shard_index (get_shard m i)"
    using bucket_entry_shard [OF assms] by blast
qed

lemma bucket_cut_inv: "sm_inv m \<Longrightarrow> sm_inv (set_bucket m i (AList.delete i (bucket m i)))"
  using sm_inv_bucket [of m i] bucket_entry_shard [of m] set_delete_subset [of i "bucket m i"]
  by (intro set_bucket_inv) (auto intro!: distinct_delete)

lemma bucket_find:
  "sm_inv m \<Longrightarrow> sm_find j (set_bucket m i (AList.update i q (bucket m i))) = (if j = i then Some q else sm_find j m)"
  "sm_inv m \<Longrightarrow> sm_find j (set_bucket m i (AList.delete i (bucket m i))) = (if j = i then None else sm_find j m)"
  by (rule sm_find_set_bucket; simp add: update_conv' delete_conv')+

lemma find_index [simp]: "sm_find i (m\<lparr>nickname_index := x\<rparr>) = sm_find i m"
  by (simp add: sm_find_def bucket_def get_shard_def)

lemma calm_steps:
  "closing.calm md r (\<lambda>w. w)"
  "closing.calm md r (bucket_update sid (AList.delete sid))"
  "q \<noteq> r \<Longrightarrow> closing.calm md r (bucket_update sid (AList.update sid q))"
  "closing.calm md r (index_nickname n q)" "closing.calm md r drop_expired"
  "closing.calm md r (\<lambda>w. w\<lparr>sql_log := sql_log w @ [y]\<rparr>)"
proof -
  show "closing.calm md r (\<lambda>w. w)" by (simp add: closing.calm_def close_frame_refl)
  show "closing.calm md r (bucket_update sid (AList.delete sid))"
    by (rule calm_manager [where g = "\<lambda>w m. set_bucket m sid (AList.delete sid (bucket m sid))"])
      (auto simp: bucket_update_def bucket_cut_inv bucket_find split: if_splits)
  show "closing.calm md r (bucket_update sid (AList.update sid q))" if "q \<noteq> r"
    by (rule calm_manager [where g = "\<lambda>w m. set_bucket m sid (AList.update sid q (bucket m sid))"])
      (use that in \<open>auto simp: bucket_update_def bucket_put_inv bucket_find split: if_splits\<close>)
  show "closing.calm md r (index_nickname n q)"
    by (rule calm_manager [where g = "\<lambda>w m. m\<lparr>nickname_index := (nickname_index m)(n \<mapsto> q)\<rparr>"])
      (auto simp: index_nickname_def)
  show "closing.calm md r drop_expired"
    by (rule calm_manager [where g = "\<lambda>w m. m\<lparr>nickname_index := (\<lambda>n. case nickname_index m n of
        None \<Rightarrow> None | Some r \<Rightarrow> weak_lock (alive w) r)\<rparr>"]) (auto simp: drop_expired_def)
  show "closing.calm md r (\<lambda>w. w\<lparr>sql_log := sql_log w @ [y]\<rparr>)"
    by (cases md) (simp_all add: closing.calm_def close_frame_def close_ctx_def unregistered_def begun_def)
qed

lemma calm_local:
  assumes "\<And>w. close_ctx md r w \<Longrightarrow> \<exists>g. f w = upd q g w \<and> (q \<noteq> r \<or> harmless md g)"
  shows "closing.calm md r f"
  unfolding closing.calm_def
proof (intro allI impI)
  fix w
  assume "close_ctx md r w"
  then obtain g where f: "f w = upd q g w" and g: "q \<noteq> r \<or> harmless md g" using assms by blast
  then show "close_frame md r w (f w) \<and> (begun md r (f w) \<longrightarrow> begun md r w)"
    by (auto simp: close_frame_def close_ctx_def unregistered_def begun_def harmless_def split: company.split)
qed

lemma calm_post:
  assumes "q \<noteq> r \<or> \<not> b \<or> md = Anything"
  shows "closing.calm md r (post_write b q m)"
proof (rule calm_local)
  fix w
  assume "close_ctx md r w"
  then have "runs_now b q w \<longrightarrow> q \<noteq> r \<or> md \<noteq> NoPost" using assms by (auto simp: close_ctx_def runs_now_def)
  then show "\<exists>g. post_write b q m w = upd q g w \<and> (q \<noteq> r \<or> harmless md g)"
    using harmless_steps(7) [of md "JobWrite m"]
    by (cases "runs_now b q w") (auto simp: post_write_def harmless_def post_write_job_closed)
qed

section \<open>Closing the session\<close>

text \<open>
  A step of the session's own closing: what is known at each of its points stays true.
\<close>

lemma stable_frame:
  "stable (close_frame md r) (close_ctx md r)" "stable (close_frame md r) (marked md r)"
  "stable (close_frame md r) (finished md r)"
  "stable (close_frame md r) (\<lambda>w. marked md r w \<and> (md \<noteq> Anything \<longrightarrow> sstate (heap w r) = Closed))"
  "stable (close_frame md r) (\<lambda>w. marked md r w \<and> (md \<noteq> Anything \<longrightarrow> sstate (heap w r) = Closed) \<and> \<not> sk_open (sock (heap w r)))"
  "stable (close_frame md r) (\<lambda>w. marked md r w \<and> (md \<noteq> Anything \<longrightarrow> sstate (heap w r) = Closed) \<and> \<not> sk_open (sock (heap w r))
     \<and> session_id (heap w r) = sid)"
  by (auto simp: stable_def close_frame_def marked_def finished_def fully_closed_def)

lemma frame_own:
  "close_frame md r w (upd r (\<lambda>s. s\<lparr>closed := True\<rparr>) w)"
  "close_frame md r w (upd r (\<lambda>s. s\<lparr>sstate := Closed\<rparr>) w)"
  "close_frame md r w (upd r (\<lambda>s. s\<lparr>sock := (sock s)\<lparr>sk_open := False\<rparr>\<rparr>) w)"
  by (simp_all add: close_frame_def close_ctx_def unregistered_def)

abbreviation close_pays :: "company \<Rightarrow> sref \<Rightarrow> call_prog \<Rightarrow> world \<Rightarrow> bool" where
  "close_pays md r \<equiv> pays (close_frame md r) (finished md r)"

lemma frame_cut: "close_ctx md r w \<Longrightarrow> close_frame md r w (bucket_update sid (AList.delete sid) w)"
  using calm_steps(2) [of md r sid] by (simp add: closing.calm_def)

lemma pays_remove:
  assumes p: "\<And>t. finished md r t \<Longrightarrow> close_pays md r p t"
    and w: "marked md r w \<and> (md \<noteq> Anything \<longrightarrow> sstate (heap w r) = Closed) \<and> \<not> sk_open (sock (heap w r)) \<and> session_id (heap w r) = sid"
  shows "close_pays md r (remove_session_prog sid (\<lambda>_. p)) w"
proof -
  let ?A = "\<lambda>w. marked md r w \<and> (md \<noteq> Anything \<longrightarrow> sstate (heap w r) = Closed) \<and> \<not> sk_open (sock (heap w r)) \<and> session_id (heap w r) = sid"
  note st = stable_frame(6) [of md r sid]
  have un: "close_pays md r (Unlock (SessionMutex sh) p) t" if "finished md r t" for sh t
    by (rule conjunct2 [OF closing.pays_lock [OF stable_frame(3) that]]) (rule p)
  have none: "finished md r t" if "?A t" "map_of (bucket (manager t) sid) sid = None" for t
    using that by (simp add: finished_def marked_def fully_closed_def unregistered_def sm_find_def)
  have cut: "close_pays md r (modify (bucket_update sid (AList.delete sid)) (Unlock (SessionMutex sh) p)) t"
    if t: "?A t" for sh t
  proof (rule closing.pays_act [OF st t])
    fix u
    assume u: "?A u"
    then show "close_frame md r u (bucket_update sid (AList.delete sid) u)" by (simp add: marked_def frame_cut)
    have "finished md r (bucket_update sid (AList.delete sid) u)"
      using u by (simp add: finished_def fully_closed_def unregistered_def marked_def close_ctx_def bucket_update_def
          bucket_cut_inv bucket_find)
    then show "close_pays md r (Unlock (SessionMutex sh) p) (bucket_update sid (AList.delete sid) u)" by (rule un)
  qed
  have locked: "close_pays md r (remove_locked sh sid (\<lambda>_. p)) t" if t: "?A t" for sh t
    unfolding remove_locked_def
    by (rule closing.pays_act [OF st t]) (use none un cut in \<open>auto simp: close_frame_refl split: option.split\<close>)
  have "close_pays md r (Lock (SessionMutex sh) (remove_locked sh sid (\<lambda>_. p))) t" if t: "?A t" for sh t
    by (rule conjunct1 [OF closing.pays_lock [OF st t]]) (rule locked)
  then show ?thesis
    unfolding remove_session_prog_def
    by (intro closing.pays_act [OF st w]) (simp_all only: close_frame_refl)
qed

lemma pays_close:
  assumes p: "\<And>t. finished md r t \<Longrightarrow> close_pays md r p t"
  shows "marked md r w \<and> (md \<noteq> Anything \<longrightarrow> sstate (heap w r) = Closed) \<and> \<not> sk_open (sock (heap w r)) \<Longrightarrow>
      close_pays md r (close_remove r p) w"
    and "marked md r w \<and> (md \<noteq> Anything \<longrightarrow> sstate (heap w r) = Closed) \<Longrightarrow> close_pays md r (close_socket r p) w"
    and "marked md r w \<Longrightarrow> close_pays md r (close_state r p) w"
proof -
  let ?C = "\<lambda>w. marked md r w \<and> (md \<noteq> Anything \<longrightarrow> sstate (heap w r) = Closed)"
  let ?D = "\<lambda>w. marked md r w \<and> (md \<noteq> Anything \<longrightarrow> sstate (heap w r) = Closed) \<and> \<not> sk_open (sock (heap w r))"
  have rm: "close_pays md r (close_remove r p) t" if t: "?D t" for t
    unfolding close_remove_def
    by (rule closing.pays_act [OF stable_frame(5) t])
      (use pays_remove [OF p] in \<open>auto simp: close_frame_refl marked_def close_ctx_def\<close>)
  have so: "close_pays md r (close_socket r p) t" if t: "?C t" for t
    unfolding close_socket_def
    by (rule closing.pays_act [OF stable_frame(4) t])
      (use rm in \<open>auto simp: frame_own marked_def close_ctx_def\<close>)
  show "close_pays md r (close_remove r p) w" if "?D w" by (rule rm [OF that])
  show "close_pays md r (close_socket r p) w" if "?C w" by (rule so [OF that])
  show "close_pays md r (close_state r p) w" if "marked md r w"
    unfolding close_state_def
    by (rule closing.pays_act [OF stable_frame(2) that])
      (use so in \<open>auto simp: frame_own marked_def close_ctx_def\<close>)
qed

abbreviation close_duty :: "company \<Rightarrow> sref \<Rightarrow> call_prog \<Rightarrow> world \<Rightarrow> bool" where
  "close_duty md r \<equiv> duty (close_frame md r) (begun md r) (finished md r)"

interpretation duties: program_steps "\<lambda>p. \<forall>w. close_ctx md r w \<longrightarrow> close_duty md r p w" "closing.calm md r" md r
  for md :: company and r :: sref
proof unfold_locales
  fix f and k :: "world \<Rightarrow> call_prog"
  assume "closing.calm md r f" and "\<And>w. \<forall>u. close_ctx md r u \<longrightarrow> close_duty md r (k w) u"
  then show "\<forall>w. close_ctx md r w \<longrightarrow> close_duty md r (Act f k) w" using closing.duty_calm by blast
next
  fix f q
  assume "\<And>w. \<exists>g. f w = upd q g w \<and> (q \<noteq> r \<or> harmless md g)"
  then show "closing.calm md r f" by (rule calm_local)
qed (simp_all add: calm_steps calm_post closing.duty_lock)

lemma duty_close:
  assumes p: "\<And>t. close_ctx md r t \<Longrightarrow> close_duty md r p t" and w: "close_ctx md r w"
  shows "close_duty md r (close_session_prog r p) w"
proof -
  let ?C = "\<lambda>w. marked md r w \<and> (md \<noteq> Anything \<longrightarrow> sstate (heap w r) = Closed)"
  have pay: "close_pays md r p t" if "finished md r t" for t
    using closing.duty_pays [OF p that] that by (simp add: finished_def)
  have rm: "close_duty md r (close_remove r p) t" if "close_ctx md r t" for t
    using duties.steps_close_remove p that by blast
  have so: "close_duty md r (close_socket r p) t" if t: "?C t" for t
    unfolding close_socket_def
  proof (rule closing.duty_act [OF stable_frame(4) t])
    fix u
    assume u: "?C u"
    let ?f = "upd r (\<lambda>s. s\<lparr>sock := (sock s)\<lparr>sk_open := False\<rparr>\<rparr>)"
    show "close_frame md r u (?f u)" by (rule frame_own)
    show "close_duty md r (close_remove r p) (?f u)" by (rule rm) (use u in \<open>simp add: marked_def close_ctx_def\<close>)
    show "close_pays md r (close_remove r p) (?f u)"
      by (rule pays_close(1) [OF pay]) (use u in \<open>simp_all add: marked_def close_ctx_def\<close>)
  qed
  have st: "close_duty md r (close_state r p) t" if t: "marked md r t" for t
    unfolding close_state_def
    by (rule closing.duty_act [OF stable_frame(2) t])
      (use so pays_close(2) [OF pay] in \<open>auto simp: frame_own marked_def close_ctx_def\<close>)
  show ?thesis
    unfolding close_session_parts
  proof (rule closing.duty_act [OF stable_frame(1) w])
    fix t
    assume t: "close_ctx md r t"
    let ?f = "upd r (\<lambda>s. s\<lparr>closed := True\<rparr>)"
    have m: "marked md r (?f t)" using t by (simp add: marked_def close_ctx_def)
    show "close_frame md r t (?f t)" by (rule frame_own)
    show "close_duty md r (if closed (heap t r) then p else close_state r p) (?f t)"
      using p st m by (simp add: marked_def)
    show "close_pays md r (if closed (heap t r) then p else close_state r p) (?f t)"
      if "\<not> begun md r t" "begun md r (?f t)"
      using that pays_close(3) [OF pay m] by (auto simp: begun_def split: company.splits)
  qed
qed

interpretation duties: call_steps "\<lambda>p. \<forall>w. close_ctx md r w \<longrightarrow> close_duty md r p w" "closing.calm md r" md r
  for md :: company and r :: sref
proof unfold_locales
  fix p q
  assume p: "\<forall>w. close_ctx md r w \<longrightarrow> close_duty md r p w"
  show "\<forall>w. close_ctx md r w \<longrightarrow> close_duty md r (close_session_prog q p) w"
    using duties.steps_close_other [OF _ p] duty_close p by (cases "q = r") blast+
qed

section \<open>A script that closes the session marks it\<close>

abbreviation marks :: "company \<Rightarrow> sref \<Rightarrow> call_prog \<Rightarrow> world \<Rightarrow> bool" where
  "marks md r \<equiv> pays (close_frame md r) (marked md r)"

definition mark_from :: "bool \<Rightarrow> company \<Rightarrow> sref \<Rightarrow> world \<Rightarrow> bool" where
  "mark_from m md r w \<longleftrightarrow> close_ctx md r w \<and> (m \<longrightarrow> closed (heap w r))"

lemma stable_mark_from: "stable (close_frame md r) (mark_from m md r)"
  by (simp add: stable_def mark_from_def close_frame_def)

lemma calm_marking: "closing.calm md r f \<Longrightarrow> marking.calm md r f"
  by (simp add: closing.calm_def marking.calm_def)

lemma marks_act:
  assumes "marking.calm md r f" and "\<And>t. \<forall>w. mark_from m md r w \<longrightarrow> marks md r (k t) w" and w: "mark_from m md r w"
  shows "marks md r (Act f k) w"
proof (rule marking.pays_act [OF stable_mark_from w])
  fix t
  assume t: "mark_from m md r t"
  with assms(1) show f: "close_frame md r t (f t)" by (simp add: marking.calm_def mark_from_def)
  show "marks md r (k t) (f t)" using assms(2) stableD [OF stable_mark_from f t] by blast
qed

interpretation marking_calls: program_steps "\<lambda>p. \<forall>w. mark_from m md r w \<longrightarrow> marks md r p w" "marking.calm md r" md r
  for m :: bool and md :: company and r :: sref
proof unfold_locales
  fix p and x :: mutex
  assume p: "\<forall>w. mark_from m md r w \<longrightarrow> marks md r p w"
  then have "marks md r (Lock x p) w \<and> marks md r (Unlock x p) w" if "mark_from m md r w" for w
    by (intro marking.pays_lock [OF stable_mark_from that]) blast
  then show "\<forall>w. mark_from m md r w \<longrightarrow> marks md r (Lock x p) w"
    "\<forall>w. mark_from m md r w \<longrightarrow> marks md r (Unlock x p) w" by blast+
next
  fix f and k :: "world \<Rightarrow> call_prog"
  assume "marking.calm md r f" and "\<And>w. \<forall>u. mark_from m md r u \<longrightarrow> marks md r (k w) u"
  then show "\<forall>w. mark_from m md r w \<longrightarrow> marks md r (Act f k) w" using marks_act by blast
next
  fix f q
  assume "\<And>w. \<exists>g. f w = upd q g w \<and> (q \<noteq> r \<or> harmless md g)"
  then show "marking.calm md r f" by (intro calm_marking calm_local)
qed (simp_all add: calm_marking calm_steps calm_post)

lemma marking_own:
  "marking.calm md r (upd r (\<lambda>s. s\<lparr>closed := True\<rparr>))" "marking.calm md r (upd r (\<lambda>s. s\<lparr>sstate := Closed\<rparr>))"
  "marking.calm md r (upd r (\<lambda>s. s\<lparr>sock := (sock s)\<lparr>sk_open := False\<rparr>\<rparr>))"
  by (simp_all add: marking.calm_def frame_own)

interpretation marking_calls: call_steps "\<lambda>p. \<forall>w. mark_from m md r w \<longrightarrow> marks md r p w" "marking.calm md r" md r
  for m :: bool and md :: company and r :: sref
proof unfold_locales
  fix p q
  assume p: "\<forall>w. mark_from m md r w \<longrightarrow> marks md r p w"
  have "\<forall>w. mark_from m md r w \<longrightarrow> marks md r (close_session_prog r p) w"
    by (rule marking_calls.steps_close_own [OF marking_own p])
  then show "\<forall>w. mark_from m md r w \<longrightarrow> marks md r (close_session_prog q p) w"
    using marking_calls.steps_close_other [OF _ p] by (cases "q = r") blast+
qed

lemma marks_done: "\<forall>w. mark_from True md r w \<longrightarrow> marks md r Done w"
  by (auto simp: mark_from_def marked_def close_frame_def)

lemma marks_close:
  assumes "\<forall>w. mark_from True md r w \<longrightarrow> marks md r p w" and w: "close_ctx md r w"
  shows "marks md r (close_session_prog r p) w"
  unfolding close_session_parts
proof (rule marking.pays_act [OF stable_frame(1) w])
  fix t
  assume "close_ctx md r t"
  then have m: "mark_from True md r (upd r (\<lambda>s. s\<lparr>closed := True\<rparr>) t)" by (simp add: mark_from_def close_ctx_def)
  have "\<forall>w. mark_from True md r w \<longrightarrow> marks md r (close_state r p) w"
    by (rule marking_calls.steps_close_own [OF marking_own assms(1)])
  with m assms(1) show "marks md r (if closed (heap t r) then p else close_state r p) (upd r (\<lambda>s. s\<lparr>closed := True\<rparr>) t)"
    by simp
qed (rule frame_own)

lemma marks_script:
  assumes "Registry (CloseSession r) \<in> set cs" and "list_all (\<lambda>c. server_returning c \<and> allowed md r c) cs" and "close_ctx md r w"
  shows "marks md r (script (server_prog jl sec) cs) w"
  using assms
proof (induction cs arbitrary: w)
  case (Cons c cs)
  show ?case
  proof (cases "c = Registry (CloseSession r)")
    case True
    have "\<forall>w. mark_from True md r w \<longrightarrow> marks md r (script (server_prog jl sec) cs) w"
      by (rule marking_calls.steps_script [OF _ marks_done]) (use Cons.prems(2) in simp)
    then show ?thesis using marks_close Cons.prems(3) True by simp
  next
    case False
    then have rest: "\<forall>w. mark_from False md r w \<longrightarrow> marks md r (script (server_prog jl sec) cs) w"
      using Cons by (auto simp: mark_from_def)
    show ?thesis
      using marking_calls.steps_server [OF _ _ rest, of c jl sec] Cons.prems(2,3) by (simp add: mark_from_def)
  qed
qed simp

section \<open>Properties\<close>

text \<open>
  C28. Closing among threads is all or nothing. Threads run any handlers and any calls of the registry,
  interleaved at the level of single locks and single changes. Once a closing of an open session has
  begun (its socket is closed; or its state is Closed, when no packet of its own may log it in
  meanwhile; or it is marked, when its strand is busy and no overflow can mark it), it is complete
  when all are done: the session is marked, its socket closed and it is out of the registry, and its
  state is Closed unless it may log in, however many threads closed it at once and although a second
  closer returns before the first is done. And what a thread closes ends marked.
\<close>

theorem closing_all_or_nothing:
  assumes "sm_inv (manager w)" and "handler_alive w"
    and "\<not> closed (heap w r)" and "sstate (heap w r) \<noteq> Closed" and "sk_open (sock (heap w r))"
    and "\<forall>cs \<in> set scripts. list_all (\<lambda>c. server_returning c \<and> allowed md r c) cs"
    and "md = NoPost \<longrightarrow> \<not> strand_idle w r"
    and "conc_step\<^sup>*\<^sup>* (start_threads w (map (script (server_prog jl sec)) scripts)) c" and "all_done c"
    and "s = heap (shared c) r"
  shows "(begun md r (shared c) \<longrightarrow> fully_closed md r (shared c))
    \<and> ((\<exists>cs \<in> set scripts. Registry (CloseSession r) \<in> set cs) \<longrightarrow> closed s)"
proof -
  let ?ps = "map (script (server_prog jl sec)) scripts"
  have ctx: "close_ctx md r w" using assms(1,2,7) by (simp add: close_ctx_def)
  have duty: "close_duty md r p w" if "p \<in> set ?ps" for p
    using duties.steps_script [of md r _ jl sec] ctx that assms(6) by auto
  have paid: "finished md r (shared c)" if "begun md r (shared c)"
    by (rule closing.all_paid [OF _ _ assms(8,9) that])
      (use duty assms(3-5) in \<open>auto simp: begun_def split: company.splits\<close>)
  have mark: "closed s" if "cs \<in> set scripts" "Registry (CloseSession r) \<in> set cs" for cs
  proof -
    have "marked md r (shared c)"
    proof (rule marking.all_paid [OF _ _ assms(8,9) TrueI])
      show "duty (close_frame md r) (\<lambda>w. True) (marked md r) p w" if "p \<in> set ?ps" for p
        using closing.duty_any duty that by blast
      show "marked md r w \<or> (\<exists>p \<in> set ?ps. marks md r p w)"
        using marks_script [OF that(2) _ ctx] that(1) assms(6) by auto
    qed
    then show ?thesis by (simp add: marked_def assms(10))
  qed
  show ?thesis
    using paid mark by (auto simp: finished_def)
qed

text \<open>
  Two threads close session 2 at once while its own strand, which is busy, gets the end of a write; a
  third thread counts the sessions.
\<close>

definition closing_scripts :: "server_call list list" where
  "closing_scripts = [[Registry (CloseSession 2)], [Registry (CloseSession 2), Registry (CleanupInactive 9 5)],
     [OnWrite False 2, StartRead 2], [Registry TotalSessions, OnRead 1 (ReadOk ''x'')]]"

theorem closing_all_or_nothing_witness:
  "\<exists>c. conc_step\<^sup>*\<^sup>* (start_threads demo_world (map (script (server_prog tiny ''s3'')) closing_scripts)) c
     \<and> all_done c \<and> fully_closed NoPost 2 (shared c)"
proof -
  have ok: "\<forall>cs \<in> set closing_scripts. list_all (\<lambda>c. server_returning c \<and> allowed NoPost 2 c) cs"
    by (simp add: closing_scripts_def allowed_def allowed_call_def)
  obtain c where c: "conc_step\<^sup>*\<^sup>* (start_threads demo_world (map (script (server_prog tiny ''s3'')) closing_scripts)) c"
      "all_done c"
    using srv.scripts_complete(1) [OF _ rtranclp.rtrancl_refl, of closing_scripts demo_world tiny "''s3''"]
    by (auto simp: closing_scripts_def)
  have "sk_open (sock (heap demo_world 2))" by (simp add: demo_session_def session_ctor_def)
  then have "closed (heap (shared c) 2) \<and> (closed (heap (shared c) 2) \<longrightarrow> fully_closed NoPost 2 (shared c))"
    using closing_all_or_nothing [of demo_world 2, OF _ _ _ _ _ ok _ c refl]
    by (simp add: closing_scripts_def begun_def)
  with c show ?thesis by blast
qed

text \<open>
  Nothing keeps a thread that closes a session away from the socket that the session's strand is about
  to read from: a state is reachable in which the next step of the one starts the read and the
  next step of the other closes the socket, with no mutex taken by either.
\<close>

theorem close_races_with_read:
  "\<exists>c p q. conc_step\<^sup>*\<^sup>* (start_threads demo_world (map (script (server_prog tiny ''s3''))
       [[OnRead 2 (ReadOk ''x'')], [Registry (CloseSession 2)]])) c
     \<and> progs c = [post_task_prog True 2 p, close_socket 2 q] \<and> owner c = Map.empty
     \<and> sk_open (sock (heap (shared c) 2)) \<and> post_task_now True 2 (shared c) = upd 2 (push_task ReadSome) (shared c)"
proof -
  let ?c0 = "start_threads demo_world (map (script (server_prog tiny ''s3''))
       [[OnRead 2 (ReadOk ''x'')], [Registry (CloseSession 2)]])"
  have "\<exists>c p q. run_schedule [0, 0, 0, 0, 0, 0, 0, 1, 1] ?c0 = Some c
     \<and> progs c = [post_task_prog True 2 p, close_socket 2 q] \<and> owner c = Map.empty
     \<and> sk_open (sock (heap (shared c) 2)) \<and> post_task_now True 2 (shared c) = upd 2 (push_task ReadSome) (shared c)"
    by (auto simp: start_threads_def thread_step_def read_callback_prog_def read_loop_prog.simps extract_message_def
        demo_session_def session_ctor_def empty_msgbuf_def mb_append_def append_data_def read_done_def release_read_def
        was_last_clear_by_invalid_length_def do_read_prog_def close_session_parts close_state_def runs_now_def
        post_task_now_def config_json_limits Let_def)
  then show ?thesis using run_schedule_steps by blast
qed

end
