(* ===== verification/Registry_Linear.thy ===== *)
theory Registry_Linear
  imports Bucket_Threads
begin

text \<open>
  The operations on one bucket, run by any number of threads with their locks, reads, erasures and
  insertions as separate steps, are linearizable: every complete run returns what the atomic
  operations of the theory Session_Manager return when they run one after the other in some order
  that keeps the order of each thread. This is why the other theories may take them as atomic.
\<close>

section \<open>Clients\<close>

datatype bucket_call = AddEntry cint sref | RemoveEntry cint | FindEntry cint

text \<open>The atomic operation.\<close>

primrec apply_call :: "bucket_call \<Rightarrow> session_manager \<Rightarrow> sref option \<times> session_manager" where
  "apply_call (AddEntry sid r) m = sm_add sid r m"
| "apply_call (RemoveEntry sid) m = sm_remove sid m"
| "apply_call (FindEntry sid) m = (sm_find sid m, m)"

primrec call_shard :: "bucket_call \<Rightarrow> cint" where
  "call_shard (AddEntry sid r) = sid"
| "call_shard (RemoveEntry sid) = sid"
| "call_shard (FindEntry sid) = sid"

text \<open>A client thread keeps what its calls return.\<close>

record client_world = world +
  returned :: "nat \<Rightarrow> sref option list"

type_synonym client_prog = "(mutex, client_world) prog"

primrec bucket_call_prog :: "bucket_call \<Rightarrow> (sref option \<Rightarrow> client_prog) \<Rightarrow> client_prog" where
  "bucket_call_prog (AddEntry sid r) k = add_entry_prog sid r k"
| "bucket_call_prog (RemoveEntry sid) k = remove_session_prog sid k"
| "bucket_call_prog (FindEntry sid) k = find_session_prog sid k"

primrec locked_prog :: "nat \<Rightarrow> bucket_call \<Rightarrow> (sref option \<Rightarrow> client_prog) \<Rightarrow> client_prog" where
  "locked_prog sh (AddEntry sid r) k = add_locked sh sid r k"
| "locked_prog sh (RemoveEntry sid) k = remove_locked sh sid k"
| "locked_prog sh (FindEntry sid) k = find_locked sh sid k"

lemma bucket_call_prog_alt:
  "bucket_call_prog c k = read_state (\<lambda>w. Lock (SessionMutex (shard_of (call_shard c) w))
     (locked_prog (shard_of (call_shard c) w) c k))"
  by (cases c) (simp_all add: add_entry_prog_def remove_session_prog_def find_session_prog_def)

definition keep_result :: "nat \<Rightarrow> sref option \<Rightarrow> client_world \<Rightarrow> client_world" where
  "keep_result i x w = w\<lparr>returned := (returned w)(i := returned w i @ [x])\<rparr>"

primrec client :: "nat \<Rightarrow> bucket_call list \<Rightarrow> client_prog" where
  "client i [] = Done"
| "client i (c # cs) = bucket_call_prog c (\<lambda>x. modify (keep_result i x) (client i cs))"

definition clients :: "bucket_call list list \<Rightarrow> client_prog list" where
  "clients scripts = map (\<lambda>i. client i (scripts ! i)) [0..<length scripts]"

section \<open>Sequential runs\<close>

definition seq_step :: "nat \<times> bucket_call \<Rightarrow> session_manager \<times> (nat \<Rightarrow> sref option list)
    \<Rightarrow> session_manager \<times> (nat \<Rightarrow> sref option list)" where
  "seq_step = (\<lambda>(i, c) (m, res). case apply_call c m of (x, m') \<Rightarrow> (m', res(i := res i @ [x])))"

definition run_seq :: "(nat \<times> bucket_call) list \<Rightarrow> session_manager \<Rightarrow> session_manager \<times> (nat \<Rightarrow> sref option list)" where
  "run_seq H m = fold seq_step H (m, \<lambda>_. [])"

definition calls_of :: "nat \<Rightarrow> (nat \<times> bucket_call) list \<Rightarrow> bucket_call list" where
  "calls_of i H = map snd (filter (\<lambda>e. fst e = i) H)"

lemma run_seq_snoc:
  "fst (run_seq (H @ [(i, c)]) m) = snd (apply_call c (fst (run_seq H m)))"
  "snd (run_seq (H @ [(i, c)]) m) = (snd (run_seq H m))(i := snd (run_seq H m) i @ [fst (apply_call c (fst (run_seq H m)))])"
  by (simp_all add: run_seq_def seq_step_def split: prod.split)

lemma calls_of_snoc: "calls_of j (H @ [(i, c)]) = (if j = i then calls_of j H @ [c] else calls_of j H)"
  by (simp add: calls_of_def)

lemma apply_call_keeps:
  "shard_count (snd (apply_call c m)) = shard_count m"
  "nickname_index (snd (apply_call c m)) = nickname_index m"
  "length (session_buckets (snd (apply_call c m))) = length (session_buckets m)"
  by (cases c; simp add: sm_add_def sm_remove_def set_bucket_def Let_def split: option.split)+

section \<open>Where a thread is\<close>

text \<open>
  \<open>stage n i todo pend p hk bc bm\<close>: thread \<open>i\<close> of a registry with \<open>n\<close> shards has the program \<open>p\<close> left,
  has still to make the calls \<open>todo\<close> in the sequential run and to keep the results \<open>pend\<close>, and holds
  the bucket \<open>hk\<close>; \<open>bc\<close> are the buckets of the running registry and \<open>bm\<close> those of the sequential one.
  They differ only between the erasure and the insertion of \<open>add_session\<close>.
\<close>

definition shard_in :: "u64 \<Rightarrow> cint \<Rightarrow> nat" where
  "shard_in n sid = shard_index (ucast (size_cast sid mod n))"

definition finish :: "nat \<Rightarrow> bucket_call list \<Rightarrow> sref option \<Rightarrow> client_prog" where
  "finish i cs x = modify (keep_result i x) (client i cs)"

type_synonym buckets = "nat \<Rightarrow> (cint \<times> sref) list"

inductive stage :: "u64 \<Rightarrow> nat \<Rightarrow> bucket_call list \<Rightarrow> sref option list \<Rightarrow> client_prog \<Rightarrow> nat option
    \<Rightarrow> buckets \<Rightarrow> buckets \<Rightarrow> bool" for n i where
  idle: "stage n i cs [] (client i cs) None bc bm"
| waiting: "sh = shard_in n (call_shard c) \<Longrightarrow>
     stage n i (c # cs) [] (Lock (SessionMutex sh) (locked_prog sh c (finish i cs))) None bc bm"
| entered: "sh = shard_in n (call_shard c) \<Longrightarrow> bc sh = bm sh \<Longrightarrow>
     stage n i (c # cs) [] (locked_prog sh c (finish i cs)) (Some sh) bc bm"
| found: "sh = shard_in n sid \<Longrightarrow> bc sh = bm sh \<Longrightarrow> map_of (bm sh) sid = Some q \<Longrightarrow>
     stage n i (AddEntry sid r # cs) []
       (modify (bucket_update sid (AList.delete sid)) (insert_locked sh sid r (finish i cs (Some q)))) (Some sh) bc bm"
| fresh: "sh = shard_in n sid \<Longrightarrow> bc sh = bm sh \<Longrightarrow> map_of (bm sh) sid = None \<Longrightarrow>
     stage n i (AddEntry sid r # cs) [] (insert_locked sh sid r (finish i cs None)) (Some sh) bc bm"
| erased: "sh = shard_in n sid \<Longrightarrow> bc sh = AList.delete sid (bm sh) \<Longrightarrow> map_of (bm sh) sid = Some q \<Longrightarrow>
     stage n i (AddEntry sid r # cs) [] (insert_locked sh sid r (finish i cs (Some q))) (Some sh) bc bm"
| removing: "sh = shard_in n sid \<Longrightarrow> bc sh = bm sh \<Longrightarrow> map_of (bm sh) sid = Some q \<Longrightarrow>
     stage n i (RemoveEntry sid # cs) []
       (modify (bucket_update sid (AList.delete sid)) (Unlock (SessionMutex sh) (finish i cs (Some q)))) (Some sh) bc bm"
| leaving: "bc sh = bm sh \<Longrightarrow> stage n i cs [x] (Unlock (SessionMutex sh) (finish i cs x)) (Some sh) bc bm"
| left: "stage n i cs [x] (finish i cs x) None bc bm"

lemma stage_pending: "stage n i todo pend p hk bc bm \<Longrightarrow> length pend \<le> 1"
  by (induction rule: stage.induct) simp_all

lemma stage_other:
  assumes "stage n j todo pend p hk bc bm" and "\<And>k. hk = Some k \<Longrightarrow> bc' k = bc k \<and> bm' k = bm k"
  shows "stage n j todo pend p hk bc' bm'"
  using assms by (induction rule: stage.induct) (auto intro: stage.intros)

lemma client_Done: "client i cs = Done \<longleftrightarrow> cs = []"
  by (cases cs) (simp_all add: bucket_call_prog_alt)

lemma locked_prog_read: "\<exists>f. locked_prog sh c k = read_state f"
  by (cases c) (auto simp: add_locked_def remove_locked_def find_locked_def)

lemma stage_Done: "stage n i todo pend Done hk bc bm \<Longrightarrow> todo = [] \<and> pend = [] \<and> hk = None"
proof (induction "Done :: client_prog" hk bc bm rule: stage.induct)
  case (idle cs)
  then show ?case using client_Done by metis
next
  case (entered sh c bc bm cs)
  then show ?case using locked_prog_read [of sh c "finish i cs"] by auto
qed (simp_all add: insert_locked_def finish_def)

section \<open>One step of one thread\<close>

lemma stage_Lock:
  assumes "stage n i todo pend (Lock x p) hk bc bm"
  obtains sh where "x = SessionMutex sh" "hk = None" "\<exists>c. sh = shard_in n (call_shard c)"
    "bc sh = bm sh \<Longrightarrow> stage n i todo pend p (Some sh) bc bm"
  using assms
proof (cases rule: stage.cases)
  case idle
  then show ?thesis by (cases todo) (simp_all add: bucket_call_prog_alt)
next
  case (waiting sh c cs)
  then show ?thesis using that by (auto intro: entered)
next
  case (entered sh c cs)
  then show ?thesis using locked_prog_read [of sh c "finish i cs"] by auto
qed (simp_all add: insert_locked_def finish_def)

lemma stage_Unlock:
  assumes "stage n i todo pend (Unlock x p) hk bc bm"
  obtains sh where "x = SessionMutex sh" "hk = Some sh" "bc sh = bm sh" "stage n i todo pend p None bc bm"
  using assms
proof (cases rule: stage.cases)
  case idle
  then show ?thesis by (cases todo) (simp_all add: bucket_call_prog_alt)
next
  case (entered sh c cs)
  then show ?thesis using locked_prog_read [of sh c "finish i cs"] by auto
next
  case leaving
  then show ?thesis using that by (auto intro: left)
qed (simp_all add: insert_locked_def finish_def)

text \<open>
  A step on the state: it changes at most the bucket that the thread holds; it is a step of the
  sequential run (the second case), or none.
\<close>

definition same_shape :: "u64 \<Rightarrow> session_manager \<Rightarrow> session_manager \<Rightarrow> bool" where
  "same_shape n m m' \<longleftrightarrow> shard_count m = n \<and> shard_count m' = n \<and> shards_ok m \<and> shards_ok m'
     \<and> nickname_index m' = nickname_index m"

abbreviation buckets_of :: "session_manager \<Rightarrow> buckets" where
  "buckets_of m \<equiv> (!) (session_buckets m)"

lemma bucket_shard_in: "shard_count m = n \<Longrightarrow> bucket m sid = session_buckets m ! shard_in n sid"
  by (simp add: bucket_def get_shard_def shard_in_def)

lemma shard_in_range': "shards_ok m \<Longrightarrow> shard_count m = n \<Longrightarrow> shard_in n sid < length (session_buckets m)"
  using shard_in_range [of m sid] by (simp add: shard_in_def get_shard_def)

lemma set_bucket_nth':
  "shards_ok m \<Longrightarrow> shard_count m = n \<Longrightarrow> session_buckets (set_bucket m sid b) ! k =
     (if k = shard_in n sid then b else session_buckets m ! k)"
  using shard_in_range' [of m n sid] by (simp add: set_bucket_def get_shard_def shard_in_def nth_list_update)

lemma stage_Act:
  assumes "stage n i todo pend (Act f k) hk (buckets_of m) (buckets_of M)" and "same_shape n m M" and "manager w = m"
  obtains (quiet) pend' where "same_shape n (manager (f w)) M"
      "\<And>j. j \<noteq> i \<Longrightarrow> returned (f w) j = returned w j" "returned (f w) i @ pend' = returned w i @ pend"
      "\<And>s. hk \<noteq> Some s \<Longrightarrow> session_buckets (manager (f w)) ! s = session_buckets m ! s"
      "stage n i todo pend' (k w) hk (buckets_of (manager (f w))) (buckets_of M)"
  | (linear) c todo' x M' where "todo = c # todo'" "apply_call c M = (x, M')" "same_shape n (manager (f w)) M'"
      "returned (f w) = returned w" "pend = []"
      "\<And>s. hk \<noteq> Some s \<Longrightarrow> session_buckets (manager (f w)) ! s = session_buckets m ! s
         \<and> session_buckets M' ! s = session_buckets M ! s"
      "stage n i todo' [x] (k w) hk (buckets_of (manager (f w))) (buckets_of M')"
proof -
  have sh: "shard_count m = n" "shard_count M = n" "shards_ok m" "shards_ok M" "nickname_index M = nickname_index m"
    using assms(2) by (auto simp: same_shape_def)
  have bk: "bucket (manager w) sid = session_buckets m ! shard_in n sid" "bucket M sid = session_buckets M ! shard_in n sid"
    for sid using sh assms(3) by (simp_all add: bucket_shard_in)
  have up: "session_buckets (manager (bucket_update sid g w)) ! s
      = (if s = shard_in n sid then g (session_buckets m ! s) else session_buckets m ! s)"
    "same_shape n (manager (bucket_update sid g w)) M" "returned (bucket_update sid g w) = returned w" for sid g s
    using sh assms(3) bk
    by (simp_all add: bucket_update_def set_bucket_nth' same_shape_def) (simp_all add: set_bucket_def)
  have ab: "session_buckets (set_bucket M sid b) ! s = (if s = shard_in n sid then b else session_buckets M ! s)"
    "same_shape n m' M \<Longrightarrow> same_shape n m' (set_bucket M sid b)" for sid b s m'
    using sh by (simp_all add: set_bucket_nth' same_shape_def) (simp_all add: set_bucket_def)
  from assms(1) show ?thesis
  proof (cases rule: stage.cases)
    case idle
    then show ?thesis
    proof (cases todo)
      case (Cons c cs)
      then have "f = (\<lambda>s. s)" "k w = Lock (SessionMutex (shard_in n (call_shard c))) (locked_prog (shard_in n (call_shard c)) c (finish i cs))"
        using idle sh assms(3) by (auto simp: bucket_call_prog_alt shard_of_def get_shard_def shard_in_def finish_def [abs_def])
      then show ?thesis using idle Cons assms(2,3) by (intro quiet [of "[]"]) (auto intro: stage.waiting)
    qed simp
  next
    case (entered s c cs)
    show ?thesis
    proof (cases c)
      case (AddEntry sid r)
      then have "f = (\<lambda>s. s)" "k w = (case map_of (buckets_of M s) sid of None \<Rightarrow> insert_locked s sid r (finish i cs None)
          | Some q \<Rightarrow> modify (bucket_update sid (AList.delete sid)) (insert_locked s sid r (finish i cs (Some q))))"
        using entered bk by (auto simp: add_locked_def split: option.split)
      then show ?thesis
        using entered AddEntry assms(2,3)
        by (cases "map_of (buckets_of M s) sid") (rule quiet [of "[]"]; auto intro: stage.found stage.fresh)+
    next
      case (RemoveEntry sid)
      then have f: "f = (\<lambda>s. s)" "k w = (case map_of (buckets_of M s) sid of None \<Rightarrow> Unlock (SessionMutex s) (finish i cs None)
          | Some q \<Rightarrow> modify (bucket_update sid (AList.delete sid)) (Unlock (SessionMutex s) (finish i cs (Some q))))"
        using entered bk by (auto simp: remove_locked_def split: option.split)
      show ?thesis
      proof (cases "map_of (buckets_of M s) sid")
        case None
        then have "apply_call c M = (None, M)"
          using RemoveEntry entered bk by (simp add: sm_remove_def)
        then show ?thesis
          using None f entered assms(2,3) by (intro linear [of c cs None M]) (auto intro: stage.leaving)
      next
        case (Some q)
        then show ?thesis
          using f entered RemoveEntry assms(2,3) by (intro quiet [of "[]"]) (auto intro: stage.removing)
      qed
    next
      case (FindEntry sid)
      then have "f = (\<lambda>s. s)" "k w = Unlock (SessionMutex s) (finish i cs (map_of (buckets_of M s) sid))"
        "apply_call c M = (map_of (buckets_of M s) sid, M)"
        using entered bk by (auto simp: find_locked_def sm_find_def)
      then show ?thesis
        using entered assms(2,3) by (intro linear [of c cs _ M]) (auto intro: stage.leaving)
    qed
  next
    case (found s sid q r cs)
    then show ?thesis using up
      by (intro quiet [of "[]"]) (auto intro!: stage.erased)
  next
    case (fresh s sid r cs)
    then have ap: "apply_call (AddEntry sid r) M = (None, set_bucket M sid (AList.update sid r (buckets_of M s)))"
      using bk by (simp add: sm_add_def Let_def)
    show ?thesis
      using fresh up ab by (intro linear [OF fresh(1) ap]) (auto simp: insert_locked_def intro!: stage.leaving)
  next
    case (erased s sid q r cs)
    then have ap: "apply_call (AddEntry sid r) M
        = (Some q, set_bucket M sid (AList.update sid r (AList.delete sid (buckets_of M s))))"
      using bk by (simp add: sm_add_def Let_def)
    show ?thesis
      using erased up ab by (intro linear [OF erased(1) ap]) (auto simp: insert_locked_def intro!: stage.leaving)
  next
    case (removing s sid q cs)
    then have ap: "apply_call (RemoveEntry sid) M = (Some q, set_bucket M sid (AList.delete sid (buckets_of M s)))"
      using bk by (simp add: sm_remove_def Let_def)
    show ?thesis
      using removing up ab by (intro linear [OF removing(1) ap]) (auto intro!: stage.leaving)
  next
    case (left x)
    then show ?thesis using assms(2,3) by (intro quiet [of "[]"]) (auto simp: finish_def keep_result_def intro: stage.idle)
  qed
qed

section \<open>The simulation\<close>

text \<open>
  \<open>sim H c\<close>: the sequential run of \<open>H\<close> explains the state \<open>c\<close> of the threads.
\<close>

definition holds :: "nat option \<Rightarrow> mutex set" where
  "holds hk = (case hk of None \<Rightarrow> {} | Some k \<Rightarrow> {SessionMutex k})"

lemma held_holds: "held c i = holds (Some k) \<Longrightarrow> owner c (SessionMutex k) = Some i"
proof -
  assume "held c i = holds (Some k)"
  then have "SessionMutex k \<in> held c i" by (simp add: holds_def)
  then show ?thesis by (simp add: held_def)
qed

definition thread_ok :: "session_manager \<Rightarrow> bucket_call list list \<Rightarrow> (nat \<times> bucket_call) list
    \<Rightarrow> (mutex, client_world) threads \<Rightarrow> nat \<Rightarrow> bool" where
  "thread_ok m0 scripts H c i \<longleftrightarrow> (\<exists>todo pend hk.
     calls_of i H @ todo = scripts ! i \<and> snd (run_seq H m0) i = returned (shared c) i @ pend
     \<and> held c i = holds hk
     \<and> stage (shard_count m0) i todo pend (progs c ! i) hk (buckets_of (manager (shared c))) (buckets_of (fst (run_seq H m0))))"

definition sim :: "session_manager \<Rightarrow> bucket_call list list \<Rightarrow> (nat \<times> bucket_call) list
    \<Rightarrow> (mutex, client_world) threads \<Rightarrow> bool" where
  "sim m0 scripts H c \<longleftrightarrow> length (progs c) = length scripts
     \<and> same_shape (shard_count m0) (manager (shared c)) (fst (run_seq H m0))
     \<and> (\<forall>i < length scripts. thread_ok m0 scripts H c i)
     \<and> (\<forall>m i. owner c m = Some i \<longrightarrow> i < length scripts)
     \<and> (\<forall>k. owner c (SessionMutex k) = None \<longrightarrow>
          buckets_of (manager (shared c)) k = buckets_of (fst (run_seq H m0)) k)"

lemma sim_start:
  assumes "shards_ok (manager w)" and "returned w = (\<lambda>_. [])"
  shows "sim (manager w) scripts [] (start_threads w (clients scripts))"
  using assms by (auto simp: sim_def thread_ok_def start_threads_def clients_def run_seq_def calls_of_def same_shape_def
      held_def holds_def intro!: exI [of _ None] stage.idle)

lemma sim_update:
  assumes "sim m0 scripts H c" and "i < length scripts" and "progs d = (progs c)[i := p]"
    and shape: "same_shape (shard_count m0) (manager (shared d)) (fst (run_seq H' m0))"
    and others: "\<And>j. j \<noteq> i \<Longrightarrow> calls_of j H' = calls_of j H \<and> snd (run_seq H' m0) j = snd (run_seq H m0) j
        \<and> returned (shared d) j = returned (shared c) j \<and> held d j = held c j"
    and own: "calls_of i H' @ todo = scripts ! i" "snd (run_seq H' m0) i = returned (shared d) i @ pend"
      "held d i = holds hk"
      "stage (shard_count m0) i todo pend p hk (buckets_of (manager (shared d))) (buckets_of (fst (run_seq H' m0)))"
    and away: "\<And>k. owner c (SessionMutex k) \<noteq> Some i \<Longrightarrow>
        buckets_of (manager (shared d)) k = buckets_of (manager (shared c)) k
        \<and> buckets_of (fst (run_seq H' m0)) k = buckets_of (fst (run_seq H m0)) k"
    and free: "\<And>k. owner d (SessionMutex k) = None \<Longrightarrow> owner c (SessionMutex k) = None
        \<or> buckets_of (manager (shared d)) k = buckets_of (fst (run_seq H' m0)) k"
    and owners: "\<And>m j. owner d m = Some j \<Longrightarrow> owner c m = Some j \<or> j = i"
  shows "sim m0 scripts H' d"
proof -
  have "thread_ok m0 scripts H' d j" if j: "j < length scripts" for j
  proof (cases "j = i")
    case True
    have "progs d ! i = p" using assms(1-3) by (simp add: sim_def)
    with True own show ?thesis unfolding thread_ok_def by blast
  next
    case False
    obtain todo' pend' hk' where t: "calls_of j H @ todo' = scripts ! j" "snd (run_seq H m0) j = returned (shared c) j @ pend'"
      "held c j = holds hk'" "stage (shard_count m0) j todo' pend' (progs c ! j) hk' (buckets_of (manager (shared c))) (buckets_of (fst (run_seq H m0)))"
      using assms(1) j unfolding sim_def thread_ok_def by blast
    have "owner c (SessionMutex k) \<noteq> Some i" if "hk' = Some k" for k
      using held_holds [of c j k] t(3) that False by simp
    then have "stage (shard_count m0) j todo' pend' (progs c ! j) hk' (buckets_of (manager (shared d))) (buckets_of (fst (run_seq H' m0)))"
      by (intro stage_other [OF t(4)] away) auto
    moreover have "progs d ! j = progs c ! j" using False assms(3) by simp
    ultimately show ?thesis using t others [OF False] unfolding thread_ok_def by metis
  qed
  moreover have "buckets_of (manager (shared d)) k = buckets_of (fst (run_seq H' m0)) k"
    if "owner d (SessionMutex k) = None" for k
  proof (cases "owner c (SessionMutex k) = None")
    case True
    then have "buckets_of (manager (shared c)) k = buckets_of (fst (run_seq H m0)) k"
      using assms(1) unfolding sim_def by blast
    with away [of k] True show ?thesis by simp
  next
    case False
    with free [OF that] show ?thesis by simp
  qed
  moreover have "length (progs d) = length scripts" using assms(1,3) by (simp add: sim_def)
  moreover have "j < length scripts" if "owner d m = Some j" for m j
    using owners [OF that] assms(1,2) unfolding sim_def by blast
  ultimately show ?thesis using shape unfolding sim_def by blast
qed

lemma sim_step:
  assumes "sim m0 scripts H c" and "conc_step c d"
  shows "\<exists>H'. sim m0 scripts (H @ H') d"
proof -
  let ?n = "shard_count m0" and ?m = "manager (shared c)" and ?M = "fst (run_seq H m0)"
  from assms(2) obtain i where st: "thread_step i c = Some d" by (rule conc_stepE)
  have s: "length (progs c) = length scripts" "same_shape ?n ?m ?M" "\<And>j. j < length scripts \<Longrightarrow> thread_ok m0 scripts H c j"
    "\<And>m j. owner c m = Some j \<Longrightarrow> j < length scripts"
    "\<And>k. owner c (SessionMutex k) = None \<Longrightarrow> buckets_of ?m k = buckets_of ?M k"
    using assms(1) by (auto simp: sim_def)
  have i: "i < length scripts" using st s(1) by (auto elim: thread_stepE)
  obtain todo pend hk where t: "calls_of i H @ todo = scripts ! i" "snd (run_seq H m0) i = returned (shared c) i @ pend"
    "held c i = holds hk" "stage ?n i todo pend (progs c ! i) hk (buckets_of ?m) (buckets_of ?M)"
    using s(3) [OF i] by (auto simp: thread_ok_def)
  show ?thesis
  proof (cases rule: thread_stepE [OF st])
    case (1 x p)
    obtain sh where sh: "x = SessionMutex sh" "hk = None"
      "stage ?n i todo pend p (Some sh) (buckets_of ?m) (buckets_of ?M)"
      using t(4) 1(2,3) s(5) by (auto elim!: stage_Lock)
    have "sim m0 scripts H d"
      by (rule sim_update [OF assms(1) i, where hk = "Some sh" and todo = todo and pend = pend and p = p])
        (use 1 s(2) t sh in \<open>auto simp: held_simps holds_def split: if_splits\<close>)
    then show ?thesis by (metis append_Nil2)
  next
    case (2 x p)
    obtain sh where sh: "x = SessionMutex sh" "hk = Some sh" "buckets_of ?m sh = buckets_of ?M sh"
      "stage ?n i todo pend p None (buckets_of ?m) (buckets_of ?M)"
      using t(4) 2(2) by (auto elim!: stage_Unlock)
    have "sim m0 scripts H d"
      by (rule sim_update [OF assms(1) i, where hk = None and todo = todo and pend = pend and p = p])
        (use 2 s(2) t(1,2,3) sh in \<open>simp_all add: held_simps holds_def split: if_splits\<close>)
    then show ?thesis by (metis append_Nil2)
  next
    case (3 f k)
    have hk: "hk \<noteq> Some sh" if "owner c (SessionMutex sh) \<noteq> Some i" for sh
      using held_holds [of c i sh] t(3) that by auto
    show ?thesis
    proof (cases rule: stage_Act [OF t(4) [unfolded 3(2)] s(2) refl])
      case (1 pend')
      have "sim m0 scripts H d"
        by (rule sim_update [OF assms(1) i, where hk = hk and todo = todo and pend = pend' and p = "k (shared c)"])
          (use 3 s t 1 hk in \<open>auto simp: held_simps\<close>)
      then show ?thesis by (metis append_Nil2)
    next
      case (2 a todo' x M')
      have M': "fst (run_seq (H @ [(i, a)]) m0) = M'" using 2(2) by (simp add: run_seq_snoc)
      have "sim m0 scripts (H @ [(i, a)]) d"
        by (rule sim_update [OF assms(1) i, where hk = hk and todo = todo' and pend = "[x]" and p = "k (shared c)"])
          (use 3 s t 2 hk in \<open>auto simp: held_simps run_seq_snoc calls_of_snoc\<close>)
      then show ?thesis by blast
    qed
  qed
qed

lemma sim_steps: "conc_step\<^sup>*\<^sup>* c d \<Longrightarrow> sim m0 scripts H c \<Longrightarrow> \<exists>H'. sim m0 scripts (H @ H') d"
proof (induction rule: rtranclp_induct)
  case base
  then show ?case by (metis append_Nil2)
next
  case (step d e)
  then show ?case by (metis sim_step append_assoc)
qed

lemma sim_end:
  assumes "sim m0 scripts H c" and "all_done c"
  shows "fst (run_seq H m0) = manager (shared c)"
    and "\<And>i. i < length scripts \<Longrightarrow> calls_of i H = scripts ! i \<and> snd (run_seq H m0) i = returned (shared c) i"
proof -
  have i: "calls_of i H = scripts ! i \<and> snd (run_seq H m0) i = returned (shared c) i \<and> held c i = {}"
    if i: "i < length scripts" for i
  proof -
    have len: "length (progs c) = length scripts" using assms(1) unfolding sim_def by blast
    then have D: "progs c ! i = Done" using assms(2) i by (simp add: all_done_def)
    obtain todo pend hk where t: "calls_of i H @ todo = scripts ! i" "snd (run_seq H m0) i = returned (shared c) i @ pend"
      "held c i = holds hk" "stage (shard_count m0) i todo pend Done hk (buckets_of (manager (shared c))) (buckets_of (fst (run_seq H m0)))"
      using assms(1) i D unfolding sim_def thread_ok_def by metis
    from stage_Done [OF t(4)] t show ?thesis by (simp add: holds_def)
  qed
  then show "\<And>i. i < length scripts \<Longrightarrow> calls_of i H = scripts ! i \<and> snd (run_seq H m0) i = returned (shared c) i" by blast
  have free: "owner c (SessionMutex k) = None" for k
  proof (cases "owner c (SessionMutex k)")
    case (Some j)
    then have "j < length scripts" "SessionMutex k \<in> held c j" using assms(1) by (auto simp: sim_def held_def)
    with i show ?thesis by blast
  qed
  have sh: "same_shape (shard_count m0) (manager (shared c)) (fst (run_seq H m0))"
    and b: "\<And>k. buckets_of (manager (shared c)) k = buckets_of (fst (run_seq H m0)) k"
    using assms(1) free unfolding sim_def by blast+
  have "session_buckets (manager (shared c)) = session_buckets (fst (run_seq H m0))"
    using sh b by (intro nth_equalityI) (auto simp: same_shape_def shards_ok_def)
  with sh show "fst (run_seq H m0) = manager (shared c)" by (simp add: same_shape_def)
qed

lemma sim_pending:
  assumes "sim m0 scripts H c" and "i < length scripts"
  shows "\<exists>pend. snd (run_seq H m0) i = returned (shared c) i @ pend \<and> length pend \<le> 1"
  using assms stage_pending unfolding sim_def thread_ok_def by metis

section \<open>Properties\<close>

text \<open>
  C15. The operations on the buckets are linearizable. Threads that run any scripts of additions,
  removals and look-ups, with every lock, read, erasure and insertion a step of its own, end in the
  registry, and get the results, of the atomic operations run one after the other in some order,
  which keeps the order of each thread's calls. At every moment \<open>c\<close> on the way this order begins
  with calls \<open>H\<close> that have taken effect: all that have returned, with their results, and at most
  one more of each thread.
\<close>

theorem bucket_calls_linearizable:
  assumes "shards_ok (manager w)" and "returned w = (\<lambda>_. [])"
    and "conc_step\<^sup>*\<^sup>* (start_threads w (clients scripts)) c" and "conc_step\<^sup>*\<^sup>* c d" and "all_done d"
  shows "\<exists>H H'. fst (run_seq (H @ H') (manager w)) = manager (shared d)
    \<and> (\<forall>i < length scripts. calls_of i (H @ H') = scripts ! i
         \<and> snd (run_seq (H @ H') (manager w)) i = returned (shared d) i
         \<and> (\<exists>pend. snd (run_seq H (manager w)) i = returned (shared c) i @ pend \<and> length pend \<le> 1))"
proof -
  obtain H where H: "sim (manager w) scripts H c"
    using sim_steps [OF assms(3) sim_start [OF assms(1,2)]] by auto
  obtain H' where "sim (manager w) scripts (H @ H') d"
    using sim_steps [OF assms(4) H] by blast
  then show ?thesis using sim_end [OF _ assms(5)] sim_pending [OF H] by blast
qed

definition demo_clients :: client_world where
  "demo_clients = world.extend demo_world \<lparr>returned = (\<lambda>_. [])\<rparr>"

definition client_scripts :: "bucket_call list list" where
  "client_scripts = [[AddEntry 1 5, FindEntry 1], [RemoveEntry 1, AddEntry 1 6]]"

lemma client_ordered: "ordered mutex_rank (client i cs) {}"
proof (induction cs)
  case (Cons c cs)
  then show ?case by (cases c) (simp_all add: bucket_ops_ordered)
qed simp

lemma demo_clients_simps: "manager demo_clients = session_manager_ctor 4" "returned demo_clients = (\<lambda>_. [])"
  by (simp_all add: demo_clients_def world.extend_def demo_world_def)

theorem bucket_calls_linearizable_witness:
  "\<exists>d H. conc_step\<^sup>*\<^sup>* (start_threads demo_clients (clients client_scripts)) d \<and> all_done d
     \<and> fst (run_seq H (session_manager_ctor 4)) = manager (shared d) \<and> calls_of 1 H = [RemoveEntry 1, AddEntry 1 6]"
proof -
  let ?c = "start_threads demo_clients (clients client_scripts)"
  obtain d where d: "conc_step\<^sup>*\<^sup>* ?c d" "\<nexists>e. conc_step d e" using conc_steps_end by blast
  have "all_ordered mutex_rank ?c" by (rule all_ordered_start) (auto simp: clients_def client_ordered)
  then have "all_ordered mutex_rank d"
    by (rule all_ordered_steps [OF d(1)])
  then have "all_done d" using all_ordered_progress d(2) by blast
  moreover have "shards_ok (manager demo_clients)"
    using demo_manager by (simp add: demo_clients_simps sm_inv_def)
  ultimately obtain H H' where H: "fst (run_seq (H @ H') (manager demo_clients)) = manager (shared d)"
      "calls_of 1 (H @ H') = client_scripts ! 1"
    using bucket_calls_linearizable [OF _ demo_clients_simps(2) rtranclp.rtrancl_refl d(1)]
    by (auto simp: client_scripts_def)
  show ?thesis
    by (rule exI [of _ d], rule exI [of _ "H @ H'"])
      (use d(1) H \<open>all_done d\<close> in \<open>simp add: demo_clients_simps client_scripts_def\<close>)
qed

end
