(* ===== verification/Pool_Threads.thy ===== *)
theory Pool_Threads
  imports Rely_Guarantee Mysql_Pool
begin

text \<open>
  The connection pool (\<open>MySqlPool\<close>) used by several threads, step by step: \<open>acquire\<close> looks at the
  queue with the mutex locked and connects after it has unlocked it, \<open>release\<close> compares the size
  with the capacity and pushes, with the mutex locked. The mutex keeps a connection from being
  handed out twice and the queue within its capacity.
\<close>

section \<open>State and programs\<close>

text \<open>\<open>pw_lent i\<close>: the connections that thread \<open>i\<close> owns, each in a \<open>unique_ptr\<close>.\<close>

record ('c, 'w) pool_world =
  pw_pool :: "'c mysql_pool"
  pw_lent :: "nat \<Rightarrow> 'c list"
  pw_world :: 'w

datatype pool_mutex = PoolMutex

type_synonym ('c, 'w) pool_prog = "(pool_mutex, ('c, 'w) pool_world) prog"

definition lend :: "nat \<Rightarrow> 'c \<Rightarrow> ('c, 'w) pool_world \<Rightarrow> ('c, 'w) pool_world" where
  "lend i c s = s\<lparr>pw_lent := (pw_lent s)(i := c # pw_lent s i)\<rparr>"

definition destroy_lent :: "nat \<Rightarrow> 'c \<Rightarrow> ('c, 'w) pool_world \<Rightarrow> ('c, 'w) pool_world" where
  "destroy_lent i c s = s\<lparr>pw_lent := (pw_lent s)(i := remove1 c (pw_lent s i))\<rparr>"

text \<open>\<open>new_connection\<close>: the session is opened, and destroyed again when the statement throws.\<close>

definition open_step :: "('c, 'w) driver \<Rightarrow> nat \<Rightarrow> ('c, 'w) pool_world \<Rightarrow> (exn + 'c) \<times> ('c, 'w) pool_world" where
  "open_step d i s =
     (let p = pw_pool s in
      case open_session d (mp_host p) (mp_port p) (mp_user p) (mp_pass p) (pw_world s) of
        (Inl e, w) \<Rightarrow> (Inl e, s\<lparr>pw_world := w\<rparr>)
      | (Inr c, w) \<Rightarrow> (Inr c, lend i c (s\<lparr>pw_world := w\<rparr>)))"

definition use_step :: "('c, 'w) driver \<Rightarrow> nat \<Rightarrow> 'c \<Rightarrow> ('c, 'w) pool_world \<Rightarrow> exn option \<times> ('c, 'w) pool_world" where
  "use_step d i c s =
     (case execute_sql d c (''USE '' @ mp_schema (pw_pool s)) (pw_world s) of
        (None, w) \<Rightarrow> (None, s\<lparr>pw_world := w\<rparr>)
      | (Some e, w) \<Rightarrow> (Some e, destroy_lent i c (s\<lparr>pw_world := w\<rparr>)))"

definition new_connection_prog :: "('c, 'w) driver \<Rightarrow> nat \<Rightarrow> (exn + 'c \<Rightarrow> ('c, 'w) pool_prog) \<Rightarrow> ('c, 'w) pool_prog" where
  "new_connection_prog d i k =
     Act (\<lambda>s. snd (open_step d i s)) (\<lambda>s.
       case fst (open_step d i s) of
         Inl e \<Rightarrow> k (Inl e)
       | Inr c \<Rightarrow>
           if mp_schema (pw_pool s) \<noteq> []
           then Act (\<lambda>t. snd (use_step d i c t)) (\<lambda>t.
             case fst (use_step d i c t) of Some e \<Rightarrow> k (Inl e) | None \<Rightarrow> k (Inr c))
           else k (Inr c))"

definition take_front :: "nat \<Rightarrow> ('c, 'w) pool_world \<Rightarrow> ('c, 'w) pool_world" where
  "take_front i s = lend i (hd (mp_pool (pw_pool s))) (s\<lparr>pw_pool := (pw_pool s)\<lparr>mp_pool := tl (mp_pool (pw_pool s))\<rparr>\<rparr>)"

definition acquire_prog :: "('c, 'w) driver \<Rightarrow> nat \<Rightarrow> ('c option \<Rightarrow> ('c, 'w) pool_prog) \<Rightarrow> ('c, 'w) pool_prog" where
  "acquire_prog d i k =
     Lock PoolMutex (read_state (\<lambda>s.
       if mp_pool (pw_pool s) \<noteq> []
       then Act (take_front i) (\<lambda>t. Unlock PoolMutex (k (Some (hd (mp_pool (pw_pool t))))))
       else Unlock PoolMutex (new_connection_prog d i (\<lambda>r. case r of Inl e \<Rightarrow> k None | Inr c \<Rightarrow> k (Some c)))))"

definition push_back :: "nat \<Rightarrow> 'c \<Rightarrow> ('c, 'w) pool_world \<Rightarrow> ('c, 'w) pool_world" where
  "push_back i c s =
     (destroy_lent i c s)\<lparr>pw_pool := (pw_pool s)\<lparr>mp_pool := mp_pool (pw_pool s) @ [c]\<rparr>\<rparr>"

text \<open>A connection that the pool does not take is destroyed when \<open>release\<close> returns.\<close>

definition release_prog :: "nat \<Rightarrow> 'c option \<Rightarrow> ('c, 'w) pool_prog \<Rightarrow> ('c, 'w) pool_prog" where
  "release_prog i session p =
     (case session of
        None \<Rightarrow> p
      | Some c \<Rightarrow> Lock PoolMutex (read_state (\<lambda>s.
          if length (mp_pool (pw_pool s)) < unat (mp_capacity (pw_pool s))
          then modify (push_back i c) (Unlock PoolMutex p)
          else Unlock PoolMutex (modify (destroy_lent i c) p))))"

text \<open>A client acquires, gives back the connection it acquired last, or destroys it.\<close>

datatype pool_call = Acquire | Release | Destroy

definition last_lent :: "nat \<Rightarrow> ('c, 'w) pool_world \<Rightarrow> 'c option" where
  "last_lent i s = (case pw_lent s i of [] \<Rightarrow> None | c # _ \<Rightarrow> Some c)"

primrec pool_call_prog :: "('c, 'w) driver \<Rightarrow> nat \<Rightarrow> pool_call \<Rightarrow> ('c, 'w) pool_prog \<Rightarrow> ('c, 'w) pool_prog" where
  "pool_call_prog d i Acquire p = acquire_prog d i (\<lambda>_. p)"
| "pool_call_prog d i Release p = read_state (\<lambda>s. release_prog i (last_lent i s) p)"
| "pool_call_prog d i Destroy p =
     read_state (\<lambda>s. case last_lent i s of None \<Rightarrow> p | Some c \<Rightarrow> modify (destroy_lent i c) p)"

definition pool_clients :: "('c, 'w) driver \<Rightarrow> pool_call list list \<Rightarrow> ('c, 'w) pool_prog list" where
  "pool_clients d scripts = map (\<lambda>i. script (pool_call_prog d i) (scripts ! i)) [0..<length scripts]"

section \<open>A call alone\<close>

text \<open>Without other threads a call does what the operation of \<open>Mysql_Pool\<close> does in one step.\<close>

lemma acquire_alone:
  assumes "pool_acquire d (pw_pool s) (pw_world s) = (r, p', w')"
  shows "\<exists>s'. run_alone (acquire_prog d i k) {} s = run_alone (k r) {} s' \<and> pw_pool s' = p' \<and> pw_world s' = w'
    \<and> pw_lent s' = (case r of None \<Rightarrow> pw_lent s | Some c \<Rightarrow> (pw_lent s)(i := c # pw_lent s i))"
  using assms
  by (auto simp: pool_acquire_def new_connection_def acquire_prog_def new_connection_prog_def open_step_def use_step_def
      take_front_def lend_def destroy_lent_def neq_Nil_conv Let_def split: list.splits prod.splits sum.splits option.splits if_splits)

lemma release_alone:
  "run_alone (release_prog i r p) {} s = run_alone p {} (s\<lparr>
     pw_lent := (case r of None \<Rightarrow> pw_lent s | Some c \<Rightarrow> (pw_lent s)(i := remove1 c (pw_lent s i))),
     pw_pool := pool_release r (pw_pool s)\<rparr>)"
  by (simp add: release_prog_def pool_release_def push_back_def destroy_lent_def split: option.split)

section \<open>No deadlock\<close>

lemma new_connection_ordered: "(\<And>x. ordered rank (k x) {}) \<Longrightarrow> ordered rank (new_connection_prog d i k) {}"
  by (simp add: new_connection_prog_def split: sum.split option.split)

interpretation pool_order: ordered_calls "\<lambda>_. 0" "pool_call_prog d i" "\<lambda>_. True"
  for d :: "('c, 'w) driver" and i :: nat
proof unfold_locales
  fix c and p :: "('c, 'w) pool_prog"
  assume "ordered (\<lambda>_. 0) p {}"
  then show "ordered (\<lambda>_. 0) (pool_call_prog d i c p) {}"
    by (cases c) (auto simp: acquire_prog_def release_prog_def last_lent_def
        intro!: new_connection_ordered split: option.split sum.split list.split)
qed

section \<open>Relies and guarantees\<close>

text \<open>
  \<open>owned issued s\<close>: no connection is idle twice, lent twice, or idle and lent, and the idle ones are
  within the capacity.
\<close>

definition owned :: "('w \<Rightarrow> 'c set) \<Rightarrow> ('c, 'w) pool_world \<Rightarrow> bool" where
  "owned issued s \<longleftrightarrow> distinct (mp_pool (pw_pool s)) \<and> (\<forall>i. distinct (pw_lent s i))
     \<and> (\<forall>i. set (pw_lent s i) \<inter> set (mp_pool (pw_pool s)) = {})
     \<and> (\<forall>i j. i \<noteq> j \<longrightarrow> set (pw_lent s i) \<inter> set (pw_lent s j) = {})
     \<and> set (mp_pool (pw_pool s)) \<subseteq> issued (pw_world s) \<and> (\<forall>i. set (pw_lent s i) \<subseteq> issued (pw_world s))
     \<and> length (mp_pool (pw_pool s)) \<le> unat (mp_capacity (pw_pool s))"

definition pool_rely :: "('w \<Rightarrow> 'c set) \<Rightarrow> nat \<Rightarrow> pool_mutex set \<Rightarrow> ('c, 'w) pool_world \<Rightarrow> ('c, 'w) pool_world \<Rightarrow> bool" where
  "pool_rely issued i h s t \<longleftrightarrow> pw_lent t i = pw_lent s i \<and> mp_capacity (pw_pool t) = mp_capacity (pw_pool s)
     \<and> (PoolMutex \<in> h \<longrightarrow> pw_pool t = pw_pool s) \<and> (owned issued s \<longrightarrow> owned issued t)"

definition pool_guar :: "('w \<Rightarrow> 'c set) \<Rightarrow> nat \<Rightarrow> pool_mutex set \<Rightarrow> ('c, 'w) pool_world \<Rightarrow> ('c, 'w) pool_world \<Rightarrow> bool" where
  "pool_guar issued i h s t \<longleftrightarrow> (\<forall>j. j \<noteq> i \<longrightarrow> pw_lent t j = pw_lent s j) \<and> mp_capacity (pw_pool t) = mp_capacity (pw_pool s)
     \<and> (PoolMutex \<notin> h \<longrightarrow> pw_pool t = pw_pool s) \<and> (owned issued s \<longrightarrow> owned issued t)"

interpretation pool: rely_guarantee "pool_rely issued" "pool_guar issued" for issued :: "'w \<Rightarrow> 'c set"
proof unfold_locales
  fix i j h h' and s t u :: "('c, 'w) pool_world"
  show "pool_rely issued i h s s" by (simp add: pool_rely_def)
  show "pool_rely issued i h s u" if "pool_rely issued i h s t" "pool_rely issued i h t u"
    using that by (simp add: pool_rely_def)
  show "pool_rely issued j h' s t" if "i \<noteq> j" "h \<inter> h' = {}" "pool_guar issued i h s t"
    using that by (auto simp: pool_rely_def pool_guar_def)
qed

section \<open>The single steps\<close>

lemma owned_lend:
  assumes "owned issued s" and "issued (pw_world s) \<subseteq> issued w" and "c \<notin> issued (pw_world s)" and "c \<in> issued w"
  shows "owned issued (lend i c (s\<lparr>pw_world := w\<rparr>))"
  using assms unfolding owned_def lend_def by simp blast

lemma owned_world:
  "owned issued s \<Longrightarrow> issued (pw_world s) \<subseteq> issued w \<Longrightarrow> owned issued (s\<lparr>pw_world := w\<rparr>)"
  unfolding owned_def by simp blast

lemma owned_destroy: "owned issued s \<Longrightarrow> owned issued (destroy_lent i c s)"
  unfolding owned_def destroy_lent_def using set_remove1_subset by simp fast

lemma owned_take:
  assumes "owned issued s" and "mp_pool (pw_pool s) = c # cs"
  shows "owned issued (take_front i s)"
  using assms unfolding owned_def take_front_def lend_def by simp

lemma owned_push:
  assumes "owned issued s" and "c \<in> set (pw_lent s i)" and "length (mp_pool (pw_pool s)) < unat (mp_capacity (pw_pool s))"
  shows "owned issued (push_back i c s)"
proof -
  have "c \<notin> set (mp_pool (pw_pool s))" "c \<in> issued (pw_world s)" "\<And>j. j \<noteq> i \<Longrightarrow> c \<notin> set (pw_lent s j)"
    "\<And>j. distinct (pw_lent s j)"
    using assms(1,2) unfolding owned_def by blast+
  then show ?thesis
    using assms owned_destroy [OF assms(1), of i c]
    unfolding owned_def push_back_def destroy_lent_def by (auto simp: set_remove1_eq)
qed

lemma lent_frame:
  "pw_pool (destroy_lent i c s) = pw_pool s" "j \<noteq> i \<Longrightarrow> pw_lent (destroy_lent i c s) j = pw_lent s j"
  "j \<noteq> i \<Longrightarrow> pw_lent (push_back i c s) j = pw_lent s j" "j \<noteq> i \<Longrightarrow> pw_lent (take_front i s) j = pw_lent s j"
  "mp_capacity (pw_pool (push_back i c s)) = mp_capacity (pw_pool s)"
  "mp_capacity (pw_pool (take_front i s)) = mp_capacity (pw_pool s)"
  by (simp_all add: destroy_lent_def push_back_def take_front_def lend_def)

lemma open_step_guar:
  assumes "fresh_driver d issued"
  shows "pool_guar issued i h s (snd (open_step d i s))"
proof -
  obtain r w where r: "open_session d (mp_host (pw_pool s)) (mp_port (pw_pool s)) (mp_user (pw_pool s))
      (mp_pass (pw_pool s)) (pw_world s) = (r, w)" by (meson surj_pair)
  have f: "issued (pw_world s) \<subseteq> issued w" "\<And>c. r = Inr c \<Longrightarrow> c \<notin> issued (pw_world s) \<and> c \<in> issued w"
    using assms r unfolding fresh_driver_def by blast+
  show ?thesis
  proof (cases r)
    case (Inl e)
    have "owned issued s \<longrightarrow> owned issued (s\<lparr>pw_world := w\<rparr>)" by (intro impI owned_world [OF _ f(1)])
    then show ?thesis using r Inl by (simp add: open_step_def pool_guar_def Let_def)
  next
    case (Inr c)
    then have "owned issued s \<longrightarrow> owned issued (lend i c (s\<lparr>pw_world := w\<rparr>))" using f by (auto intro: owned_lend)
    then show ?thesis using r Inr by (simp add: open_step_def pool_guar_def lend_def Let_def)
  qed
qed

lemma use_step_guar:
  assumes "fresh_driver d issued"
  shows "pool_guar issued i h s (snd (use_step d i c s))"
proof -
  obtain r w where r: "execute_sql d c (''USE '' @ mp_schema (pw_pool s)) (pw_world s) = (r, w)" by (meson surj_pair)
  then have w: "issued (pw_world s) \<subseteq> issued w" using assms unfolding fresh_driver_def by blast
  have "owned issued s \<longrightarrow> owned issued (s\<lparr>pw_world := w\<rparr>)" by (intro impI owned_world [OF _ w])
  moreover have "owned issued s \<longrightarrow> owned issued (destroy_lent i c (s\<lparr>pw_world := w\<rparr>))"
    by (intro impI owned_destroy owned_world [OF _ w])
  ultimately show ?thesis using r by (cases r) (simp_all add: use_step_def pool_guar_def lent_frame)
qed

lemma destroy_guar: "pool_guar issued i h s (destroy_lent i c s)"
  using owned_destroy [of issued s i c] by (simp add: pool_guar_def lent_frame)

lemma take_front_guar: "mp_pool (pw_pool s) \<noteq> [] \<Longrightarrow> pool_guar issued i {PoolMutex} s (take_front i s)"
  using owned_take [of issued s] by (cases "mp_pool (pw_pool s)") (simp_all add: pool_guar_def lent_frame)

lemma push_back_guar:
  "c \<in> set (pw_lent s i) \<Longrightarrow> length (mp_pool (pw_pool s)) < unat (mp_capacity (pw_pool s)) \<Longrightarrow>
     pool_guar issued i {PoolMutex} s (push_back i c s)"
  using owned_push [of issued s c i] by (simp add: pool_guar_def lent_frame)

section \<open>The calls\<close>

abbreviation pool_rg :: "('w \<Rightarrow> 'c set) \<Rightarrow> nat \<Rightarrow> ('c, 'w) pool_prog \<Rightarrow> pool_mutex set \<Rightarrow> ('c, 'w) pool_world \<Rightarrow> bool" where
  "pool_rg issued i p h s \<equiv> rg (pool_rely issued i) (pool_guar issued i) (\<lambda>_. True) p h s"

lemma stable_True [simp]: "stable R (\<lambda>_. True)"
  by (simp add: stable_def)

lemma rg_free: "(\<And>t. G h t (f t)) \<Longrightarrow> (\<And>t. rg R G Q (k t) h (f t)) \<Longrightarrow> rg R G Q (Act f k) h s"
  by (rule rg_Act [where P = "\<lambda>_. True"]) simp_all

lemma rg_free_lock: "(\<And>t. rg R G Q p (insert m h) t) \<Longrightarrow> rg R G Q (Lock m p) h s"
  by (rule rg_Lock [where P = "\<lambda>_. True"]) simp_all

lemma rg_free_unlock: "(\<And>t. rg R G Q p (h - {m}) t) \<Longrightarrow> rg R G Q (Unlock m p) h s"
  by (rule rg_Unlock [where P = "\<lambda>_. True"]) simp_all

lemma guar_refl [simp]: "pool_guar issued i h s s"
  by (simp add: pool_guar_def)

lemma rg_new_connection:
  assumes "fresh_driver d issued" and "\<And>x t. pool_rg issued i (k x) {} t"
  shows "pool_rg issued i (new_connection_prog d i k) {} s"
  unfolding new_connection_prog_def
  by (rule rg_free) (auto intro!: rg_free assms open_step_guar use_step_guar split: sum.split option.split)

lemma rg_acquire:
  assumes "fresh_driver d issued" and "\<And>x t. pool_rg issued i (k x) {} t"
  shows "pool_rg issued i (acquire_prog d i k) {} s"
proof -
  have un: "pool_rg issued i (Unlock PoolMutex (k x)) {PoolMutex} t" for x t
    by (rule rg_free_unlock) (simp add: assms(2))
  have con: "pool_rg issued i (Unlock PoolMutex (new_connection_prog d i (\<lambda>r. case r of Inl e \<Rightarrow> k None | Inr c \<Rightarrow> k (Some c))))
      {PoolMutex} t" for t
    by (rule rg_free_unlock) (auto intro!: rg_new_connection assms split: sum.split)
  have tk: "pool_rg issued i (Act (take_front i) (\<lambda>t. Unlock PoolMutex (k (Some (hd (mp_pool (pw_pool t))))))) {PoolMutex} t"
    if "mp_pool (pw_pool t) \<noteq> []" for t
  proof (rule rg_Act [where P = "\<lambda>t. mp_pool (pw_pool t) \<noteq> []", OF _ that])
    show "stable (pool_rely issued i {PoolMutex}) (\<lambda>t. mp_pool (pw_pool t) \<noteq> [])"
      by (simp add: stable_def pool_rely_def)
  qed (rule take_front_guar un, assumption?)+
  show ?thesis
    unfolding acquire_prog_def by (intro rg_free_lock rg_free) (auto intro: tk con)
qed

lemma rg_release:
  fixes s :: "('c, 'w) pool_world"
  assumes p: "\<And>t. pool_rg issued i p {} t" and c: "c \<in> set (pw_lent s i)"
  shows "pool_rg issued i (release_prog i (Some c) p) {} s"
proof -
  let ?P = "\<lambda>t :: ('c, 'w) pool_world. c \<in> set (pw_lent t i)"
  have st: "stable (pool_rely issued i h) ?P" for h by (simp add: stable_def pool_rely_def)
  have un: "pool_rg issued i (Unlock PoolMutex p) {PoolMutex} t" for t
    by (rule rg_free_unlock) (simp add: p)
  have full: "pool_rg issued i (Unlock PoolMutex (modify (destroy_lent i c) p)) {PoolMutex} t" for t
    by (rule rg_free_unlock, rule rg_free) (auto intro: destroy_guar p)
  have room: "pool_rg issued i (modify (push_back i c) (Unlock PoolMutex p)) {PoolMutex} t"
    if t: "?P t \<and> length (mp_pool (pw_pool t)) < unat (mp_capacity (pw_pool t))" for t
  proof (rule rg_Act [where P = "\<lambda>t. ?P t \<and> length (mp_pool (pw_pool t)) < unat (mp_capacity (pw_pool t))", OF _ t])
    show "stable (pool_rely issued i {PoolMutex}) (\<lambda>t. ?P t \<and> length (mp_pool (pw_pool t)) < unat (mp_capacity (pw_pool t)))"
      by (simp add: stable_def pool_rely_def)
  qed (auto intro: push_back_guar un)
  show ?thesis
    unfolding release_prog_def option.case
    by (rule rg_Lock [OF st c], rule rg_Act [OF st]) (auto intro: room full)
qed

lemma rg_pool_call:
  assumes "fresh_driver d issued" and p: "\<And>t. pool_rg issued i p {} t"
  shows "pool_rg issued i (pool_call_prog d i c p) {} s"
proof (cases c)
  case Release
  have "pool_rg issued i (release_prog i (last_lent i t) p) {} t" for t
  proof (cases "pw_lent t i")
    case Nil
    then show ?thesis by (simp add: last_lent_def release_prog_def p)
  next
    case (Cons x xs)
    then show ?thesis using rg_release [OF p] by (simp add: last_lent_def)
  qed
  then show ?thesis by (auto simp: Release intro: rg_free)
qed (auto intro!: rg_free rg_acquire assms destroy_guar split: option.split)

lemma rg_pool_script: "fresh_driver d issued \<Longrightarrow> pool_rg issued i (script (pool_call_prog d i) cs) {} s"
proof (induction cs arbitrary: s)
  case Nil
  then show ?case by (simp add: rg_Done)
next
  case (Cons c cs)
  then show ?case by (auto intro: rg_pool_call)
qed

text \<open>The constructor builds such a pool.\<close>

lemma ctor_owned:
  assumes "fresh_driver d issued" and "mysql_pool_ctor d host port user pass schema n w = (Inr (p, ok, bad), w')"
  shows "owned issued \<lparr>pw_pool = p, pw_lent = \<lambda>_. [], pw_world = w'\<rparr>"
  using init_slots_inv [OF assms(1) assms(2) [unfolded mysql_pool_ctor_def]] by (simp add: owned_def)

section \<open>Properties\<close>

text \<open>
  C20. With a connector that never issues a session twice, threads that acquire, release and destroy
  connections of a pool that the constructor built, in any interleaving of the single steps never make a connection idle
  twice, lent to two threads, or idle and lent at once, nor the idle ones exceed the capacity; and
  they cannot block each other.
\<close>

theorem pool_threads_exclusive:
  assumes "fresh_driver d issued" and "mysql_pool_ctor d host port user pass schema n w = (Inr (p, ok, bad), w')"
    and "conc_step\<^sup>*\<^sup>* (start_threads \<lparr>pw_pool = p, pw_lent = \<lambda>_. [], pw_world = w'\<rparr> (pool_clients d scripts)) c"
    and "s = shared c"
  shows "distinct (mp_pool (pw_pool s)) \<and> length (mp_pool (pw_pool s)) \<le> unat (mp_capacity (pw_pool s))
    \<and> distinct (pw_lent s i) \<and> set (pw_lent s i) \<inter> set (mp_pool (pw_pool s)) = {}
    \<and> (i = j \<or> set (pw_lent s i) \<inter> set (pw_lent s j) = {})
    \<and> ((\<exists>c'. conc_step c c') \<or> all_done c)"
proof -
  let ?c0 = "start_threads \<lparr>pw_pool = p, pw_lent = \<lambda>_. [], pw_world = w'\<rparr> (pool_clients d scripts)"
  have s0: "pool.threads_sound issued (\<lambda>_ _. True) ?c0"
    by (rule pool.threads_sound_start) (simp add: pool_clients_def rg_pool_script [OF assms(1)])
  have "owned issued (shared c)"
    by (rule pool.guaranteed_inv [OF assms(3) s0])
      (use ctor_owned [OF assms(1,2)] in \<open>auto simp: start_threads_def stable_def pool_guar_def\<close>)
  moreover have "all_ordered (\<lambda>_. 0) c"
    by (rule all_ordered_steps [OF assms(3)], rule all_ordered_start)
      (auto simp: pool_clients_def list_all_iff intro!: pool_order.script_ordered)
  ultimately show ?thesis
    using all_ordered_progress assms(4) unfolding owned_def by blast
qed

theorem pool_threads_exclusive_witness:
  "\<exists>c. conc_step\<^sup>*\<^sup>* (start_threads \<lparr>pw_pool = counting_pool, pw_lent = \<lambda>_. [], pw_world = 4\<rparr>
       (pool_clients counting_driver [[Acquire], [Acquire, Release]])) c
     \<and> pw_lent (shared c) 0 = [0] \<and> pw_lent (shared c) 1 = [1] \<and> set (pw_lent (shared c) 0) \<inter> set (pw_lent (shared c) 1) = {}"
proof -
  let ?c0 = "start_threads \<lparr>pw_pool = counting_pool, pw_lent = \<lambda>_. [], pw_world = 4\<rparr>
       (pool_clients counting_driver [[Acquire], [Acquire, Release]])"
  obtain c where c: "run_schedule [0, 0, 0, 0, 1, 1, 1] ?c0 = Some c"
    "pw_lent (shared c) 0 = [0]" "pw_lent (shared c) 1 = [1]"
    by (simp add: start_threads_def pool_clients_def thread_step_def acquire_prog_def
        counting_pool_def take_front_def lend_def upt_rec)
  have "set (pw_lent (shared c) 0) \<inter> set (pw_lent (shared c) 1) = {}"
    using pool_threads_exclusive [OF counting_driver_fresh counting_ctor run_schedule_steps [OF c(1)] refl, of 0 1]
    by simp
  with c run_schedule_steps [OF c(1)] show ?thesis by blast
qed

end
