(* ===== verification/Write_Buffers.thy ===== *)
theory Write_Buffers
  imports Session_Write
begin

text \<open>
  Who owns the memory that an outstanding write reads. A message is a shared string; the write
  queue holds the only pointer to it that outlives \<open>do_write_queue\<close>, because the callback of the
  write captures the session and the generation but not the message. The write side of a session
  is modelled again with the addresses of the messages; erasing them gives the operations of the
  theory Session_Write. While the queue does not overflow the message in flight stays owned; an
  overflow frees it.
\<close>

section \<open>Operations with addresses\<close>

type_synonym message_ptr = "nat \<times> bytes"

text \<open>\<open>flying\<close>: the outstanding writes, with the captured generation and the message they read.\<close>

record write_side =
  ptr_queue :: "message_ptr list"
  overflows :: u64
  in_progress :: bool
  closed_flag :: bool
  state_field :: session_state
  generation_field :: u64
  flying :: "(u64 \<times> message_ptr) list"

definition ptr_pop :: "write_side \<Rightarrow> write_side" where
  "ptr_pop s = s\<lparr>ptr_queue := tl (ptr_queue s)\<rparr>"

definition ptr_enqueue_write :: "config \<Rightarrow> message_ptr \<Rightarrow> write_side \<Rightarrow> write_side" where
  "ptr_enqueue_write cfg p s =
     (if max_write_queue_size cfg \<le> length (ptr_queue s)
      then let s1 = ptr_pop s; s2 = s1\<lparr>overflows := overflows s1 + 1\<rparr> in
        if write_queue_overflow_limit cfg \<le> overflows s2
        then s2\<lparr>closed_flag := True\<rparr>
        else s2\<lparr>ptr_queue := ptr_queue s2 @ [p]\<rparr>
      else s\<lparr>overflows := 0, ptr_queue := ptr_queue s @ [p]\<rparr>)"

definition ptr_do_write_queue :: "write_side \<Rightarrow> write_side" where
  "ptr_do_write_queue s =
     (if state_field s = Closed then s
      else case ptr_queue s of
        [] \<Rightarrow> s\<lparr>in_progress := False\<rparr>
      | p # _ \<Rightarrow> s\<lparr>flying := flying s @ [(generation_field s, p)]\<rparr>)"

definition ptr_post :: "config \<Rightarrow> message_ptr \<Rightarrow> write_side \<Rightarrow> write_side" where
  "ptr_post cfg p s =
     (let idle = (ptr_queue s = []); s1 = ptr_enqueue_write cfg p s in
      if idle then ptr_do_write_queue (s1\<lparr>in_progress := True\<rparr>) else s1)"

definition ptr_callback :: "bool \<Rightarrow> write_side \<Rightarrow> write_side \<times> bool" where
  "ptr_callback err s =
     (case flying s of
        [] \<Rightarrow> (s, False)
      | (my_generation, p) # rest \<Rightarrow>
          (let s1 = s\<lparr>flying := rest\<rparr> in
           if my_generation \<noteq> generation_field s1 then (s1, False)
           else if err then (s1, True)
           else (ptr_do_write_queue (ptr_pop s1), False)))"

definition ptr_close :: "write_side \<Rightarrow> write_side" where
  "ptr_close s = s\<lparr>closed_flag := True, state_field := Closed\<rparr>"

lemmas ptr_ops = ptr_pop_def ptr_enqueue_write_def ptr_do_write_queue_def ptr_post_def ptr_callback_def
  ptr_close_def Let_def

section \<open>Erasing the addresses\<close>

definition erases :: "write_side \<Rightarrow> session \<Rightarrow> bool" where
  "erases s t \<longleftrightarrow> write_queue t = map snd (ptr_queue s) \<and> overflow_count t = overflows s
     \<and> write_in_progress t = in_progress s \<and> closed t = closed_flag s \<and> sstate t = state_field s
     \<and> generation t = generation_field s \<and> \<not> ub t
     \<and> sk_writes (sock t) = map (\<lambda>(g, p). (g, frame_message (snd p))) (flying s)"

lemma erases_post:
  assumes "erases s t" and "1 \<le> max_write_queue_size cfg"
  shows "erases (ptr_post cfg (a, m) s) (post_write_job cfg m t)"
  using assms by (cases "ptr_queue s") (auto simp: erases_def ptr_ops write_ops split: list.splits)

lemma erases_callback:
  assumes "erases s t" and "flying s \<noteq> [] \<longrightarrow> ptr_queue s \<noteq> []"
    and "ptr_callback err s = (s', b)" and "write_callback err t = (t', c)"
  shows "erases s' t' \<and> b = c"
  using assms by (cases "ptr_queue s"; cases "flying s")
    (auto simp: erases_def ptr_ops write_ops split: list.splits if_splits)

lemma erases_close: "erases s t \<Longrightarrow> erases (ptr_close s) (close_fields t)"
  by (simp add: erases_def ptr_close_def close_fields_def)

section \<open>The write machine\<close>

text \<open>
  What can happen to the write side, as in the theory Session_Write. A new message gets an address
  that no living one has; messages live while the queue owns them. \<open>room\<close> restricts the posts to
  those that find room in the queue.
\<close>

inductive ptr_step :: "config \<Rightarrow> bool \<Rightarrow> write_side \<Rightarrow> write_side \<Rightarrow> bool" for cfg room where
  post: "a \<notin> fst ` set (ptr_queue s) \<Longrightarrow> (room \<longrightarrow> length (ptr_queue s) < max_write_queue_size cfg) \<Longrightarrow>
     ptr_step cfg room s (ptr_post cfg (a, m) s)"
| callback: "ptr_callback err s = (s', c) \<Longrightarrow>
     ptr_step cfg room s (if c \<and> \<not> closed_flag s' then ptr_close s' else s')"
| close: "\<not> closed_flag s \<Longrightarrow> ptr_step cfg room s (ptr_close s)"
| registered: "ptr_step cfg room s (s\<lparr>state_field := Ready\<rparr>)"

text \<open>Each of its steps is, without the addresses, a step of the write machine of the session.\<close>

lemma erases_step:
  assumes "erases s t" and "write_inv cfg t" and "1 \<le> max_write_queue_size cfg" and "ptr_step cfg room s s'"
  shows "\<exists>t'. write_step cfg t t' \<and> erases s' t'"
  using assms(4)
proof (cases rule: ptr_step.cases)
  case (post a m)
  then show ?thesis using erases_post [OF assms(1,3)] write_step.post by blast
next
  case (callback err u c)
  obtain t' c' where t': "write_callback err t = (t', c')" by (cases "write_callback err t")
  have "flying s \<noteq> [] \<longrightarrow> ptr_queue s \<noteq> []" using assms(1,2) by (auto simp: erases_def write_inv_def)
  then have e: "erases u t'" "c = c'" using erases_callback [OF assms(1) _ callback(2) t'] by auto
  then have "erases s' (if c' \<and> \<not> closed t' then close_fields t' else t')"
    using callback(1) erases_close by (auto simp: erases_def)
  then show ?thesis using write_step.callback [OF t'] by blast
next
  case close
  then show ?thesis using erases_close [OF assms(1)] write_step.close assms(1) by (metis erases_def)
next
  case registered
  then have "erases s' (on_nickname_registered t)"
    using assms(1) by (simp add: erases_def on_nickname_registered_def)
  then show ?thesis using write_step.registered by blast
qed

definition fresh_side :: "write_side \<Rightarrow> bool" where
  "fresh_side s \<longleftrightarrow> s = \<lparr>ptr_queue = [], overflows = 0, in_progress = False, closed_flag = False,
     state_field = Handshaking, generation_field = 0, flying = []\<rparr>"

definition flight_inv :: "write_side \<Rightarrow> bool" where
  "flight_inv s \<longleftrightarrow> distinct (map fst (ptr_queue s)) \<and> (state_field s = Closed \<longrightarrow> closed_flag s)
     \<and> (flying s = [] \<or> (\<exists>p q. flying s = [(generation_field s, p)] \<and> ptr_queue s = p # q))
     \<and> (\<not> closed_flag s \<longrightarrow> ptr_queue s \<noteq> [] \<longrightarrow> flying s \<noteq> [])"

lemma flight_inv_post:
  assumes "flight_inv s" and "a \<notin> fst ` set (ptr_queue s)" and "length (ptr_queue s) < max_write_queue_size cfg"
  shows "flight_inv (ptr_post cfg (a, m) s)"
  using assms by (cases "ptr_queue s") (auto simp: flight_inv_def ptr_ops)

lemma flight_inv_callback:
  assumes "flight_inv s" and "ptr_callback err s = (s', c)"
  shows "flight_inv (if c \<and> \<not> closed_flag s' then ptr_close s' else s')"
  using assms by (cases "flying s"; cases "ptr_queue s"; cases "tl (ptr_queue s)")
    (auto simp: flight_inv_def ptr_ops split: if_splits)

lemma flight_inv_step: "flight_inv s \<Longrightarrow> ptr_step cfg True s t \<Longrightarrow> flight_inv t"
proof (erule ptr_step.cases)
  fix s1 err s' c
  assume "flight_inv s" "s = s1" "t = (if c \<and> \<not> closed_flag s' then ptr_close s' else s')"
    "ptr_callback err s1 = (s', c)"
  then show "flight_inv t" using flight_inv_callback by metis
next
  fix s1
  assume "flight_inv s" "s = s1" "t = s1\<lparr>state_field := Ready\<rparr>"
  then show "flight_inv t" by (simp add: flight_inv_def)
next
  fix s1
  assume "flight_inv s" "s = s1" "t = ptr_close s1"
  then show "flight_inv t" by (auto simp: flight_inv_def ptr_close_def)
qed (use flight_inv_post in auto)

interpretation flight: inductive_invariant fresh_side "ptr_step cfg True" flight_inv for cfg :: config
  by unfold_locales (simp add: fresh_side_def flight_inv_def, rule flight_inv_step)

section \<open>Properties\<close>

text \<open>
  C24. The message that an outstanding write reads is the head of the write queue, which owns it, as
  long as every post finds room. The next post to an open session whose queue is full frees it: the
  write goes on reading a message that nothing owns.
\<close>

theorem message_in_flight_owned:
  assumes "reach fresh_side (ptr_step cfg True) s" and "1 \<le> max_write_queue_size cfg"
    and "a \<notin> fst ` set (ptr_queue s)"
  shows "(\<forall>(g, p) \<in> set (flying s). \<exists>q. ptr_queue s = p # q)
    \<and> (\<not> closed_flag s \<and> max_write_queue_size cfg \<le> length (ptr_queue s) \<longrightarrow>
         (\<exists>g p. flying (ptr_post cfg (a, m) s) = [(g, p)] \<and> p \<in> set (ptr_queue s)
            \<and> fst p \<notin> fst ` set (ptr_queue (ptr_post cfg (a, m) s))))"
proof -
  have inv: "flight_inv s" using assms(1) by (rule flight.inv_reach)
  have "\<exists>g p. flying (ptr_post cfg (a, m) s) = [(g, p)] \<and> p \<in> set (ptr_queue s)
      \<and> fst p \<notin> fst ` set (ptr_queue (ptr_post cfg (a, m) s))"
    if full: "\<not> closed_flag s" "max_write_queue_size cfg \<le> length (ptr_queue s)"
  proof -
    obtain x y q where "ptr_queue s = (x, y) # q" "flying s = [(generation_field s, x, y)]"
      using inv full assms(2) by (cases "ptr_queue s") (auto simp: flight_inv_def)
    moreover from this have "x \<notin> fst ` set q" "a \<noteq> x"
      using inv assms(3) by (auto simp: flight_inv_def)
    ultimately show ?thesis using full by (auto simp: ptr_ops)
  qed
  then show ?thesis using inv by (auto simp: flight_inv_def)
qed

definition empty_side :: write_side where
  "empty_side = \<lparr>ptr_queue = [], overflows = 0, in_progress = False, closed_flag = False,
     state_field = Handshaking, generation_field = 0, flying = []\<rparr>"

definition full_side :: write_side where
  "full_side = foldl (\<lambda>s p. ptr_post small_config p s) empty_side [(1, ''a''), (2, ''b''), (3, ''c'')]"

lemma small_limits:
  "max_write_queue_size small_config = 3" "\<not> write_queue_overflow_limit small_config \<le> 1"
  by (simp_all add: small_config_def max_write_queue_size_def write_queue_overflow_limit_def config_value_def
      size_cast_def word_le_nat_alt)

lemma full_side_eq: "full_side = empty_side\<lparr>ptr_queue := [(1, ''a''), (2, ''b''), (3, ''c'')],
    in_progress := True, flying := [(0, 1, ''a'')]\<rparr>"
  by (simp add: full_side_def empty_side_def ptr_ops small_limits)

lemma full_side_reach: "reach fresh_side (ptr_step small_config True) full_side"
proof -
  have more: "reach fresh_side (ptr_step small_config True) (ptr_post small_config (a, m) s)"
    if "reach fresh_side (ptr_step small_config True) s" "a \<notin> fst ` set (ptr_queue s)" "length (ptr_queue s) < 3" for a m s
    by (rule reach.reach_step [OF that(1)], rule ptr_step.post) (use that in \<open>simp_all add: small_limits\<close>)
  show ?thesis
    unfolding full_side_def foldl.simps
    by (intro more reach.reach_init) (simp_all add: fresh_side_def empty_side_def ptr_ops small_limits)
qed

theorem message_in_flight_owned_witness:
  "\<exists>g p. flying (ptr_post small_config (4, ''d'') full_side) = [(g, p)]
     \<and> fst p \<notin> fst ` set (ptr_queue (ptr_post small_config (4, ''d'') full_side))"
  using message_in_flight_owned [OF full_side_reach, of 4 "''d''"] 
  by (auto simp: small_limits full_side_eq empty_side_def)

end
