(* ===== verification/Spec2Isabelle.thy ===== *)
theory Spec2Isabelle
  imports Startup Settling Protocol_Threads Wire_Envelope Nickname_Threads Close_Threads Registry_Linear Pool_Threads Write_Buffers
begin

text \<open>
  A verification of the DB middleware server in \<open>src/DBMiddleWareApplication\<close>: a TCP server that
  accepts connections from whitelisted addresses, cuts their bytes into length-prefixed packets,
  lets a client log in with a shared secret and a nickname, and answers login and insert packets.

  \<^bold>\<open>The parts and how they interact.\<close> \<open>main\<close> (DBMiddleWareApplication.cpp) sets up the logger, reads
  the configuration and the environment, fills the MySQL pool (MysqlPool.cpp), and builds the
  session registry (SessionManager.cpp), the data handler with its dispatcher (DataHandler.cpp,
  MessageDispatcher.cpp) and the accept loop (Server.cpp) with its whitelist (AllowedIPManager.cpp).
  An accepted connection becomes a session (Session.cpp). Its strand serialises its handlers: a
  read completes into the receive buffer (MessageBufferManager.cpp), every complete packet goes
  through the data handler to the dispatcher, replies go to the write queue, closing goes back to
  the registry.

  \<^bold>\<open>The theories, in the order of imports.\<close>
  \<^item> Prelude: machine types, big-endian lengths, reachable states, and the contracts
    \<open>inductive_invariant\<close> (an invariant of a step relation) and \<open>measured_steps\<close> (work that ends).
  \<^item> Message_Buffer (MessageBufferManager): \<open>append\<close>, \<open>extract_message\<close>, \<open>clear\<close>, the drain loop, and
    \<open>parse_stream\<close>, the grammar it implements; interface \<open>stream_decoder\<close>, interpreted as \<open>recv\<close>.
  \<^item> Allowed_IPs (AllowedIPManager), Mysql_Pool (MySqlPool, with the connector as a parameter).
  \<^item> Session_Core, Session_Write (Session): the members of a session as a record, its accessors, and
    \<open>enqueue_write\<close>, \<open>post_write\<close>, \<open>do_write_queue\<close> with its completion; interface \<open>fifo_channel\<close>,
    interpreted as \<open>wq\<close>, and the machine \<open>write_step\<close> of one session.
  \<^item> Session_Manager (SessionManager): the sharded registry and the nickname index; its interface is
    the contract of one map, interpreted as \<open>reg\<close>.
  \<^item> World: the heap of sessions and what reaches across components: \<open>close_session\<close>, \<open>post_task\<close>,
    \<open>do_read\<close>, the login timer, \<open>add_session\<close>, \<open>register_nickname\<close>, the idle sweep.
  \<^item> Dispatcher (MessageDispatcher): the gate, the table of handlers, login and insert; interface
    \<open>handler_steps\<close>, interpreted for what handlers never change (\<open>frames\<close>), the read side (\<open>reads\<close>)
    and the nicknames (\<open>nicks\<close>).
  \<^item> Reader (\<open>Session::do_read\<close>): the loop over the packets and the whole read handler.
  \<^item> Protocol: the abstract protocol that one client sees, and that the read loop implements it.
  \<^item> Utilities (Utility, AppContext, Logger, MemoryTracker), Data_Handler (DataHandler; interface
    \<open>std_sort\<close> for the standard sort, interpreted as \<open>isort\<close>).
  \<^item> Server (Server): the accept loop and \<open>sys_step\<close>, the running server: accepts, strand closures,
    reads, writes, timers, scheduling, peers that go, destruction of sessions, and registrations of logins
    whose duplicate check is older; \<open>sys_result\<close> says of each whether its handler throws. Its invariant \<open>sys_inv\<close> holds in
    every reachable state (\<open>server_machine\<close>) and carries the properties that span components.
  \<^item> Settling: the steps that need no input end, and where they end everything is written.
  \<^item> Startup (\<open>main\<close>): what the program serves from is an initial state of that machine; and
    \<open>process_step\<close>, the machine with the number of threads that are left to run its handlers, where a
    thread is lost with each handler that throws.
  \<^item> Mutexes, Rely_Guarantee: programs of threads that lock and unlock mutexes, their interleavings,
    and three contracts: calls that take mutexes in one order (\<open>ordered_calls\<close>, \<open>described_calls\<close>,
    interpreted as \<open>mgr\<close> and \<open>srv\<close>) and relies and guarantees (\<open>rely_guarantee\<close>, interpreted as \<open>nick\<close> and
    \<open>pool\<close>); Obligations: what a thread that began something owes (\<open>obligation\<close>, interpreted as \<open>closing\<close>
    and \<open>marking\<close>).
  \<^item> Bucket_Threads, Manager_Threads (SessionManager.cpp, and its callers in Session.cpp,
    MessageDispatcher.cpp and DataHandler.cpp): every operation of the registry as such a program, one
    step per lock, unlock, read or change; an operation \<open>f\<close> of the code is \<open>f_prog\<close> there.
  \<^item> Handler_Threads (\<open>do_read\<close> and the write callback of Session.cpp, the whole of MessageDispatcher.cpp):
    the handlers as such programs, \<open>server_prog\<close>, and that run alone they are the handlers above;
    Protocol_Threads: the reads of a client as such a program do what the abstract protocol says.
  \<^item> Registry_Linear: the operations on a bucket are linearizable; Nickname_Threads: concurrent packets and
    logins; Close_Threads: concurrent closings of a session, by the interfaces \<open>program_steps\<close> and
    \<open>call_steps\<close> (interpreted as \<open>duties\<close> and \<open>marking_calls\<close>), which go through every step of every
    handler once; Pool_Threads: the same view of the connection pool (MysqlPool.cpp).
  \<^item> Write_Buffers (the write side of Session.cpp with the addresses of the messages): who owns the
    message that a write reads.
  \<^item> Wire_Messages, Wire_Envelope (generated/wire.pb, proto/wire.proto): the messages of the planned
    binary protocol, which the server includes and does not use yet.
  \<^item> This theory: the life cycle of a session and the way of a login through all the components.

  \<^bold>\<open>What the lemmas show.\<close> Round trips and chunking of the framing; the protocol refinement and
  the login gate; safety of the whitelist, uniqueness of nicknames, agreement of registry and open
  sessions; one read and one write outstanding, no message stranded, order of replies; exclusive
  ownership of connections among threads; termination of the read loop, of the drains and of all internal work;
  exactness of the sweeps; no exception leaves the read handler and at most one thread is lost. Where the code does something else than it means to, a theorem says what
  it does: the write queue that overflows and frees the message being written, the lock taken twice,
  the kicked notice that is lost, the accept loop and the thread that end, the login behind a rejected
  packet. The interleavings of threads: no deadlock and no endless run in handlers and registry, the
  bucket operations linearizable, nicknames unique and closings complete at the level of single steps.

  \<^bold>\<open>Bounds.\<close> No fuel: every loop is a function with a proof of termination. Hypotheses on the
  configuration are \<open>max_task_queue\<close> at least 1 and, for the write side, \<open>max_write_queue_size\<close> at
  least 2 (the shipped file has 1000 and 100); with a queue of size 1 an overflow drops the message
  being written. The registry is complete until the 32-bit id counter wraps, and fewer than 2^30
  hardware threads are assumed, so that the number of shards does not wrap. The entries of the
  configuration that the code reads are taken to be numbers or absent.

  \<^bold>\<open>Modelling decisions.\<close> In \<open>sys_step\<close> a handler runs to completion as one step, except that a login's
  registration may follow its duplicate check at any later time. Handlers of different sessions run
  in different threads and meet in the registry: Bucket_Threads, Manager_Threads and Handler_Threads take
  operations and handlers apart, and the lemmas there, Protocol_Threads and Registry_Linear relate the two views.
  There a step is one change that other threads can see; a call of a socket is one step. In Session_Write a write sends what it
  was given; Write_Buffers tells when that memory is still owned. A closure dispatched to a strand from
  another thread runs at once or is queued. Popping an empty queue sets a flag that the invariant
  shows never set. What the code throws is a value: exceptions of the JSON library, of sockets and
  of the connector. The JSON library, the MySQL connector, the sort, the protobuf runtime, files,
  environment, clock and scheduler are parameters.

  \<^bold>\<open>Not modelled.\<close> The text and level of log lines other than the two of the monitor; console output;
  what accesses to the state and the socket of a session do that really overlap (they are a data race,
  reachable by \<open>close_races_with_read\<close>; the model lets one precede the other); the local array that
  holds the length prefix of a write; table-driven parsing, reflection and arenas of the generated protobuf code; the Windows branches; build files. The
  login timer and the sweep of unauthenticated sessions are modelled as operations, but no step of the
  server runs them, since the calls are commented out in the code.
\<close>

section \<open>The life of a session\<close>

text \<open>
  C7. In every reachable state a live session is Handshaking, Ready or Closed, never Handshaked or
  LoginWait; unless it is Closed it is Ready exactly when a nickname is registered, and Closed
  only with the flag set; its login timer never runs, and every outstanding write carries the
  session's current generation, so the check for stale callbacks never fires.
\<close>

theorem session_life_cycle:
  assumes "reach (sys_init cfg f sec) (sys_step jl) sv" and "1 \<le> max_task_queue cfg"
    and "r \<in> alive (net sv)" and "s = heap (net sv) r"
  shows "sstate s \<in> {Handshaking, Ready, Closed}
    \<and> (sstate s = Closed \<or> (sstate s = Ready \<longleftrightarrow> nickname_registered s))
    \<and> (closed s \<or> sstate s \<noteq> Closed) \<and> login_timer s = None
    \<and> fst ` set (sk_writes (sock s)) \<subseteq> {generation s}"
proof -
  have "lifecycle s" "closed_ok s"
    using reach_inv [OF assms(1,2)] assms(3,4)
    by (auto simp: sys_inv_def sys_core_def session_good_def read_inv_def)
  then show ?thesis by (auto simp: lifecycle_def closed_ok_def)
qed

theorem session_life_cycle_witness: "sstate (heap (net demo_server2) 0) \<noteq> Handshaking"
  using session_life_cycle [OF demo_server2_reach _ demo_server2_bob(1) refl] demo_server2_bob(2)
  by (auto simp: config_json_limits)

text \<open>The idle sweep never runs in the server as it is started, whatever happens.\<close>

lemma cleanup_never_armed:
  "reach (sys_init cfg f sec) (sys_step jl) sv \<Longrightarrow> cleanup_timer (dh sv) = None \<and> dh_secret (dh sv) = sec"
  using handler_machine.inv_reach by (force simp: handler_fixed_def)

section \<open>The way of a login\<close>

text \<open>A read that completes exactly one message, when its handler leaves the session open.\<close>

lemma read_one_message:
  assumes "feed (msg_buf (heap w r)) d = ([p], mb)" and "\<not> mb_invalid mb"
    and "read_inv (heap w r)" and "0 < sk_reads (sock (heap w r))" and "1 \<le> max_task_queue (app_config w)"
    and v: "handle_one jl sec r p (upd r (append_data d) (upd r read_done w)) = v"
    and st: "sstate (heap v r) \<noteq> Closed"
    and w': "w' = snd (read_callback jl sec r (ReadOk d) w)"
  shows "heap w' r = start_read ((heap v r)\<lparr>msg_buf := mb, read_pending := True\<rparr>)"
    and "manager w' = manager v" and "app_config w' = app_config w" and "alive w' = alive w"
proof -
  let ?a = "after_messages jl sec r d w"
  have a: "?a = set_buf r mb v" by (simp add: after_messages_def assms(1) v)
  have rv: "read_view (heap ?a r) = (0, False, [], True, [])"
    using assms(3,4) by (simp add: read_view_after_messages read_view_read_done)
  have cfg: "app_config ?a = app_config w" using frame_after_messages [of r w jl sec d] by (simp add: handler_frame_def)
  have n: "w' = upd r run_next_task (do_read True r ?a)"
    using assms(1,2) by (simp add: w' read_callback_ok')
  have s: "sstate (heap ?a r) \<noteq> Closed" using st by (simp add: a)
  have "heap w' r = start_read ((heap ?a r)\<lparr>read_pending := True\<rparr>)"
    unfolding n using do_read_next [OF rv] assms(5) s cfg by simp
  then show "heap w' r = start_read ((heap v r)\<lparr>msg_buf := mb, read_pending := True\<rparr>)" by (simp add: a)
  have "manager (do_read True r ?a) = manager ?a"
    using rv s assms(5) cfg
    by (simp add: read_view_def do_read_alt post_task_def post_task_job_def runs_now_def try_acquire_read_def)
  then show "manager w' = manager v" by (simp add: n a)
  show "app_config w' = app_config w" "alive w' = alive w"
    using frame_read_callback [of r w jl sec "ReadOk d"] by (simp_all add: w' handler_frame_def)
qed

lemma dispatch_login:
  assumes "\<not> nickname_registered (heap w r)"
    and "jparse jl js = Some msg" and "value_string jl msg ''type'' [] = Some ''login''"
    and "value_string jl msg ''nickname'' [] = Some n" and "n \<noteq> []"
    and "find_session_by_nickname (alive w) n (manager w) = None"
  shows "dispatch jl (message_dispatcher_ctor jl sec) r (sec @ js) w
    = return (post_write True r login_ok (login_commit n r w))"
  using assms
  by (simp add: dispatch_def has_secret_prefix_def dispatch_type_def ctor_handlers login_handler_def Let_def)

text \<open>
  C6. In every reachable state, when an open session with nothing left to write receives the rest
  of a framed login packet (the secret and a JSON text of type login with a free nickname), then
  once the reply has been written the peer has received exactly the frame of the login
  acknowledgement, the session is Ready and found under its nickname, its queue and its receive
  buffer are empty, and the next read is outstanding.
\<close>

theorem login_is_acknowledged:
  assumes "reach (sys_init cfg f sec) (sys_step jl) sv" and "1 \<le> max_task_queue cfg"
    and "2 \<le> max_write_queue_size cfg"
    and "r \<in> alive (net sv)" and "s = heap (net sv) r" and "\<not> closed s" and "\<not> nickname_registered s"
    and "write_queue s = []" and "0 < sk_reads (sock s)"
    and "mb_buffer (msg_buf s) @ d = frame_message (sec @ js)" and "1 \<le> length (sec @ js)"
    and "length (sec @ js) \<le> 4096"
    and "jparse jl js = Some msg" and "value_string jl msg ''type'' [] = Some ''login''"
    and "value_string jl msg ''nickname'' [] = Some n" and "n \<noteq> []"
    and "find_session_by_nickname (alive (net sv)) n (manager (net sv)) = None"
    and "w = on_write False r (snd (read_callback jl sec r (ReadOk d) (net sv)))"
  shows "sk_sent (sock (heap w r)) = sk_sent (sock s) @ [frame_message login_ok]
    \<and> \<not> closed (heap w r) \<and> sstate (heap w r) = Ready \<and> write_queue (heap w r) = []
    \<and> msg_buf (heap w r) = empty_msgbuf \<and> sk_reads (sock (heap w r)) = 1
    \<and> find_session_by_nickname (alive w) n (manager w) = Some r"
proof -
  let ?w = "net sv"
  have inv: "read_inv (heap ?w r)" "write_inv cfg (heap ?w r)" "app_config ?w = cfg" "handler_alive ?w"
    using reach_inv [OF assms(1,2)] assms(3,4) by (auto simp: sys_inv_def sys_core_def session_good_def)
  have fd: "feed (msg_buf (heap ?w r)) d = ([sec @ js], empty_msgbuf)"
    using parse_stream_frame [OF assms(11,12), of "[]"] assms(5,10)
    by (simp add: feed_def extract_all_parse mb_append_def empty_msgbuf_def parse_stream.simps [of "[]"])
  define w0 where "w0 = upd r (append_data d) (upd r read_done ?w)"
  define v where "v = post_write True r login_ok (login_commit n r w0)"
  have w0: "\<not> nickname_registered (heap w0 r)" "alive w0 = alive ?w" "manager w0 = manager ?w" "handler_alive w0"
    using assms(5,7) inv(4) by (simp_all add: w0_def read_ops)
  have "handle_one jl sec r (sec @ js) w0 = v"
    using dispatch_login [OF w0(1) assms(13-16), of sec] assms(17) w0(2-4)
    by (simp add: handle_one_def handle_packet_def data_handler_dispatch_def v_def)
  note h = this [unfolded w0_def]
  have c: "heap (login_commit n r w0) r = on_nickname_registered ((heap w0 r)\<lparr>nickname := n\<rparr>)"
    "app_config (login_commit n r w0) = cfg"
    using inv(3) by (simp_all add: login_commit_def w0_def)
  have idle: "sk_writes (sock s) = []" "sstate s \<noteq> Closed" "\<not> ub s"
    using inv(2) assms(5,6,8) by (auto simp: write_inv_def)
  have v_r: "heap v r = post_write_job cfg login_ok (on_nickname_registered ((heap w0 r)\<lparr>nickname := n\<rparr>))"
    "nickname_index (manager v) n = Some r"
    using c by (simp_all add: v_def post_write_def runs_now_def) (simp add: login_commit_def)
  have st: "sstate (heap v r) \<noteq> Closed" by (simp add: v_r on_nickname_registered_def)
  note one = read_one_message [OF fd _ inv(1) _ _ h st refl]
  have reads: "sk_reads (sock s) = 1"
    using inv(1) assms(5,9) by (auto simp: read_inv_def reads_pending_def)
  let ?w1 = "snd (read_callback jl sec r (ReadOk d) ?w)"
  have s1: "heap ?w1 r = start_read ((heap v r)\<lparr>msg_buf := empty_msgbuf, read_pending := True\<rparr>)"
    "manager ?w1 = manager v" "alive ?w1 = alive ?w"
    using one assms(2,5,9) inv(3) by (simp_all add: empty_msgbuf_def)
  let ?s1 = "heap ?w1 r"
  have q: "write_queue s = []" "sk_writes (sock s) = []" "sstate s \<noteq> Closed" "\<not> closed s" using idle assms(6,8) by simp_all
  have f1: "write_queue ?s1 = [login_ok]" "sk_writes (sock ?s1) = [(generation ?s1, frame_message login_ok)]"
    "sk_sent (sock ?s1) = sk_sent (sock s)" "sstate ?s1 = Ready" "\<not> closed ?s1"
    "sk_reads (sock ?s1) = 1" "msg_buf ?s1 = empty_msgbuf"
    using q reads assms(3) assms(5) unfolding s1(1) v_r(1) w0_def
    by (simp_all add: start_read_def on_nickname_registered_def write_ops read_ops)
  obtain s2 where cb: "write_callback False ?s1 = (s2, False)"
    and f2: "sk_sent (sock s2) = sk_sent (sock s) @ [frame_message login_ok]" "write_queue s2 = []"
      "closed s2 = closed ?s1" "sstate s2 = Ready" "msg_buf s2 = empty_msgbuf" "sk_reads (sock s2) = 1"
    using f1 by (simp add: write_callback_def write_queue_pop_def do_write_queue_def Let_def)
  have w: "heap w r = s2" using on_write_heap [OF cb] by (simp add: assms(18))
  have "find_session_by_nickname (alive w) n (manager w) = Some r"
    using v_r(2) s1(2,3) assms(4) by (simp add: assms(18) find_session_by_nickname_def weak_lock_def)
  then show ?thesis using f1(5) f2 by (simp add: w)
qed

text \<open>Bob logs in at the small server.\<close>

theorem login_is_acknowledged_witness:
  "sk_sent (sock (heap (on_write False 0 (net demo_server2)) 0)) = [frame_message login_ok]"
proof -
  let ?s = "heap (net demo_server1) 0"
  have "\<not> closed ?s" "\<not> nickname_registered ?s" "write_queue ?s = []" "0 < sk_reads (sock ?s)"
    "mb_buffer (msg_buf ?s) @ frame_message ''s3L'' = frame_message (''s3'' @ ''L'')" "sk_sent (sock ?s) = []"
    by (simp_all add: demo_server1_session start_read_def session_ctor_def demo_socket_def empty_msgbuf_def)
  moreover have "find_session_by_nickname (alive (net demo_server1)) ''bob'' (manager (net demo_server1)) = None"
    by (simp add: find_session_by_nickname_def demo_server1_manager)
  ultimately show ?thesis
    using login_is_acknowledged [OF demo_server1_reach _ _ demo_server1_alive refl _ _ _ _ _ _ _ tiny_login_simps _ _ refl,
        where d = "frame_message ''s3L''"]
    by (simp add: config_json_limits demo_server2_def)
qed

end
